(* ===== verification/Prelude.thy ===== *)
theory Prelude
  imports Main "HOL-Library.Word" "HOL-Library.List_Lexorder"
begin

text \<open>
  Shared vocabulary of the BanDB development: bytes and byte strings, Go's
  \<open>bytes.Compare\<close>, the fixed-width integer codecs of \<open>encoding/binary\<close>,
  reading from a file image with \<open>io.ReadFull\<close> and \<open>binary.Read\<close>, sorted association
  lists as the abstract view of every ordered table, and the generic lemmas the
  components rely on.

  Conventions. A Go \<open>[]byte\<close> that is never distinguished from \<open>nil\<close> is a \<open>bytes\<close>; where
  the code tests a slice against \<open>nil\<close> (a tombstone value) it is a \<open>bytes option\<close> with
  \<open>None\<close> for \<open>nil\<close>. Lengths and file offsets are \<open>nat\<close>; where the source truncates them to
  a fixed width the truncation is written out (the codecs reduce modulo \<open>256 ^ n\<close>).
\<close>

named_theorems sorted_alist_simps \<open>rewrite rules for sorted association lists\<close>
named_theorems codec_simps \<open>lengths and round trips of the byte codecs\<close>
named_theorems read_simps \<open>reading at a known position of a file image\<close>

type_synonym byte = "8 word"
type_synonym bytes = "8 word list"

section \<open>Byte strings and their order\<close>

text \<open>\<open>bytes.Compare\<close>: lexicographic, \<open>-1\<close>, \<open>0\<close> or \<open>1\<close>.\<close>

fun bytes_Compare :: "bytes \<Rightarrow> bytes \<Rightarrow> int" where
  "bytes_Compare [] [] = 0"
| "bytes_Compare [] (_ # _) = -1"
| "bytes_Compare (_ # _) [] = 1"
| "bytes_Compare (x # xs) (y # ys) =
     (if x < y then -1 else if y < x then 1 else bytes_Compare xs ys)"

lemma bytes_Compare_cases:
  "bytes_Compare a b = (if a < b then -1 else if a = b then 0 else 1)"
  by (induction a b rule: bytes_Compare.induct) auto

lemma bytes_Compare_less [simp]: "bytes_Compare a b < 0 \<longleftrightarrow> a < b"
  and bytes_Compare_eq [simp]: "bytes_Compare a b = 0 \<longleftrightarrow> a = b"
  and bytes_Compare_greater [simp]: "0 < bytes_Compare a b \<longleftrightarrow> b < a"
  and bytes_Compare_le [simp]: "bytes_Compare a b \<le> 0 \<longleftrightarrow> a \<le> b"
  by (auto simp: bytes_Compare_cases)

text \<open>An ASCII literal of the source as bytes.\<close>

definition ascii :: "string \<Rightarrow> bytes" where
  "ascii s = map of_char s"

section \<open>Fixed-width integers\<close>

text \<open>
  \<open>binary.BigEndian\<close> and \<open>binary.LittleEndian\<close>, for any number of bytes: \<open>put_be n v\<close> writes
  the low \<open>n\<close> bytes of \<open>v\<close>, which is the conversion \<open>uint32(v)\<close>, \<open>uint64(v)\<close> etc. followed by
  the \<open>PutUint\<close> call.
\<close>

fun put_be :: "nat \<Rightarrow> nat \<Rightarrow> bytes" where
  "put_be 0 v = []"
| "put_be (Suc n) v = put_be n (v div 256) @ [word_of_nat v]"

definition get_be :: "bytes \<Rightarrow> nat" where
  "get_be bs = foldl (\<lambda>a b. a * 256 + unat b) 0 bs"

definition put_le :: "nat \<Rightarrow> nat \<Rightarrow> bytes" where
  "put_le n v = rev (put_be n v)"

definition get_le :: "bytes \<Rightarrow> nat" where
  "get_le bs = get_be (rev bs)"

lemma length_put_be [simp, codec_simps]: "length (put_be n v) = n"
  by (induction n arbitrary: v) auto

lemma length_put_le [simp, codec_simps]: "length (put_le n v) = n"
  by (simp add: put_le_def)

lemma get_be_snoc: "get_be (bs @ [b]) = get_be bs * 256 + unat b"
  by (simp add: get_be_def)

lemma get_be_Nil [simp]: "get_be [] = 0"
  by (simp add: get_be_def)

lemma mod_256_power: "(v :: nat) mod 256 ^ Suc n = (v div 256) mod 256 ^ n * 256 + v mod 256"
  by (metis mod_mult2_eq mult.commute power_Suc2)

lemma get_put_be_mod: "get_be (put_be n v) = v mod 256 ^ n"
proof (induction n arbitrary: v)
  case 0
  then show ?case by simp
next
  case (Suc n)
  show ?case
    unfolding mod_256_power
    by (simp add: get_be_snoc Suc.IH unat_of_nat)
qed

lemma get_put_be [codec_simps]: "v < 256 ^ n \<Longrightarrow> get_be (put_be n v) = v"
  by (simp add: get_put_be_mod)

lemma get_put_le [codec_simps]: "v < 256 ^ n \<Longrightarrow> get_le (put_le n v) = v"
  by (simp add: get_le_def put_le_def get_put_be_mod)

lemma unat_byte: "unat (b :: byte) < 256"
  using unsigned_less [of b] by simp

lemma get_be_bound: "get_be bs < 256 ^ length bs"
proof (induction bs rule: rev_induct)
  case Nil
  then show ?case by simp
next
  case (snoc b bs)
  have "unat b < 256" by (rule unat_byte)
  with snoc show ?case by (simp add: get_be_snoc)
qed

lemma get_le_bound: "get_le bs < 256 ^ length bs"
  using get_be_bound [of "rev bs"] by (simp add: get_le_def)

lemma put_get_be: "put_be (length bs) (get_be bs) = bs"
proof (induction bs rule: rev_induct)
  case Nil
  then show ?case by simp
next
  case (snoc b bs)
  have b: "unat b < 256" by (rule unat_byte)
  have "(get_be bs * 256 + unat b) div 256 = get_be bs"
    using b by simp
  moreover have "word_of_nat (get_be bs * 256 + unat b) = b"
  proof -
    have "(256 :: byte) = 0" by (simp add: word_eq_iff_unsigned)
    then have "word_of_nat (get_be bs) * (256 :: byte) = 0" by (metis mult_zero_right)
    then show ?thesis by simp
  qed
  ultimately show ?case
    using snoc by (simp add: get_be_snoc)
qed

lemma put_get_le: "length bs = n \<Longrightarrow> put_le n (get_le bs) = bs"
  using put_get_be [of "rev bs"] by (simp add: put_le_def get_le_def)

text \<open>Two's complement readings of the signed 64-bit fields.\<close>

definition int64_of :: "nat \<Rightarrow> int" where
  "int64_of v = (if v < 2 ^ 63 then int v else int v - 2 ^ 64)"

definition nat_of_int64 :: "int \<Rightarrow> nat" where
  "nat_of_int64 i = nat (i mod 2 ^ 64)"

definition in_int64 :: "int \<Rightarrow> bool" where
  "in_int64 i \<longleftrightarrow> - (2 ^ 63) \<le> i \<and> i < 2 ^ 63"

lemma nat_of_int64_bound: "nat_of_int64 i < 256 ^ 8"
  by (simp add: nat_of_int64_def nat_less_iff)

lemma int64_of_nat_of_int64 [codec_simps]: "in_int64 i \<Longrightarrow> int64_of (nat_of_int64 i) = i"
proof -
  assume i: "in_int64 i"
  show ?thesis
  proof (cases "0 \<le> i")
    case True
    with i show ?thesis
      by (auto simp: int64_of_def nat_of_int64_def in_int64_def nat_less_iff)
  next
    case False
    with i have "(i + 2 ^ 64) mod 2 ^ 64 = i + 2 ^ 64"
      by (intro mod_pos_pos_trivial) (auto simp: in_int64_def)
    then have "i mod 2 ^ 64 = i + 2 ^ 64" by simp
    with i False show ?thesis
      by (auto simp: int64_of_def nat_of_int64_def in_int64_def nat_less_iff)
  qed
qed

section \<open>Reading a file image\<close>

text \<open>
  A file is its byte content; an open handle adds a position. \<open>ReadFull\<close> is \<open>io.ReadFull\<close> on a
  handle: nothing read when \<open>n = 0\<close>, \<open>EOF\<close> when no byte is left, \<open>UnexpectedEOF\<close> when some but not
  enough bytes are left. \<open>binary.Read\<close> of an unsigned big-endian integer is \<open>ReadBE\<close>.
\<close>

datatype io_error = EOF | UnexpectedEOF

definition ReadFull :: "bytes \<Rightarrow> nat \<Rightarrow> nat \<Rightarrow> io_error + bytes \<times> nat" where
  "ReadFull f pos n =
     (if n = 0 then Inr ([], pos)
      else if length f \<le> pos then Inl EOF
      else if length f < pos + n then Inl UnexpectedEOF
      else Inr (take n (drop pos f), pos + n))"

definition ReadBE :: "nat \<Rightarrow> bytes \<Rightarrow> nat \<Rightarrow> io_error + nat \<times> nat" where
  "ReadBE n f pos =
     (case ReadFull f pos n of Inl e \<Rightarrow> Inl e | Inr (bs, pos') \<Rightarrow> Inr (get_be bs, pos'))"

text \<open>\<open>seg f pos bs\<close>: the bytes \<open>bs\<close> stand at position \<open>pos\<close> of the image \<open>f\<close>.\<close>

definition seg :: "bytes \<Rightarrow> nat \<Rightarrow> bytes \<Rightarrow> bool" where
  "seg f pos bs \<longleftrightarrow> pos + length bs \<le> length f \<and> take (length bs) (drop pos f) = bs"

lemma segI: "f = a @ bs @ c \<Longrightarrow> pos = length a \<Longrightarrow> seg f pos bs"
  by (simp add: seg_def)

lemma seg_self [simp]: "seg bs 0 bs"
  by (simp add: seg_def)

lemma seg_append [read_simps]:
  "seg f pos (xs @ ys) \<longleftrightarrow> seg f pos xs \<and> seg f (pos + length xs) ys"
proof -
  have "take (length xs + length ys) (drop pos f) =
        take (length xs) (drop pos f) @ take (length ys) (drop (pos + length xs) f)"
    by (simp add: take_add add.commute)
  then show ?thesis
    by (auto simp: seg_def add.assoc)
qed

lemma seg_Nil [simp]: "seg f pos [] \<longleftrightarrow> pos \<le> length f"
  by (simp add: seg_def)

lemma seg_length: "seg f pos bs \<Longrightarrow> pos + length bs \<le> length f"
  by (simp add: seg_def)

lemma ReadFull_seg: "seg f pos bs \<Longrightarrow> n = length bs \<Longrightarrow> ReadFull f pos n = Inr (bs, pos + n)"
  by (auto simp: ReadFull_def seg_def)

lemma ReadBE_seg: "seg f pos (put_be n v) \<Longrightarrow> v < 256 ^ n \<Longrightarrow> ReadBE n f pos = Inr (v, pos + n)"
  using ReadFull_seg [of f pos "put_be n v" n] by (simp add: ReadBE_def get_put_be)

lemma ReadFull_EOF: "length f \<le> pos \<Longrightarrow> 0 < n \<Longrightarrow> ReadFull f pos n = Inl EOF"
  by (simp add: ReadFull_def)

lemma ReadBE_EOF: "length f \<le> pos \<Longrightarrow> 0 < n \<Longrightarrow> ReadBE n f pos = Inl EOF"
  by (simp add: ReadBE_def ReadFull_def)

lemma ReadFull_Inr:
  "ReadFull f pos n = Inr (bs, pos') \<Longrightarrow> length bs = n \<and> pos' = pos + n"
  by (auto simp: ReadFull_def split: if_splits)

lemma ReadFull_progress:
  "ReadFull f pos n = Inr (bs, pos') \<Longrightarrow> 0 < n \<Longrightarrow> pos < pos' \<and> pos' \<le> length f"
  by (auto simp: ReadFull_def split: if_splits)

lemma ReadBE_progress:
  "ReadBE n f pos = Inr (v, pos') \<Longrightarrow> 0 < n \<Longrightarrow> pos' = pos + n \<and> pos' \<le> length f"
  by (auto simp: ReadBE_def ReadFull_def split: sum.splits if_splits)

section \<open>Sorted association lists\<close>

text \<open>
  The abstract view of an ordered table: the pairs in strictly ascending key order. Every
  table of the storage engine (skip list, SSTable, merged SSTable) is shown to denote one.
\<close>

abbreviation sorted_keys :: "('k::linorder \<times> 'v) list \<Rightarrow> bool" where
  "sorted_keys es \<equiv> sorted_wrt (<) (map fst es)"

fun ins_sorted :: "'k::linorder \<Rightarrow> 'v \<Rightarrow> ('k \<times> 'v) list \<Rightarrow> ('k \<times> 'v) list" where
  "ins_sorted k v [] = [(k, v)]"
| "ins_sorted k v ((a, b) # es) =
     (if k < a then (k, v) # (a, b) # es
      else if k = a then (k, v) # es
      else (a, b) # ins_sorted k v es)"

lemma map_of_ins_sorted [sorted_alist_simps, simp]:
  "map_of (ins_sorted k v es) = (map_of es)(k \<mapsto> v)"
  by (induction k v es rule: ins_sorted.induct) (auto simp: fun_eq_iff)

lemma keys_ins_sorted [simp]: "fst ` set (ins_sorted k v es) = insert k (fst ` set es)"
  by (induction k v es rule: ins_sorted.induct) auto

lemma sorted_ins_sorted [simp, intro]: "sorted_keys es \<Longrightarrow> sorted_keys (ins_sorted k v es)"
proof (induction k v es rule: ins_sorted.induct)
  case (2 k v a b es)
  have "\<forall>x \<in> set (map fst (ins_sorted k v es)). x = k \<or> x \<in> fst ` set es"
    using keys_ins_sorted [of k v es] by auto
  with 2 show ?case by auto
qed simp

lemma ins_sorted_append:
  assumes "\<forall>x \<in> fst ` set ps. x < k"
  shows "ins_sorted k v (ps @ qs) = ps @ ins_sorted k v qs"
  using assms by (induction ps) auto

lemma ins_sorted_front:
  assumes "\<forall>x \<in> fst ` set qs. k < x"
  shows "ins_sorted k v qs = (k, v) # qs"
  using assms by (cases qs) auto

lemma map_of_sorted_mid:
  assumes "sorted_keys (ps @ (k, v) # qs)"
  shows "map_of (ps @ (k, v) # qs) k = Some v"
proof -
  have "k \<notin> fst ` set ps" using assms by (force simp: sorted_wrt_append)
  then have "map_of ps k = None" by (simp add: map_of_eq_None_iff)
  then show ?thesis by (simp add: map_add_def)
qed

lemma map_of_None_bounds:
  fixes k :: "'k::linorder"
  assumes "\<forall>x \<in> fst ` set ps. x < k" and "\<forall>x \<in> fst ` set qs. k < x"
  shows "map_of (ps @ qs) k = None"
proof -
  have "k \<notin> fst ` set ps" using assms(1) by (metis less_irrefl)
  moreover have "k \<notin> fst ` set qs" using assms(2) by (metis less_irrefl)
  ultimately show ?thesis by (simp add: map_of_eq_None_iff)
qed

lemma sorted_keys_distinct: "sorted_keys es \<Longrightarrow> distinct (map fst es)"
  by (simp add: strict_sorted_iff)

lemma sorted_keys_ext:
  assumes "sorted_keys xs" and "sorted_keys ys" and "map_of xs = map_of ys"
  shows "xs = ys"
proof -
  have "set xs = set ys"
    using assms map_of_inject_set [of xs ys] by (simp add: sorted_keys_distinct)
  then have "set (map fst xs) = set (map fst ys)" by simp
  then have keys: "map fst xs = map fst ys"
    using assms(1,2) by (intro sorted_distinct_set_unique) (auto simp: strict_sorted_iff)
  show ?thesis
  proof (rule nth_equalityI)
    show len: "length xs = length ys" using keys by (metis length_map)
    fix i assume i: "i < length xs"
    have f: "fst (xs ! i) = fst (ys ! i)"
      using keys i len by (metis nth_map)
    have "map_of xs (fst (xs ! i)) = Some (snd (xs ! i))"
      using i assms(1) by (simp add: sorted_keys_distinct)
    moreover have "map_of ys (fst (ys ! i)) = Some (snd (ys ! i))"
      using i len assms(2) by (simp add: sorted_keys_distinct)
    ultimately show "xs ! i = ys ! i"
      using f assms(3) by (simp add: prod_eq_iff)
  qed
qed

text \<open>Split a strictly sorted list at a key: strictly smaller, then not smaller.\<close>

lemma sorted_keys_takeWhile:
  "sorted_keys es \<Longrightarrow> \<forall>x \<in> set (dropWhile (\<lambda>e. fst e < k) es). k \<le> fst x"
  by (induction es) (auto simp: not_less)

section \<open>Decimal numbers\<close>

text \<open>\<open>fmt.Sprintf("%d", n)\<close> of a non-negative number, and its value.\<close>

function decimal :: "nat \<Rightarrow> bytes" where
  "decimal n = (if n < 10 then [word_of_nat (48 + n)] else decimal (n div 10) @ [word_of_nat (48 + n mod 10)])"
  by pat_completeness auto
termination
  by (relation "measure id") auto

declare decimal.simps [simp del]

definition dec_value :: "bytes \<Rightarrow> nat" where
  "dec_value ds = foldl (\<lambda>a d. a * 10 + (unat d - 48)) 0 ds"

lemma digit_value: "r < 10 \<Longrightarrow> unat (word_of_nat (48 + r) :: byte) - 48 = r"
  unfolding unat_of_nat by simp

lemma dec_value_decimal: "dec_value (decimal n) = n"
proof (induction n rule: decimal.induct)
  case (1 n)
  show ?case
  proof (cases "n < 10")
    case True
    then show ?thesis using digit_value [of n] by (subst decimal.simps) (simp add: dec_value_def)
  next
    case False
    then have "dec_value (decimal (n div 10)) = n div 10" using 1 by simp
    then show ?thesis
      using False digit_value [of "n mod 10"] by (subst decimal.simps) (simp add: dec_value_def)
  qed
qed

end
