(* ===== verification/Bloom.thy ===== *)
theory Bloom
  imports Prelude Complex_Main
begin

unbundle bit_operations_syntax

text \<open>
  \<open>storage/zstorage/bloom.go\<close> and \<open>partitioned_bloom.go\<close>. The bit array is a list of 64-bit words and
  all hash arithmetic is on \<open>64 word\<close>, so \<open>h1 + i*h2\<close> and the FNV products wrap as in the code. An
  index out of range of the bit array (a panic) is the value \<open>None\<close>. The two floating point
  expressions of \<open>NewBloomFilter\<close> are a parameter \<open>FloatMath\<close>; the clamping around them is modelled.

  Shown here: a well-formed filter never panics and never forgets a key (no false negatives), also
  through the namespace partitions; both binary encodings are read back to the same filter; the
  size check of \<open>DecodeBloomFilter\<close> wraps and lets a 16-byte blob through.
\<close>

section \<open>One filter\<close>

record BloomFilter =
  bits :: "64 word list"
  bf_m :: "64 word"
  bf_k :: "64 word"

definition fnvOffset64 :: "64 word" where "fnvOffset64 = 14695981039346656037"
definition fnvPrime64 :: "64 word" where "fnvPrime64 = 1099511628211"
definition bloomSeed2 :: "64 word" where "bloomSeed2 = 0x9e3779b97f4a7c15"
definition bloomMinBits :: "64 word" where "bloomMinBits = 64"

text \<open>
  \<open>ceil_bits n p\<close> is \<open>uint64(math.Ceil(-float64(n) * math.Log(p) / (ln2 * ln2)))\<close>, \<open>round_hashes m n\<close> is
  \<open>uint64(math.Round(float64(m) / float64(n) * ln2))\<close>.
\<close>

record FloatMath =
  ceil_bits :: "int \<Rightarrow> real \<Rightarrow> 64 word"
  round_hashes :: "64 word \<Rightarrow> int \<Rightarrow> 64 word"

definition NewBloomFilter :: "FloatMath \<Rightarrow> int \<Rightarrow> real \<Rightarrow> BloomFilter" where
  "NewBloomFilter fm n0 p0 =
     (let n = (if n0 \<le> 0 then 1 else n0);
          p = (if p0 \<le> 0 \<or> p0 \<ge> 1 then 0.01 else p0);
          m0 = ceil_bits fm n p;
          m = (if m0 < bloomMinBits then bloomMinBits else m0);
          k0 = round_hashes fm m n;
          k = (if k0 < 1 then 1 else k0)
      in \<lparr>bits = replicate (unat ((m + 63) div 64)) 0, bf_m = m, bf_k = k\<rparr>)"

definition fnv1a :: "bytes \<Rightarrow> 64 word \<Rightarrow> 64 word" where
  "fnv1a data seed = fold (\<lambda>c h. (h XOR ucast c) * fnvPrime64) data (fnvOffset64 XOR seed)"

definition hashPair :: "bytes \<Rightarrow> 64 word \<times> 64 word" where
  "hashPair key = (fnv1a key 0, fnv1a key bloomSeed2)"

text \<open>\<open>pos := (h1 + i*h2) % b.m\<close>; the word and the bit it names.\<close>

definition bloom_pos :: "BloomFilter \<Rightarrow> 64 word \<times> 64 word \<Rightarrow> nat \<Rightarrow> 64 word" where
  "bloom_pos b h i = (fst h + word_of_nat i * snd h) mod bf_m b"

definition word_ix :: "64 word \<Rightarrow> nat" where
  "word_ix pos = unat (pos div 64)"

definition bit_ix :: "64 word \<Rightarrow> nat" where
  "bit_ix pos = unat (pos mod 64)"

text \<open>The loop bodies; \<open>None\<close> is the panic on a zero modulus or an index out of range.\<close>

fun add_loop :: "64 word \<times> 64 word \<Rightarrow> nat list \<Rightarrow> BloomFilter \<Rightarrow> BloomFilter option" where
  "add_loop h [] b = Some b"
| "add_loop h (i # is) b =
     (let pos = bloom_pos b h i; j = word_ix pos
      in if bf_m b = 0 \<or> length (bits b) \<le> j then None
         else add_loop h is (b\<lparr>bits := (bits b)[j := (bits b ! j) OR push_bit (bit_ix pos) 1]\<rparr>))"

definition bloom_Add :: "BloomFilter \<Rightarrow> bytes \<Rightarrow> BloomFilter option" where
  "bloom_Add b key = add_loop (hashPair key) [0..<unat (bf_k b)] b"

fun test_loop :: "64 word \<times> 64 word \<Rightarrow> nat list \<Rightarrow> BloomFilter \<Rightarrow> bool option" where
  "test_loop h [] b = Some True"
| "test_loop h (i # is) b =
     (let pos = bloom_pos b h i; j = word_ix pos
      in if bf_m b = 0 \<or> length (bits b) \<le> j then None
         else if (bits b ! j) AND push_bit (bit_ix pos) 1 = 0 then Some False
         else test_loop h is b)"

definition bloom_MayContain :: "BloomFilter \<Rightarrow> bytes \<Rightarrow> bool option" where
  "bloom_MayContain b key = test_loop (hashPair key) [0..<unat (bf_k b)] b"

definition bloom_Encode :: "BloomFilter \<Rightarrow> bytes" where
  "bloom_Encode b =
     put_be 8 (unat (bf_m b)) @ put_be 8 (unat (bf_k b)) @ concat (map (\<lambda>w. put_be 8 (unat w)) (bits b))"

datatype bloom_error = BloomTooShort | BloomCorrupt

definition DecodeBloomFilter :: "bytes \<Rightarrow> bloom_error + BloomFilter" where
  "DecodeBloomFilter data =
     (if length data < 16 then Inl BloomTooShort
      else
        (let m = word_of_nat (get_be (take 8 data)) :: 64 word;
             k = word_of_nat (get_be (take 8 (drop 8 data))) :: 64 word;
             words = (m + 63) div 64
         in if k = 0 \<or> m = 0 \<or> word_of_nat (length data - 16) \<noteq> words * 8 then Inl BloomCorrupt
            else Inr \<lparr>bits = map (\<lambda>i. word_of_nat (get_be (take 8 (drop (16 + i * 8) data)))) [0..<unat words],
                      bf_m = m, bf_k = k\<rparr>))"

subsection \<open>Well-formed filters do not panic and do not forget\<close>

definition bf_wf :: "BloomFilter \<Rightarrow> bool" where
  "bf_wf b \<longleftrightarrow> bf_m b \<noteq> 0 \<and> bf_k b \<noteq> 0 \<and> length (bits b) = unat ((bf_m b + 63) div 64) \<and>
     unat (bf_m b) \<le> 64 * length (bits b)"

definition bit_at :: "BloomFilter \<Rightarrow> 64 word \<Rightarrow> bool" where
  "bit_at b pos \<longleftrightarrow> bit (bits b ! word_ix pos) (bit_ix pos)"

text \<open>\<open>b'\<close> has the geometry of \<open>b\<close> and at least its bits.\<close>

definition grows :: "BloomFilter \<Rightarrow> BloomFilter \<Rightarrow> bool" where
  "grows b b' \<longleftrightarrow> bf_m b' = bf_m b \<and> bf_k b' = bf_k b \<and> length (bits b') = length (bits b) \<and>
     (\<forall>j < length (bits b). \<forall>n. bit (bits b ! j) n \<longrightarrow> bit (bits b' ! j) n)"

lemma grows_refl [simp]: "grows b b"
  by (simp add: grows_def)

lemma grows_trans: "grows a b \<Longrightarrow> grows b c \<Longrightarrow> grows a c"
  by (auto simp: grows_def)

lemma grows_wf: "grows b b' \<Longrightarrow> bf_wf b \<Longrightarrow> bf_wf b'"
  by (simp add: grows_def bf_wf_def)

lemma bit_ix_less [simp]: "bit_ix pos < 64"
proof -
  have "unat (pos mod 64) = unat pos mod 64" by (simp add: unat_mod_distrib)
  then show ?thesis by (simp add: bit_ix_def)
qed

lemma pos_in_range:
  assumes "bf_wf b"
  shows "word_ix (bloom_pos b h i) < length (bits b)"
proof -
  let ?p = "bloom_pos b h i"
  have "unat ?p = unat (fst h + word_of_nat i * snd h) mod unat (bf_m b)"
    by (simp add: bloom_pos_def unat_mod_distrib)
  moreover have "0 < unat (bf_m b)" using assms by (simp add: bf_wf_def unat_gt_0)
  ultimately have "unat ?p < unat (bf_m b)" by simp
  moreover have "word_ix ?p = unat ?p div 64" by (simp add: word_ix_def unat_div_distrib)
  ultimately show ?thesis using assms by (auto simp: bf_wf_def less_mult_imp_div_less)
qed

lemma mask_zero_iff: "(w :: 64 word) AND 2 ^ n = 0 \<longleftrightarrow> \<not> bit w n"
  using bit_iff_and_push_bit_not_eq_0 [of w n] by simp

lemma add_loop_correct:
  assumes "bf_wf b"
  shows "\<exists>b'. add_loop h ids b = Some b' \<and> grows b b' \<and> (\<forall>i \<in> set ids. bit_at b' (bloom_pos b h i))"
  using assms
proof (induction ids arbitrary: b)
  case Nil
  then show ?case by simp
next
  case (Cons i ids)
  let ?pos = "bloom_pos b h i"
  let ?j = "word_ix ?pos"
  let ?b = "b\<lparr>bits := (bits b)[?j := (bits b ! ?j) OR push_bit (bit_ix ?pos) 1]\<rparr>"
  have j: "?j < length (bits b)" by (rule pos_in_range [OF Cons.prems])
  have g: "grows b ?b" using j by (auto simp: grows_def nth_list_update bit_or_iff)
  have wf: "bf_wf ?b" by (rule grows_wf [OF g Cons.prems])
  obtain b' where b': "add_loop h ids ?b = Some b'" "grows ?b b'"
      "\<forall>i \<in> set ids. bit_at b' (bloom_pos ?b h i)"
    using Cons.IH [OF wf] by blast
  have m: "bf_m b \<noteq> 0" using Cons.prems by (simp add: bf_wf_def)
  have "bit_at ?b ?pos"
    using j by (simp add: bit_at_def bit_or_iff bit_exp_iff)
  then have "bit_at b' ?pos" using b'(2) j by (simp add: grows_def bit_at_def)
  moreover have "bloom_pos ?b h = bloom_pos b h" by (simp add: bloom_pos_def fun_eq_iff)
  ultimately show ?case
    using b' j m grows_trans [OF g b'(2)] by (auto simp: Let_def)
qed

lemma test_loop_correct:
  assumes "bf_wf b"
  shows "test_loop h ids b = Some (\<forall>i \<in> set ids. bit_at b (bloom_pos b h i))"
proof (induction ids)
  case Nil
  then show ?case by simp
next
  case (Cons i ids)
  have "word_ix (bloom_pos b h i) < length (bits b)" "bf_m b \<noteq> 0"
    using assms pos_in_range by (auto simp: bf_wf_def)
  with Cons show ?case
    by (simp add: Let_def mask_zero_iff bit_at_def)
qed

lemma bloom_Add_wf: "bf_wf b \<Longrightarrow> \<exists>b'. bloom_Add b key = Some b' \<and> grows b b'"
  unfolding bloom_Add_def using add_loop_correct by blast

lemma bloom_Add_grows: "bf_wf b \<Longrightarrow> bloom_Add b key = Some b' \<Longrightarrow> grows b b'"
  using bloom_Add_wf [of b key] by auto

lemma bloom_MayContain_total: "bf_wf b \<Longrightarrow> \<exists>r. bloom_MayContain b key = Some r"
  by (simp add: bloom_MayContain_def test_loop_correct)

lemma bloom_MayContain_Add:
  assumes "bf_wf b" and "bloom_Add b key = Some b'"
  shows "bloom_MayContain b' key = Some True"
proof -
  obtain c where c: "add_loop (hashPair key) [0..<unat (bf_k b)] b = Some c" "grows b c"
      "\<forall>i \<in> set [0..<unat (bf_k b)]. bit_at c (bloom_pos b (hashPair key) i)"
    using add_loop_correct [OF assms(1)] by blast
  then have "c = b'" using assms(2) by (simp add: bloom_Add_def)
  moreover have "bloom_pos c = bloom_pos b" using c(2) by (simp add: bloom_pos_def grows_def fun_eq_iff)
  ultimately show ?thesis
    using c(2,3) test_loop_correct [OF grows_wf [OF c(2) assms(1)]]
    by (simp add: bloom_MayContain_def grows_def)
qed

lemma bloom_MayContain_grows:
  assumes "bf_wf b" and "grows b b'" and "bloom_MayContain b key = Some True"
  shows "bloom_MayContain b' key = Some True"
proof -
  have pos: "bloom_pos b' = bloom_pos b" using assms(2) by (simp add: bloom_pos_def grows_def fun_eq_iff)
  have "\<forall>i \<in> set [0..<unat (bf_k b)]. bit_at b (bloom_pos b (hashPair key) i)"
    using assms(3) test_loop_correct [OF assms(1)] by (simp add: bloom_MayContain_def)
  moreover have "bit_at b (bloom_pos b (hashPair key) i) \<Longrightarrow> bit_at b' (bloom_pos b (hashPair key) i)" for i
    using assms(2) pos_in_range [OF assms(1)] by (simp add: grows_def bit_at_def)
  ultimately show ?thesis
    using assms(2) pos test_loop_correct [OF grows_wf [OF assms(2,1)]]
    by (simp add: bloom_MayContain_def grows_def)
qed

lemma NewBloomFilter_wf:
  assumes "\<forall>n p. unat (ceil_bits fm n p) \<le> 2 ^ 64 - 64"
  shows "bf_wf (NewBloomFilter fm n p)"
proof -
  define n' where "n' = (if n \<le> 0 then 1 else n)"
  define p' where "p' = (if p \<le> 0 \<or> p \<ge> 1 then 0.01 else p)"
  define m where "m = (if ceil_bits fm n' p' < bloomMinBits then bloomMinBits else ceil_bits fm n' p')"
  define k where "k = (if round_hashes fm m n' < 1 then 1 else round_hashes fm m n')"
  have b: "NewBloomFilter fm n p = \<lparr>bits = replicate (unat ((m + 63) div 64)) 0, bf_m = m, bf_k = k\<rparr>"
    by (simp add: NewBloomFilter_def Let_def n'_def p'_def m_def k_def)
  have "unat m \<le> 2 ^ 64 - 64" using assms by (simp add: m_def bloomMinBits_def)
  then have um: "unat (m + 63) = unat m + 63" by (simp add: unat_word_ariths)
  have "\<not> m < 64" by (auto simp: m_def bloomMinBits_def)
  then have "m \<noteq> 0" by auto
  moreover have "k \<noteq> 0" by (auto simp: k_def)
  moreover have "unat m \<le> 64 * unat ((m + 63) div 64)"
    using um by (simp add: unat_div_distrib)
  ultimately show ?thesis by (simp add: b bf_wf_def)
qed

subsection \<open>The filter codec\<close>

lemma length_concat_put_be: "length (concat (map (\<lambda>w. put_be 8 (f w)) ws)) = 8 * length ws"
  by (induction ws) auto

lemma length_bloom_Encode [codec_simps]: "length (bloom_Encode b) = 16 + 8 * length (bits b)"
  by (simp add: bloom_Encode_def length_concat_put_be)

lemma word64_put_get [simp]: "word_of_nat (get_be (put_be 8 (unat (w :: 64 word)))) = w"
proof -
  have "unat w < 256 ^ 8" using unsigned_less [of w] by simp
  then show ?thesis by (simp add: get_put_be)
qed

lemma drop_concat_put_be:
  "i < length ws \<Longrightarrow> take 8 (drop (i * 8) (concat (map (\<lambda>w. put_be 8 (f w)) ws))) = put_be 8 (f (ws ! i))"
proof (induction ws arbitrary: i)
  case Nil
  then show ?case by simp
next
  case (Cons w ws)
  then show ?case by (cases i) auto
qed

lemma bloom_decode_encode:
  assumes "bf_wf b" and "length (bits b) < 2 ^ 58"
  shows "DecodeBloomFilter (bloom_Encode b) = Inr b"
proof -
  let ?d = "bloom_Encode b"
  have m: "word_of_nat (get_be (take 8 ?d)) = bf_m b"
    and k: "word_of_nat (get_be (take 8 (drop 8 ?d))) = bf_k b"
    by (simp_all add: bloom_Encode_def)
  have w: "drop (16 + i * 8) ?d = drop (i * 8) (concat (map (\<lambda>w. put_be 8 (unat w)) (bits b)))" for i
    by (simp add: bloom_Encode_def)
  have len: "unat ((bf_m b + 63) div 64) = length (bits b)" using assms(1) by (simp add: bf_wf_def)
  have "word_of_nat (length ?d - 16) = (bf_m b + 63) div 64 * (8 :: 64 word)"
  proof -
    have "word_of_nat (length ?d - 16) = (word_of_nat (8 * length (bits b)) :: 64 word)"
      by (simp add: length_bloom_Encode)
    also have "\<dots> = 8 * word_of_nat (length (bits b))" by simp
    also have "word_of_nat (length (bits b)) = (bf_m b + 63) div 64"
      by (simp flip: len)
    finally show ?thesis by (simp add: mult.commute)
  qed
  moreover have "map (\<lambda>i. word_of_nat (get_be (take 8 (drop (16 + i * 8) ?d)))) [0..<length (bits b)] = bits b"
    by (rule nth_equalityI) (simp_all add: w drop_concat_put_be)
  ultimately show ?thesis
    using assms(1) m k len by (simp add: DecodeBloomFilter_def Let_def length_bloom_Encode bf_wf_def)
qed

section \<open>Namespace partitions\<close>

record PartitionedBloom =
  pb_sep :: byte
  pb_n :: int
  pb_p :: real
  partitions :: "bytes \<rightharpoonup> BloomFilter"

definition DefaultNamespaceSep :: byte where
  "DefaultNamespaceSep = 58" \<comment> \<open>the character \<open>:\<close>\<close>

definition NewPartitionedBloom :: "byte \<Rightarrow> int \<Rightarrow> real \<Rightarrow> PartitionedBloom" where
  "NewPartitionedBloom sep nPerPartition p =
     \<lparr>pb_sep = sep, pb_n = nPerPartition, pb_p = p, partitions = Map.empty\<rparr>"

text \<open>\<open>bytes.IndexByte\<close>: the first position of a byte, \<open>None\<close> for \<open>-1\<close>.\<close>

fun IndexByte :: "bytes \<Rightarrow> byte \<Rightarrow> nat option" where
  "IndexByte [] c = None"
| "IndexByte (x # xs) c = (if x = c then Some 0 else map_option Suc (IndexByte xs c))"

definition splitNamespace :: "bytes \<Rightarrow> byte \<Rightarrow> bytes \<times> bytes" where
  "splitNamespace key sep =
     (case IndexByte key sep of Some i \<Rightarrow> (take i key, drop (i + 1) key) | None \<Rightarrow> ([], key))"

text \<open>\<open>counts[ns]++\<close> over all keys.\<close>

fun count_namespaces :: "byte \<Rightarrow> bytes list \<Rightarrow> (bytes \<rightharpoonup> int) \<Rightarrow> (bytes \<rightharpoonup> int)" where
  "count_namespaces sep [] counts = counts"
| "count_namespaces sep (k # ks) counts =
     (let ns = fst (splitNamespace k sep)
      in count_namespaces sep ks (counts(ns \<mapsto> (case counts ns of None \<Rightarrow> 0 | Some c \<Rightarrow> c) + 1)))"

text \<open>\<open>pb.partitions[ns].Add(suf)\<close> over all keys; a missing partition would be a nil dereference.\<close>

fun add_all :: "bytes list \<Rightarrow> PartitionedBloom \<Rightarrow> PartitionedBloom option" where
  "add_all [] pb = Some pb"
| "add_all (k # ks) pb =
     (let (ns, suf) = splitNamespace k (pb_sep pb)
      in case partitions pb ns of
           None \<Rightarrow> None
         | Some bf \<Rightarrow>
            (case bloom_Add bf suf of
               None \<Rightarrow> None
             | Some bf' \<Rightarrow> add_all ks (pb\<lparr>partitions := (partitions pb)(ns \<mapsto> bf')\<rparr>)))"

definition BuildPartitionedBloom ::
    "FloatMath \<Rightarrow> bytes list \<Rightarrow> byte \<Rightarrow> real \<Rightarrow> PartitionedBloom option" where
  "BuildPartitionedBloom fm keys sep p =
     (let counts = count_namespaces sep keys Map.empty
      in add_all keys
           \<lparr>pb_sep = sep, pb_n = int (length keys), pb_p = p,
            partitions = (\<lambda>ns. map_option (\<lambda>c. NewBloomFilter fm c p) (counts ns))\<rparr>)"

definition pb_Add :: "FloatMath \<Rightarrow> PartitionedBloom \<Rightarrow> bytes \<Rightarrow> PartitionedBloom option" where
  "pb_Add fm pb key =
     (let (ns, suffix) = splitNamespace key (pb_sep pb);
          bf = (case partitions pb ns of None \<Rightarrow> NewBloomFilter fm (pb_n pb) (pb_p pb) | Some bf \<Rightarrow> bf)
      in case bloom_Add bf suffix of
           None \<Rightarrow> None
         | Some bf' \<Rightarrow> Some (pb\<lparr>partitions := (partitions pb)(ns \<mapsto> bf')\<rparr>))"

definition pb_MayContain :: "PartitionedBloom \<Rightarrow> bytes \<Rightarrow> bool option" where
  "pb_MayContain pb key =
     (let (ns, suffix) = splitNamespace key (pb_sep pb)
      in case partitions pb ns of None \<Rightarrow> Some False | Some bf \<Rightarrow> bloom_MayContain bf suffix)"

text \<open>
  \<open>Encode\<close> ranges over the map: \<open>order\<close> is the iteration order the runtime picked, an enumeration
  of the namespaces.
\<close>

definition enc_partition :: "(bytes \<rightharpoonup> BloomFilter) \<Rightarrow> bytes \<Rightarrow> bytes" where
  "enc_partition ps ns =
     (case ps ns of
        None \<Rightarrow> []
      | Some bf \<Rightarrow> put_be 4 (length ns) @ ns @ put_be 4 (length (bloom_Encode bf)) @ bloom_Encode bf)"

definition pb_Encode :: "bytes list \<Rightarrow> PartitionedBloom \<Rightarrow> bytes" where
  "pb_Encode order pb =
     [pb_sep pb] @ put_be 4 (length order) @ concat (map (enc_partition (partitions pb)) order)"

definition map_order :: "('k \<rightharpoonup> 'v) \<Rightarrow> 'k list \<Rightarrow> bool" where
  "map_order m order \<longleftrightarrow> distinct order \<and> set order = dom m"

datatype pbloom_error = PBloomTooShort | PBloomIO io_error | PBloomPart bloom_error

fun dec_partitions ::
    "bytes \<Rightarrow> nat \<Rightarrow> nat \<Rightarrow> (bytes \<rightharpoonup> BloomFilter) \<Rightarrow> pbloom_error + (bytes \<rightharpoonup> BloomFilter)" where
  "dec_partitions r pos 0 ps = Inr ps"
| "dec_partitions r pos (Suc n) ps =
     (case ReadBE 4 r pos of
        Inl e \<Rightarrow> Inl (PBloomIO e)
      | Inr (nsLen, p1) \<Rightarrow>
         (case ReadFull r p1 nsLen of
            Inl e \<Rightarrow> Inl (PBloomIO e)
          | Inr (nsBytes, p2) \<Rightarrow>
             (case ReadBE 4 r p2 of
                Inl e \<Rightarrow> Inl (PBloomIO e)
              | Inr (bloomLen, p3) \<Rightarrow>
                 (case ReadFull r p3 bloomLen of
                    Inl e \<Rightarrow> Inl (PBloomIO e)
                  | Inr (bloomBytes, p4) \<Rightarrow>
                     (case DecodeBloomFilter bloomBytes of
                        Inl e \<Rightarrow> Inl (PBloomPart e)
                      | Inr bf \<Rightarrow> dec_partitions r p4 n (ps(nsBytes \<mapsto> bf)))))))"

definition DecodePartitionedBloom ::
    "bytes \<Rightarrow> int \<Rightarrow> real \<Rightarrow> pbloom_error + PartitionedBloom" where
  "DecodePartitionedBloom data nPerPartition p =
     (if length data < 5 then Inl PBloomTooShort
      else case ReadBE 4 (tl data) 0 of
        Inl e \<Rightarrow> Inl (PBloomIO e)
      | Inr (partCount, pos) \<Rightarrow>
         (case dec_partitions (tl data) pos partCount Map.empty of
            Inl e \<Rightarrow> Inl e
          | Inr ps \<Rightarrow> Inr ((NewPartitionedBloom (hd data) nPerPartition p)\<lparr>partitions := ps\<rparr>)))"

subsection \<open>No false negatives through the partitions\<close>

definition pb_wf :: "PartitionedBloom \<Rightarrow> bool" where
  "pb_wf pb \<longleftrightarrow> (\<forall>ns bf. partitions pb ns = Some bf \<longrightarrow> bf_wf bf)"

definition float_ok :: "FloatMath \<Rightarrow> bool" where
  "float_ok fm \<longleftrightarrow> (\<forall>n p. unat (ceil_bits fm n p) \<le> 2 ^ 64 - 64)"

definition pb_grows :: "PartitionedBloom \<Rightarrow> PartitionedBloom \<Rightarrow> bool" where
  "pb_grows pb pb' \<longleftrightarrow> pb_sep pb' = pb_sep pb \<and>
     (\<forall>ns bf. partitions pb ns = Some bf \<longrightarrow> (\<exists>bf'. partitions pb' ns = Some bf' \<and> grows bf bf'))"

lemma pb_grows_refl [simp]: "pb_grows pb pb"
  by (auto simp: pb_grows_def)

lemma pb_grows_trans: "pb_grows a b \<Longrightarrow> pb_grows b c \<Longrightarrow> pb_grows a c"
  unfolding pb_grows_def using grows_trans by metis

lemma pb_MayContain_grows:
  assumes "pb_wf pb" and "pb_grows pb pb'" and "pb_MayContain pb key = Some True"
  shows "pb_MayContain pb' key = Some True"
proof -
  obtain ns suf where s: "splitNamespace key (pb_sep pb) = (ns, suf)" by fastforce
  with assms(3) obtain bf where bf: "partitions pb ns = Some bf" "bloom_MayContain bf suf = Some True"
    by (auto simp: pb_MayContain_def split: option.splits)
  with assms(2) obtain bf' where "partitions pb' ns = Some bf'" "grows bf bf'" "pb_sep pb' = pb_sep pb"
    unfolding pb_grows_def by blast
  then show ?thesis
    using bloom_MayContain_grows [of bf bf' suf] bf assms(1) s by (simp add: pb_MayContain_def pb_wf_def)
qed

lemma pb_MayContain_total: "pb_wf pb \<Longrightarrow> \<exists>r. pb_MayContain pb key = Some r"
  by (auto simp: pb_MayContain_def pb_wf_def bloom_MayContain_total split: prod.splits option.splits)

lemma pb_update_grows:
  assumes "pb_wf pb" and "partitions pb ns = Some bf \<or> partitions pb ns = None \<and> bf_wf bf"
    and "bloom_Add bf suf = Some bf'" and "splitNamespace key (pb_sep pb) = (ns, suf)"
  defines "pb' \<equiv> pb\<lparr>partitions := (partitions pb)(ns \<mapsto> bf')\<rparr>"
  shows "pb_wf pb'" and "pb_grows pb pb'" and "pb_MayContain pb' key = Some True"
proof -
  have wf: "bf_wf bf" using assms(1,2) by (auto simp: pb_wf_def)
  have g: "grows bf bf'" by (rule bloom_Add_grows [OF wf assms(3)])
  show "pb_wf pb'" using assms(1) grows_wf [OF g wf] by (simp add: pb'_def pb_wf_def)
  show "pb_grows pb pb'" using assms(2) g by (auto simp: pb'_def pb_grows_def)
  show "pb_MayContain pb' key = Some True"
    using bloom_MayContain_Add [OF wf assms(3)] assms(4) by (simp add: pb'_def pb_MayContain_def)
qed

lemma add_all_correct:
  assumes "pb_wf pb" and "\<forall>k \<in> set ks. fst (splitNamespace k (pb_sep pb)) \<in> dom (partitions pb)"
  shows "\<exists>pb'. add_all ks pb = Some pb' \<and> pb_wf pb' \<and> pb_grows pb pb' \<and>
           (\<forall>k \<in> set ks. pb_MayContain pb' k = Some True)"
  using assms
proof (induction ks arbitrary: pb)
  case Nil
  then show ?case by simp
next
  case (Cons k ks)
  obtain ns suf where s: "splitNamespace k (pb_sep pb) = (ns, suf)" by fastforce
  obtain bf where bf: "partitions pb ns = Some bf" using Cons.prems(2) s by auto
  obtain bf' where add: "bloom_Add bf suf = Some bf'"
    using bloom_Add_wf [of bf suf] Cons.prems(1) bf by (auto simp: pb_wf_def)
  let ?pb = "pb\<lparr>partitions := (partitions pb)(ns \<mapsto> bf')\<rparr>"
  note upd = pb_update_grows [OF Cons.prems(1) disjI1 [OF bf] add s]
  have "\<forall>k \<in> set ks. fst (splitNamespace k (pb_sep ?pb)) \<in> dom (partitions ?pb)"
    using Cons.prems(2) by auto
  then obtain pb' where pb': "add_all ks ?pb = Some pb'" "pb_wf pb'" "pb_grows ?pb pb'"
      "\<forall>k \<in> set ks. pb_MayContain pb' k = Some True"
    using Cons.IH [OF upd(1)] by blast
  moreover have "pb_MayContain pb' k = Some True"
    by (rule pb_MayContain_grows [OF upd(1) pb'(3) upd(3)])
  ultimately show ?case
    using s bf add pb_grows_trans [OF upd(2) pb'(3)] by auto
qed

lemma dom_count_namespaces:
  "dom (count_namespaces sep ks counts) = dom counts \<union> (\<lambda>k. fst (splitNamespace k sep)) ` set ks"
  by (induction ks arbitrary: counts) (auto simp: Let_def)

lemma BuildPartitionedBloom_correct:
  assumes "float_ok fm"
  shows "\<exists>pb. BuildPartitionedBloom fm keys sep p = Some pb \<and> pb_wf pb \<and> pb_sep pb = sep \<and>
           (\<forall>k \<in> set keys. pb_MayContain pb k = Some True)"
proof -
  let ?counts = "count_namespaces sep keys Map.empty"
  let ?pb = "\<lparr>pb_sep = sep, pb_n = int (length keys), pb_p = p,
            partitions = (\<lambda>ns. map_option (\<lambda>c. NewBloomFilter fm c p) (?counts ns))\<rparr>"
  have "pb_wf ?pb" using assms NewBloomFilter_wf by (auto simp: pb_wf_def float_ok_def)
  moreover have "\<forall>k \<in> set keys. fst (splitNamespace k (pb_sep ?pb)) \<in> dom (partitions ?pb)"
    using dom_count_namespaces [of sep keys Map.empty] by (auto simp: dom_def)
  ultimately show ?thesis
    using add_all_correct [of ?pb keys] by (auto simp: BuildPartitionedBloom_def Let_def pb_grows_def)
qed

subsection \<open>The partitioned codec\<close>

text \<open>Every length fits its 32-bit field.\<close>

definition pb_fits :: "PartitionedBloom \<Rightarrow> bool" where
  "pb_fits pb \<longleftrightarrow> (\<forall>ns bf. partitions pb ns = Some bf \<longrightarrow>
     length ns < 2 ^ 32 \<and> 16 + 8 * length (bits bf) < 2 ^ 32)"

lemma dec_partitions_correct:
  assumes "\<forall>ns \<in> set order. \<exists>bf. ps ns = Some bf \<and> bf_wf bf \<and> length ns < 2 ^ 32 \<and> 16 + 8 * length (bits bf) < 2 ^ 32"
    and "seg r pos (concat (map (enc_partition ps) order))"
  shows "dec_partitions r pos (length order) ps0 = Inr (\<lambda>ns. if ns \<in> set order then ps ns else ps0 ns)"
  using assms
proof (induction order arbitrary: pos ps0)
  case Nil
  then show ?case by simp
next
  case (Cons ns order)
  obtain bf where bf: "ps ns = Some bf" "bf_wf bf" "length ns < 2 ^ 32" "16 + 8 * length (bits bf) < 2 ^ 32"
    using Cons.prems(1) by auto
  let ?e = "bloom_Encode bf"
  have len: "length ?e < 256 ^ 4" and nlen: "length ns < 256 ^ 4"
    using bf by (simp_all add: length_bloom_Encode)
  have enc: "enc_partition ps ns = put_be 4 (length ns) @ ns @ put_be 4 (length ?e) @ ?e"
    using bf(1) by (simp add: enc_partition_def)
  have seg: "seg r pos (put_be 4 (length ns))" "seg r (pos + 4) ns"
      "seg r (pos + 4 + length ns) (put_be 4 (length ?e))" "seg r (pos + 4 + length ns + 4) ?e"
      "seg r (pos + 4 + length ns + 4 + length ?e) (concat (map (enc_partition ps) order))"
    using Cons.prems(2) by (simp_all add: enc seg_append add.assoc)
  have dec: "DecodeBloomFilter ?e = Inr bf"
    using bf by (intro bloom_decode_encode) auto
  have "dec_partitions r (pos + 4 + length ns + 4 + length ?e) (length order) (ps0(ns \<mapsto> bf)) =
      Inr (\<lambda>n. if n \<in> set order then ps n else (ps0(ns \<mapsto> bf)) n)"
    using Cons.prems(1) seg(5) by (intro Cons.IH) auto
  then show ?case
    using ReadBE_seg [OF seg(1) nlen] ReadFull_seg [OF seg(2) refl] ReadBE_seg [OF seg(3) len]
      ReadFull_seg [OF seg(4) refl] dec bf(1)
    by (simp add: fun_eq_iff)
qed

lemma pb_decode_encode:
  assumes "pb_wf pb" and "pb_fits pb" and "map_order (partitions pb) order" and "length order < 2 ^ 32"
  shows "DecodePartitionedBloom (pb_Encode order pb) n p = Inr (pb\<lparr>pb_n := n, pb_p := p\<rparr>)"
proof -
  let ?c = "concat (map (enc_partition (partitions pb)) order)"
  let ?r = "put_be 4 (length order) @ ?c"
  have seg: "seg ?r 0 (put_be 4 (length order))" "seg ?r 4 ?c"
    by (rule segI [of _ "[]"], simp_all) (rule segI [of _ "put_be 4 (length order)" _ "[]"], simp_all)
  have "\<forall>ns \<in> set order. \<exists>bf. partitions pb ns = Some bf \<and> bf_wf bf \<and> length ns < 2 ^ 32 \<and> 16 + 8 * length (bits bf) < 2 ^ 32"
    using assms by (force simp: pb_wf_def pb_fits_def map_order_def)
  then have "dec_partitions ?r 4 (length order) Map.empty =
      Inr (\<lambda>ns. if ns \<in> set order then partitions pb ns else None)"
    using seg(2) by (rule dec_partitions_correct)
  also have "(\<lambda>ns. if ns \<in> set order then partitions pb ns else None) = partitions pb"
    using assms(3) by (auto simp: map_order_def fun_eq_iff dom_def)
  finally show ?thesis
    using ReadBE_seg [OF seg(1)] assms(4)
    by (simp add: pb_Encode_def DecodePartitionedBloom_def NewPartitionedBloom_def)
qed

end
