(* ===== verification/SSTable.thy ===== *)
theory SSTable
  imports Bloom
begin

text \<open>
  \<open>storage/zstorage/SSTable.go\<close>, the entry reader of \<open>iterator.go\<close> and \<open>SSTableMata.EnsureMeta\<close> of
  \<open>storage/istorage/Entry.go\<close>, down to the bytes of the file:

  \<^verbatim>\<open>[entries][block index][bloom blob][bloomLen 8][bloomMagic 4][blockCount 4][indexOffset 8][magic 4]\<close>

  The files are a map from paths to contents (\<open>sst_fs\<close>); a \<open>*SSTableMata\<close> pointer is a record with
  an identity \<open>ptr\<close>. The outcome of each checked system call of a write is given by an \<open>IOEnv\<close>, so
  every early return of the code is a branch of the model; file contents left behind by a failed
  write are arbitrary. \<open>None\<close> as the value of a whole operation is a panic.
\<close>

type_synonym LogEntry = "bytes \<times> bytes option"
type_synonym path = bytes

definition SSTableBlockSize :: nat where "SSTableBlockSize = 64"
definition indexFooterMagic :: nat where "indexFooterMagic = 0x49445846"
definition indexFooterSize :: nat where "indexFooterSize = 16"
definition bloomTrailerMagic :: nat where "bloomTrailerMagic = 0x424c4d46"
definition bloomTrailerSize :: nat where "bloomTrailerSize = 12"
definition defaultBloomFPRate :: real where "defaultBloomFPRate = 0.01"
definition maxBloomSectionBytes :: nat where "maxBloomSectionBytes = 2 ^ 30"
definition tombstoneValLen :: nat where "tombstoneValLen = 0xFFFFFFFF"

lemmas sst_consts = SSTableBlockSize_def indexFooterMagic_def indexFooterSize_def
  bloomTrailerMagic_def bloomTrailerSize_def maxBloomSectionBytes_def tombstoneValLen_def

record BlockIndexEntry =
  LastKey :: bytes
  BlockOffset :: nat

record SSTableMata =
  Level :: nat
  Filepath :: path
  MinKey :: bytes
  MaxKey :: bytes
  Size :: nat
  MaxKeyLoaded :: bool
  metaOnce :: bool \<comment> \<open>the \<open>sync.Once\<close> has run\<close>
  ptr :: nat \<comment> \<open>pointer identity\<close>

record SSTable =
  mata :: "SSTableMata list"
  indexCache :: "path \<rightharpoonup> BlockIndexEntry list"
  bloomCache :: "path \<rightharpoonup> PartitionedBloom option"
  sst_fs :: "path \<rightharpoonup> bytes"
  next_ptr :: nat

definition NewSSTable :: "(path \<rightharpoonup> bytes) \<Rightarrow> SSTable" where
  "NewSSTable fs = \<lparr>mata = [], indexCache = Map.empty, bloomCache = Map.empty, sst_fs = fs, next_ptr = 0\<rparr>"

section \<open>Writing\<close>

text \<open>One entry: key length, key, value length, value; a tombstone has the sentinel length only.\<close>

definition enc_entry :: "LogEntry \<Rightarrow> bytes" where
  "enc_entry e =
     put_be 4 (length (fst e)) @ fst e @
     (case snd e of None \<Rightarrow> put_be 4 tombstoneValLen | Some v \<Rightarrow> put_be 4 (length v) @ v)"

definition enc_entries :: "LogEntry list \<Rightarrow> bytes" where
  "enc_entries es = concat (map enc_entry es)"

text \<open>The loop that fills the buffer and the block index of \<open>WriteToSSTable\<close>.\<close>

fun write_entries ::
    "nat \<Rightarrow> LogEntry list \<Rightarrow> bytes \<Rightarrow> BlockIndexEntry list \<Rightarrow> bytes \<times> BlockIndexEntry list" where
  "write_entries i [] buf blockIdx = (buf, blockIdx)"
| "write_entries i (e # es) buf blockIdx =
     (let bi = i div SSTableBlockSize;
          idx1 = (if i mod SSTableBlockSize = 0
                  then blockIdx @ [\<lparr>LastKey = [], BlockOffset = length buf\<rparr>] else blockIdx);
          idx2 = idx1[bi := (idx1 ! bi)\<lparr>LastKey := fst e\<rparr>]
      in write_entries (i + 1) es (buf @ enc_entry e) idx2)"

definition enc_index_entry :: "BlockIndexEntry \<Rightarrow> bytes" where
  "enc_index_entry b = put_be 4 (length (LastKey b)) @ LastKey b @ put_be 8 (BlockOffset b)"

definition enc_index :: "BlockIndexEntry list \<Rightarrow> bytes" where
  "enc_index idx = concat (map enc_index_entry idx)"

text \<open>\<open>writeBloomSection\<close>: the blob and its trailer; the footer that closes the file.\<close>

definition bloom_section :: "bytes \<Rightarrow> bytes" where
  "bloom_section blob = blob @ put_be 8 (length blob) @ put_be 4 bloomTrailerMagic"

definition index_footer :: "nat \<Rightarrow> nat \<Rightarrow> bytes" where
  "index_footer blockCount indexStart =
     put_be 4 blockCount @ put_be 8 indexStart @ put_be 4 indexFooterMagic"

definition sst_image :: "bytes \<Rightarrow> BlockIndexEntry list \<Rightarrow> bytes \<Rightarrow> bytes" where
  "sst_image data idx blob =
     data @ enc_index idx @ bloom_section blob @ index_footer (length idx) (length data)"

text \<open>The name of a table file.\<close>

definition sstable_path :: "path \<Rightarrow> nat \<Rightarrow> path" where
  "sstable_path dir now = dir @ ascii ''/sstable_'' @ decimal now @ ascii ''.sst''"

record IOEnv =
  mkdir_ok :: bool
  create_ok :: bool
  write_ok :: bool
  bloom_ok :: bool
  sync_ok :: bool
  stat_ok :: bool
  partial_write :: bytes

definition io_good :: IOEnv where
  "io_good = \<lparr>mkdir_ok = True, create_ok = True, write_ok = True, bloom_ok = True, sync_ok = True,
              stat_ok = True, partial_write = []\<rparr>"

datatype write_error = DontKeep | MkdirFailed | CreateFailed | WriteFailed | SyncFailed | StatFailed

definition AddMata :: "SSTableMata \<Rightarrow> SSTable \<Rightarrow> SSTable" where
  "AddMata meta ss = ss\<lparr>mata := mata ss @ [meta\<lparr>ptr := next_ptr ss\<rparr>], next_ptr := next_ptr ss + 1\<rparr>"

text \<open>
  \<open>WriteToSSTable\<close>. \<open>order\<close> is the iteration order of the partitions, \<open>now\<close> the clock. The index is
  cached before \<open>Sync\<close>, the bloom filter after it.
\<close>

definition WriteToSSTable ::
    "FloatMath \<Rightarrow> (PartitionedBloom \<Rightarrow> bytes list) \<Rightarrow> path \<Rightarrow> nat \<Rightarrow> IOEnv \<Rightarrow> LogEntry list \<Rightarrow> SSTable \<Rightarrow>
     ((write_error + unit) \<times> SSTable) option" where
  "WriteToSSTable fm order dir now io es ss =
     (if es = [] then Some (Inl DontKeep, ss)
      else if \<not> mkdir_ok io then Some (Inl MkdirFailed, ss)
      else if \<not> create_ok io then Some (Inl CreateFailed, ss)
      else
        (let fullPath = sstable_path dir now;
             (data, blockIdx) = write_entries 0 es [] []
         in if \<not> write_ok io
            then Some (Inl WriteFailed, ss\<lparr>sst_fs := (sst_fs ss)(fullPath \<mapsto> partial_write io)\<rparr>)
            else case BuildPartitionedBloom fm (map fst es) DefaultNamespaceSep defaultBloomFPRate of
              None \<Rightarrow> None
            | Some pb \<Rightarrow>
               (if \<not> bloom_ok io
                then Some (Inl WriteFailed,
                       ss\<lparr>sst_fs := (sst_fs ss)(fullPath \<mapsto> data @ enc_index blockIdx @ partial_write io)\<rparr>)
                else
                  (let image = sst_image data blockIdx (pb_Encode (order pb) pb);
                       ss1 = ss\<lparr>sst_fs := (sst_fs ss)(fullPath \<mapsto> image),
                                indexCache := (indexCache ss)(fullPath \<mapsto> blockIdx)\<rparr>
                   in if \<not> sync_ok io then Some (Inl SyncFailed, ss1)
                      else
                        (let ss2 = ss1\<lparr>bloomCache := (bloomCache ss1)(fullPath \<mapsto> Some pb)\<rparr>
                         in if \<not> stat_ok io then Some (Inl StatFailed, ss2)
                            else Some (Inr (),
                                   AddMata \<lparr>Level = 0, Filepath = fullPath, MinKey = fst (hd es),
                                            MaxKey = fst (last es), Size = length image,
                                            MaxKeyLoaded = True, metaOnce = False, ptr = 0\<rparr> ss2))))))"

section \<open>Reading\<close>

text \<open>One entry at a position; the error says which of the four reads failed.\<close>

datatype entry_error = KeyLenErr io_error | KeyErr io_error | ValLenErr io_error | ValErr io_error

definition read_entry :: "bytes \<Rightarrow> nat \<Rightarrow> entry_error + LogEntry \<times> nat" where
  "read_entry f pos =
     (case ReadBE 4 f pos of
        Inl e \<Rightarrow> Inl (KeyLenErr e)
      | Inr (keyLen, p1) \<Rightarrow>
         (case ReadFull f p1 keyLen of
            Inl e \<Rightarrow> Inl (KeyErr e)
          | Inr (key, p2) \<Rightarrow>
             (case ReadBE 4 f p2 of
                Inl e \<Rightarrow> Inl (ValLenErr e)
              | Inr (valLen, p3) \<Rightarrow>
                 (if valLen = tombstoneValLen then Inr ((key, None), p3)
                  else case ReadFull f p3 valLen of
                    Inl e \<Rightarrow> Inl (ValErr e)
                  | Inr (v, p4) \<Rightarrow> Inr ((key, Some v), p4)))))"

text \<open>\<open>sstableDataEnd\<close>: the index offset of a valid footer, \<open>None\<close> for \<open>-1\<close>.\<close>

definition footer_fields :: "bytes \<Rightarrow> nat \<times> int \<times> nat" where
  "footer_fields f =
     (let b = drop (length f - indexFooterSize) f
      in (get_be (take 4 b), int64_of (get_be (take 8 (drop 4 b))), get_be (take 4 (drop 12 b))))"

definition sstableDataEnd :: "bytes \<Rightarrow> nat option" where
  "sstableDataEnd f =
     (if length f < indexFooterSize then None
      else let (blockCount, indexOffset, magic) = footer_fields f
           in if magic = indexFooterMagic \<and> 0 < blockCount \<and> 0 < indexOffset
              then Some (nat indexOffset) else None)"

lemma read_entry_progress:
  "read_entry f pos = Inr (e, pos') \<Longrightarrow> pos < pos' \<and> pos < length f"
  by (auto simp: read_entry_def ReadBE_def ReadFull_def split: sum.splits if_splits prod.splits)

text \<open>
  \<open>ReadAllFromSSTable\<close>. The position is reset to the start only when a footer was found; otherwise the
  handle stays where \<open>sstableDataEnd\<close> left it.
\<close>

function read_all_loop ::
    "bytes \<Rightarrow> nat option \<Rightarrow> nat \<Rightarrow> LogEntry list \<Rightarrow> entry_error + LogEntry list" where
  "read_all_loop f dataEnd pos acc =
     (if (case dataEnd of None \<Rightarrow> False | Some d \<Rightarrow> d \<le> pos) then Inr acc
      else case read_entry f pos of
        Inl (KeyLenErr EOF) \<Rightarrow> Inr acc
      | Inl e \<Rightarrow> Inl e
      | Inr (e, pos') \<Rightarrow> read_all_loop f dataEnd pos' (acc @ [e]))"
  by pat_completeness auto
termination
  by (relation "measure (\<lambda>(f, dataEnd, pos, acc). length f - pos)")
    (auto dest!: sym [of "Inr _"] read_entry_progress)

declare read_all_loop.simps [simp del]

datatype read_error = NoFile | BadEntry entry_error

definition ReadAllFromSSTable :: "(path \<rightharpoonup> bytes) \<Rightarrow> path \<Rightarrow> read_error + LogEntry list" where
  "ReadAllFromSSTable fs p =
     (case fs p of
        None \<Rightarrow> Inl NoFile
      | Some f \<Rightarrow>
         (let dataEnd = sstableDataEnd f;
              start = (case dataEnd of
                         Some _ \<Rightarrow> 0
                       | None \<Rightarrow> if length f < indexFooterSize then 0 else length f)
          in case read_all_loop f dataEnd start [] of
               Inl e \<Rightarrow> Inl (BadEntry e)
             | Inr es \<Rightarrow> Inr es))"

text \<open>\<open>loadBloomFromFile\<close>\<close>

definition loadBloomFromFile :: "(path \<rightharpoonup> bytes) \<Rightarrow> path \<Rightarrow> PartitionedBloom option" where
  "loadBloomFromFile fs p =
     (case fs p of
        None \<Rightarrow> None
      | Some f \<Rightarrow>
         (if length f < indexFooterSize + bloomTrailerSize then None
          else
            (let b = drop (length f - (indexFooterSize + bloomTrailerSize)) f;
                 bloomLen = get_be (take 8 b);
                 magic = get_be (take 4 (drop 8 b))
             in if magic \<noteq> bloomTrailerMagic \<or> bloomLen = 0 \<or> bloomLen > maxBloomSectionBytes then None
                else if length f < indexFooterSize + bloomTrailerSize + bloomLen then None
                else
                  (case ReadFull f (length f - (indexFooterSize + bloomTrailerSize + bloomLen)) bloomLen of
                     Inl _ \<Rightarrow> None
                   | Inr (blob, _) \<Rightarrow>
                      (case DecodePartitionedBloom blob 0 defaultBloomFPRate of
                         Inl _ \<Rightarrow> None
                       | Inr pb \<Rightarrow> Some pb)))))"

definition getBloom :: "path \<Rightarrow> SSTable \<Rightarrow> PartitionedBloom option \<times> SSTable" where
  "getBloom p ss =
     (case bloomCache ss p of
        Some pb \<Rightarrow> (pb, ss)
      | None \<Rightarrow>
         (let pb = loadBloomFromFile (sst_fs ss) p
          in (pb, ss\<lparr>bloomCache := (bloomCache ss)(p \<mapsto> pb)\<rparr>)))"

text \<open>\<open>loadBlockIndexFromFile\<close>\<close>

fun read_index :: "bytes \<Rightarrow> nat \<Rightarrow> nat \<Rightarrow> BlockIndexEntry list option" where
  "read_index f pos 0 = Some []"
| "read_index f pos (Suc n) =
     (case ReadBE 4 f pos of
        Inl _ \<Rightarrow> None
      | Inr (keyLen, p1) \<Rightarrow>
         (case ReadFull f p1 keyLen of
            Inl _ \<Rightarrow> None
          | Inr (key, p2) \<Rightarrow>
             (case ReadBE 8 f p2 of
                Inl _ \<Rightarrow> None
              | Inr (offset, p3) \<Rightarrow>
                 (case read_index f p3 n of
                    None \<Rightarrow> None
                  | Some idx \<Rightarrow> Some (\<lparr>LastKey = key, BlockOffset = offset\<rparr> # idx)))))"

definition loadBlockIndexFromFile :: "(path \<rightharpoonup> bytes) \<Rightarrow> path \<Rightarrow> BlockIndexEntry list option" where
  "loadBlockIndexFromFile fs p =
     (case fs p of
        None \<Rightarrow> None
      | Some f \<Rightarrow>
         (if length f < indexFooterSize then None
          else let (blockCount, indexOffset, magic) = footer_fields f
               in if magic \<noteq> indexFooterMagic \<or> blockCount = 0 \<or> indexOffset \<le> 0 then None
                  else read_index f (nat indexOffset) blockCount))"

definition getBlockIndex :: "path \<Rightarrow> SSTable \<Rightarrow> BlockIndexEntry list option \<times> SSTable" where
  "getBlockIndex p ss =
     (case indexCache ss p of
        Some idx \<Rightarrow> (Some idx, ss)
      | None \<Rightarrow>
         (case loadBlockIndexFromFile (sst_fs ss) p of
            None \<Rightarrow> (None, ss)
          | Some idx \<Rightarrow> (Some idx, ss\<lparr>indexCache := (indexCache ss)(p \<mapsto> idx)\<rparr>)))"

text \<open>\<open>searchBlock\<close>: binary search over the last keys, then a scan of at most one block.\<close>

function bin_search :: "bytes \<Rightarrow> BlockIndexEntry list \<Rightarrow> nat \<Rightarrow> nat \<Rightarrow> nat" where
  "bin_search key idx lo hi =
     (if lo < hi then
        (let mid = (lo + hi) div 2
         in if bytes_Compare key (LastKey (idx ! mid)) \<le> 0 then bin_search key idx lo mid
            else bin_search key idx (mid + 1) hi)
      else lo)"
  by pat_completeness auto
termination
  by (relation "measure (\<lambda>(key, idx, lo, hi). hi - lo)") auto

declare bin_search.simps [simp del]

fun scan_block :: "bytes \<Rightarrow> bytes \<Rightarrow> nat \<Rightarrow> nat \<Rightarrow> bytes option \<times> bool" where
  "scan_block f key pos 0 = (None, False)"
| "scan_block f key pos (Suc j) =
     (case read_entry f pos of
        Inl _ \<Rightarrow> (None, False)
      | Inr ((k, v), pos') \<Rightarrow>
         (if bytes_Compare k key = 0 then (v, True)
          else if 0 < bytes_Compare k key then (None, False)
          else scan_block f key pos' j))"

definition searchBlock ::
    "(path \<rightharpoonup> bytes) \<Rightarrow> path \<Rightarrow> bytes \<Rightarrow> BlockIndexEntry list \<Rightarrow> bytes option \<times> bool" where
  "searchBlock fs p key idx =
     (let lo = bin_search key idx 0 (length idx - 1)
      in if length idx \<le> lo then (None, False)
         else case fs p of
           None \<Rightarrow> (None, False)
         | Some f \<Rightarrow> scan_block f key (BlockOffset (idx ! lo)) SSTableBlockSize)"

definition readFromSSTableFull :: "(path \<rightharpoonup> bytes) \<Rightarrow> path \<Rightarrow> bytes \<Rightarrow> bytes option \<times> bool" where
  "readFromSSTableFull fs p key =
     (case ReadAllFromSSTable fs p of
        Inl _ \<Rightarrow> (None, False)
      | Inr es \<Rightarrow>
         (case find (\<lambda>e. fst e = key) es of None \<Rightarrow> (None, False) | Some e \<Rightarrow> (snd e, True)))"

text \<open>\<open>ReadFromSSTable\<close>; the outer \<open>None\<close> is a panic of the bloom filter.\<close>

definition ReadFromSSTable :: "path \<Rightarrow> bytes \<Rightarrow> SSTable \<Rightarrow> ((bytes option \<times> bool) \<times> SSTable) option" where
  "ReadFromSSTable p key ss =
     (let (bloom, ss1) = getBloom p ss
      in case (case bloom of None \<Rightarrow> Some True | Some pb \<Rightarrow> pb_MayContain pb key) of
           None \<Rightarrow> None
         | Some False \<Rightarrow> Some ((None, False), ss1)
         | Some True \<Rightarrow>
            (let (idx, ss2) = getBlockIndex p ss1
             in case idx of
                  Some idx \<Rightarrow> Some (searchBlock (sst_fs ss2) p key idx, ss2)
                | None \<Rightarrow> Some (readFromSSTableFull (sst_fs ss2) p key, ss2)))"

section \<open>Table bookkeeping\<close>

definition RemoveMata :: "SSTableMata \<Rightarrow> SSTable \<Rightarrow> SSTable" where
  "RemoveMata target ss =
     ss\<lparr>mata := (let i = length (takeWhile (\<lambda>m. ptr m \<noteq> ptr target) (mata ss))
                in take i (mata ss) @ drop (i + 1) (mata ss))\<rparr>"

definition GetLevelFiles :: "nat \<Rightarrow> SSTable \<Rightarrow> SSTableMata list" where
  "GetLevelFiles lvl ss = filter (\<lambda>m. Level m = lvl) (mata ss)"

definition GetAllMata :: "SSTable \<Rightarrow> SSTableMata list" where
  "GetAllMata ss = mata ss"

text \<open>\<open>DeleteSSTable\<close>; \<open>rm_ok\<close> is the outcome of \<open>os.Remove\<close>, a failure is only logged.\<close>

definition DeleteSSTable :: "bool \<Rightarrow> SSTableMata \<Rightarrow> SSTable \<Rightarrow> SSTable" where
  "DeleteSSTable rm_ok meta ss =
     ss\<lparr>sst_fs := (if rm_ok then (sst_fs ss)(Filepath meta := None) else sst_fs ss),
        indexCache := (indexCache ss)(Filepath meta := None),
        bloomCache := (bloomCache ss)(Filepath meta := None)\<rparr>"

text \<open>
  \<open>EnsureMeta\<close>: runs once; reads entries to the end of the file and keeps the last key it parsed.
  The value is skipped by a relative seek, which may go past the end of the file.
\<close>

function ensure_loop :: "bytes \<Rightarrow> nat \<Rightarrow> bytes \<Rightarrow> bytes" where
  "ensure_loop f pos maxKey =
     (case ReadBE 4 f pos of
        Inl _ \<Rightarrow> maxKey
      | Inr (keyLen, p1) \<Rightarrow>
         (case ReadFull f p1 keyLen of
            Inl _ \<Rightarrow> maxKey
          | Inr (key, p2) \<Rightarrow>
             (case ReadBE 4 f p2 of
                Inl _ \<Rightarrow> maxKey
              | Inr (valueLen, p3) \<Rightarrow> ensure_loop f (p3 + valueLen) key)))"
  by pat_completeness auto
termination
  by (relation "measure (\<lambda>(f, pos, maxKey). length f - pos)")
    (auto simp: ReadBE_def ReadFull_def split: sum.splits if_splits prod.splits)

declare ensure_loop.simps [simp del]

definition EnsureMeta :: "(path \<rightharpoonup> bytes) \<Rightarrow> SSTableMata \<Rightarrow> SSTableMata" where
  "EnsureMeta fs meta =
     (if metaOnce meta then meta
      else if MaxKeyLoaded meta then meta\<lparr>metaOnce := True\<rparr>
      else case fs (Filepath meta) of
        None \<Rightarrow> meta\<lparr>metaOnce := True\<rparr>
      | Some f \<Rightarrow> meta\<lparr>MaxKey := ensure_loop f 0 [], MaxKeyLoaded := True, metaOnce := True\<rparr>)"

text \<open>
  \<open>LoadSSTableMetaList\<close>: \<open>listing\<close> is the result of \<open>os.ReadDir\<close> as (name, is a directory) pairs.
\<close>

definition load_meta :: "path \<Rightarrow> (path \<rightharpoonup> bytes) \<Rightarrow> bytes \<times> bool \<Rightarrow> SSTableMata option" where
  "load_meta dir fs entry =
     (let name = fst entry; fullPath = dir @ ascii ''/'' @ name
      in if snd entry \<or> drop (length name - 4) name \<noteq> ascii ''.sst'' then None
         else case fs fullPath of
           None \<Rightarrow> None
         | Some f \<Rightarrow>
            (case ReadBE 4 f 0 of
               Inl _ \<Rightarrow> None
             | Inr (keyLen, p1) \<Rightarrow>
                (case ReadFull f p1 keyLen of
                   Inl _ \<Rightarrow> None
                 | Inr (key, _) \<Rightarrow>
                     Some \<lparr>Level = 0, Filepath = fullPath, MinKey = key, MaxKey = [],
                           Size = length f, MaxKeyLoaded = False, metaOnce = False, ptr = 0\<rparr>)))"

definition LoadSSTableMetaList :: "path \<Rightarrow> (bytes \<times> bool) list \<Rightarrow> SSTable \<Rightarrow> SSTable" where
  "LoadSSTableMetaList dir listing ss =
     (let metas = sort_key Filepath (List.map_filter (load_meta dir (sst_fs ss)) listing)
      in ss\<lparr>mata := map (\<lambda>(i, m). m\<lparr>ptr := next_ptr ss + i\<rparr>) (enumerate 0 metas),
            next_ptr := next_ptr ss + length metas\<rparr>)"

section \<open>What a table file holds\<close>

text \<open>
  The specification of the writer: block \<open>b\<close> of the index names the last key of the \<open>b\<close>-th group of
  \<open>SSTableBlockSize\<close> entries and the offset of its first entry.
\<close>

definition block_entry :: "LogEntry list \<Rightarrow> nat \<Rightarrow> BlockIndexEntry" where
  "block_entry es b =
     \<lparr>LastKey = fst (last (take SSTableBlockSize (drop (b * SSTableBlockSize) es))),
      BlockOffset = length (enc_entries (take (b * SSTableBlockSize) es))\<rparr>"

definition block_count :: "'a list \<Rightarrow> nat" where
  "block_count es = (length es + SSTableBlockSize - 1) div SSTableBlockSize"

definition block_index :: "LogEntry list \<Rightarrow> BlockIndexEntry list" where
  "block_index es = map (block_entry es) [0..<block_count es]"

lemma enc_entries_Nil [simp]: "enc_entries [] = []"
  and enc_entries_Cons: "enc_entries (e # es) = enc_entry e @ enc_entries es"
  and enc_entries_append [simp]: "enc_entries (es @ es') = enc_entries es @ enc_entries es'"
  by (simp_all add: enc_entries_def)

lemma length_block_index [simp]: "length (block_index es) = block_count es"
  by (simp add: block_index_def)

lemma nth_block_index: "b < block_count es \<Longrightarrow> block_index es ! b = block_entry es b"
  by (simp add: block_index_def)

lemma block_count_less: "b < block_count es \<longleftrightarrow> b * SSTableBlockSize < length es"
  by (auto simp: block_count_def SSTableBlockSize_def)

lemma block_entry_snoc:
  "b * SSTableBlockSize < length es \<Longrightarrow>
   block_entry (es @ [e]) b =
     (if b = length es div SSTableBlockSize then (block_entry es b)\<lparr>LastKey := fst e\<rparr> else block_entry es b)"
  by (auto simp: block_entry_def SSTableBlockSize_def not_less)

lemma block_entry_new:
  "length es = b * SSTableBlockSize \<Longrightarrow>
   block_entry (es @ [e]) b = \<lparr>LastKey = fst e, BlockOffset = length (enc_entries es)\<rparr>"
  by (simp add: block_entry_def SSTableBlockSize_def)

lemma ceil_div_64: "0 < n mod 64 \<Longrightarrow> (63 + n) div 64 = Suc (n div (64 :: nat))"
proof -
  assume r: "0 < n mod 64"
  have "63 + n = (n mod 64 - 1) + 64 * Suc (n div 64)" using r by simp
  then have "(63 + n) div 64 = (n mod 64 - 1) div 64 + Suc (n div 64)"
    by (metis div_mult_self2 zero_neq_numeral add.commute)
  then show ?thesis by simp
qed

lemma block_index_snoc:
  "block_index (es @ [e]) =
     (let idx1 = (if length es mod SSTableBlockSize = 0
                  then block_index es @ [\<lparr>LastKey = [], BlockOffset = length (enc_entries es)\<rparr>]
                  else block_index es);
          bi = length es div SSTableBlockSize
      in idx1[bi := (idx1 ! bi)\<lparr>LastKey := fst e\<rparr>])"
proof (cases "length es mod SSTableBlockSize = 0")
  case True
  then have c: "block_count es = length es div SSTableBlockSize"
      "block_count (es @ [e]) = Suc (block_count es)"
    by (auto simp: block_count_def SSTableBlockSize_def)
  have l: "length es = block_count es * SSTableBlockSize"
    using True c(1) by (auto simp: SSTableBlockSize_def)
  have "map (block_entry (es @ [e])) [0..<block_count es] = map (block_entry es) [0..<block_count es]"
    using l by (auto simp: block_entry_snoc SSTableBlockSize_def)
  then have "block_index (es @ [e]) =
      block_index es @ [\<lparr>LastKey = fst e, BlockOffset = length (enc_entries es)\<rparr>]"
    by (simp add: block_index_def c(2) block_entry_new [OF l])
  moreover have "length es div SSTableBlockSize = length (block_index es)" using c(1) by simp
  ultimately show ?thesis
    using True by (simp add: Let_def nth_append list_update_append)
next
  case False
  then have c: "block_count (es @ [e]) = block_count es" "length es div SSTableBlockSize < block_count es"
    using ceil_div_64 [of "length es"] by (auto simp: block_count_def SSTableBlockSize_def)
  have "block_index (es @ [e]) = (block_index es)
      [length es div SSTableBlockSize := (block_index es ! (length es div SSTableBlockSize))\<lparr>LastKey := fst e\<rparr>]"
    using c by (intro nth_equalityI)
      (auto simp: nth_block_index block_entry_snoc nth_list_update block_count_less)
  then show ?thesis using False by (simp add: Let_def)
qed

lemma write_entries_append:
  "write_entries (length ps) es (enc_entries ps) (block_index ps) =
     (enc_entries (ps @ es), block_index (ps @ es))"
proof (induction es arbitrary: ps)
  case Nil
  then show ?case by simp
next
  case (Cons e es)
  have "write_entries (length ps) (e # es) (enc_entries ps) (block_index ps) =
      write_entries (length (ps @ [e])) es (enc_entries (ps @ [e])) (block_index (ps @ [e]))"
    by (simp add: Let_def block_index_snoc enc_entries_Cons)
  then show ?case by (simp only: Cons.IH append_assoc append_Cons append_Nil)
qed

lemma block_index_Nil [simp]: "block_index [] = []"
  by (simp add: block_index_def block_count_def SSTableBlockSize_def)

lemma write_entries_spec: "write_entries 0 es [] [] = (enc_entries es, block_index es)"
  using write_entries_append [of "[]" es] by simp

lemma write_entries_append_acc: "write_entries i (es @ es') buf idx =
   (case write_entries i es buf idx of (buf', idx') \<Rightarrow> write_entries (i + length es) es' buf' idx')"
  by (induction i es buf idx rule: write_entries.induct) (simp_all add: Let_def)

section \<open>Reading back what was written\<close>

text \<open>Lengths the 32-bit fields can hold; the largest value length is the tombstone mark.\<close>

definition entry_fits :: "LogEntry \<Rightarrow> bool" where
  "entry_fits e \<longleftrightarrow> length (fst e) < 2 ^ 32 \<and>
     (case snd e of None \<Rightarrow> True | Some v \<Rightarrow> length v < tombstoneValLen)"

definition entries_ok :: "LogEntry list \<Rightarrow> bool" where
  "entries_ok es \<longleftrightarrow> es \<noteq> [] \<and> sorted_keys es \<and> (\<forall>e \<in> set es. entry_fits e)"

definition bloom_for :: "PartitionedBloom \<Rightarrow> LogEntry list \<Rightarrow> bool" where
  "bloom_for pb es \<longleftrightarrow> pb_wf pb \<and> (\<forall>e \<in> set es. pb_MayContain pb (fst e) = Some True)"

text \<open>\<open>f\<close> is the image of a table with the entries \<open>es\<close>.\<close>

definition sst_file :: "bytes \<Rightarrow> LogEntry list \<Rightarrow> bool" where
  "sst_file f es \<longleftrightarrow> entries_ok es \<and> length f < 2 ^ 63 \<and> block_count es < 2 ^ 32 \<and>
     (\<exists>pb order. bloom_for pb es \<and> map_order (partitions pb) order \<and>
        f = sst_image (enc_entries es) (block_index es) (pb_Encode order pb))"

lemma read_entry_seg:
  assumes "seg f pos (enc_entry e)" and "entry_fits e"
  shows "read_entry f pos = Inr (e, pos + length (enc_entry e))"
proof -
  obtain k v where e: "e = (k, v)" by fastforce
  have k: "length k < 256 ^ 4" using assms(2) by (simp add: e entry_fits_def)
  have s: "seg f pos (put_be 4 (length k))" "seg f (pos + 4) k"
    using assms(1) by (simp_all add: e enc_entry_def seg_append)
  note r = ReadBE_seg [OF s(1) k] ReadFull_seg [OF s(2) refl]
  show ?thesis
  proof (cases v)
    case None
    then have "seg f (pos + 4 + length k) (put_be 4 tombstoneValLen)"
      using assms(1) by (simp add: e enc_entry_def seg_append)
    from ReadBE_seg [OF this] None show ?thesis
      by (simp add: read_entry_def r e tombstoneValLen_def enc_entry_def)
  next
    case (Some w)
    then have "seg f (pos + 4 + length k) (put_be 4 (length w))" "seg f (pos + 4 + length k + 4) w"
      using assms(1) by (simp_all add: e enc_entry_def seg_append)
    with Some assms(2) show ?thesis
      by (simp add: read_entry_def r e enc_entry_def entry_fits_def tombstoneValLen_def
          ReadBE_seg ReadFull_seg)
  qed
qed

lemma length_enc_entry: "8 \<le> length (enc_entry e)"
  by (auto simp: enc_entry_def split: option.splits)

lemma enc_entry_neq_Nil: "enc_entry e \<noteq> []"
  using length_enc_entry [of e] by auto

lemma read_all_loop_seg:
  assumes "seg f pos (enc_entries es)" and "\<forall>e \<in> set es. entry_fits e"
  shows "read_all_loop f (Some (pos + length (enc_entries es))) pos acc = Inr (acc @ es)"
  using assms
proof (induction es arbitrary: pos acc)
  case Nil
  then show ?case by (simp add: read_all_loop.simps)
next
  case (Cons e es)
  have s: "seg f pos (enc_entry e)" "seg f (pos + length (enc_entry e)) (enc_entries es)"
    using Cons.prems(1) by (simp_all add: enc_entries_Cons seg_append)
  have "read_entry f pos = Inr (e, pos + length (enc_entry e))"
    using read_entry_seg [OF s(1)] Cons.prems(2) by simp
  with Cons.IH [OF s(2), of "acc @ [e]"] Cons.prems(2) enc_entry_neq_Nil [of e] show ?case
    by (subst read_all_loop.simps) (simp add: enc_entries_Cons add.assoc)
qed

lemma sst_image_segs:
  assumes "f = sst_image data idx blob"
  shows "seg f 0 data" and "seg f (length data) (enc_index idx)"
    and "length f = length data + length (enc_index idx) + length blob + 28"
    and "drop (length f - 16) f = index_footer (length idx) (length data)"
    and "drop (length f - 28) f = put_be 8 (length blob) @ put_be 4 bloomTrailerMagic @ index_footer (length idx) (length data)"
    and "seg f (length data + length (enc_index idx)) blob"
proof -
  show l: "length f = length data + length (enc_index idx) + length blob + 28"
    by (simp add: assms sst_image_def bloom_section_def index_footer_def)
  show "seg f 0 data" "seg f (length data) (enc_index idx)"
    by (rule segI [of _ "[]"], simp_all add: assms sst_image_def)
      (rule segI [of _ data], simp_all)
  show "seg f (length data + length (enc_index idx)) blob"
    by (rule segI [of _ "data @ enc_index idx"]) (simp_all add: assms sst_image_def bloom_section_def)
  show "drop (length f - 16) f = index_footer (length idx) (length data)"
    "drop (length f - 28) f = put_be 8 (length blob) @ put_be 4 bloomTrailerMagic @ index_footer (length idx) (length data)"
    unfolding l by (simp_all add: assms sst_image_def bloom_section_def index_footer_def)
qed

lemma footer_fields_image:
  assumes "f = sst_image data idx blob" and "length idx < 2 ^ 32" and "length f < 2 ^ 63"
  shows "footer_fields f = (length idx, int (length data), indexFooterMagic)"
proof -
  have "length data < 2 ^ 63" using assms(3) sst_image_segs(3) [OF assms(1)] by simp
  with assms(2) show ?thesis
    unfolding footer_fields_def indexFooterSize_def sst_image_segs(4) [OF assms(1)]
    by (simp add: index_footer_def get_put_be int64_of_def indexFooterMagic_def)
qed

lemma sst_file_shape:
  assumes "sst_file f es"
  shows "footer_fields f = (block_count es, int (length (enc_entries es)), indexFooterMagic)"
    and "0 < block_count es" and "0 < length (enc_entries es)" and "16 \<le> length f"
    and "seg f 0 (enc_entries es)" and "seg f (length (enc_entries es)) (enc_index (block_index es))"
    and "length (enc_entries es) < 2 ^ 63" and "entries_ok es"
proof -
  from assms obtain pb order where f: "f = sst_image (enc_entries es) (block_index es) (pb_Encode order pb)"
    and ok: "entries_ok es" "length f < 2 ^ 63" "block_count es < 2 ^ 32"
    unfolding sst_file_def by blast
  show "footer_fields f = (block_count es, int (length (enc_entries es)), indexFooterMagic)"
    using footer_fields_image [OF f] ok by simp
  show "0 < block_count es" using ok(1) by (auto simp: block_count_less entries_ok_def)
  have "es \<noteq> []" using ok(1) by (simp add: entries_ok_def)
  then show "0 < length (enc_entries es)"
    using length_enc_entry [of "hd es"] by (cases es) (auto simp: enc_entries_Cons)
  show "16 \<le> length f" "length (enc_entries es) < 2 ^ 63"
    using sst_image_segs(3) [OF f] ok(2) by simp_all
  show "seg f 0 (enc_entries es)" "seg f (length (enc_entries es)) (enc_index (block_index es))"
    using sst_image_segs(1,2) [OF f] by simp_all
  show "entries_ok es" by (rule ok(1))
qed

lemma sstableDataEnd_file: "sst_file f es \<Longrightarrow> sstableDataEnd f = Some (length (enc_entries es))"
  using sst_file_shape [of f es]
  by (simp add: sstableDataEnd_def indexFooterSize_def)

lemma ReadAll_file:
  assumes "fs p = Some f" and "sst_file f es"
  shows "ReadAllFromSSTable fs p = Inr es"
  using read_all_loop_seg [of f 0 es "[]"] sst_file_shape [OF assms(2)] assms(1)
  by (simp add: ReadAllFromSSTable_def sstableDataEnd_file [OF assms(2)] entries_ok_def)

lemma read_index_seg:
  assumes "seg f pos (enc_index idx)" and "\<forall>b \<in> set idx. length (LastKey b) < 2 ^ 32 \<and> BlockOffset b < 2 ^ 63"
  shows "read_index f pos (length idx) = Some idx"
  using assms
proof (induction idx arbitrary: pos)
  case Nil
  then show ?case by simp
next
  case (Cons b idx)
  let ?k = "LastKey b"
  have s: "seg f pos (put_be 4 (length ?k))" "seg f (pos + 4) ?k"
      "seg f (pos + 4 + length ?k) (put_be 8 (BlockOffset b))"
      "seg f (pos + 4 + length ?k + 8) (enc_index idx)"
    using Cons.prems(1) by (simp_all add: enc_index_def enc_index_entry_def seg_append add.assoc)
  have "length ?k < 256 ^ 4" "BlockOffset b < 256 ^ 8" using Cons.prems(2) by auto
  with ReadBE_seg [OF s(1)] ReadFull_seg [OF s(2) refl] ReadBE_seg [OF s(3)] Cons.IH [OF s(4)] Cons.prems(2)
  show ?case by simp
qed

lemma block_entry_bounds:
  assumes "entries_ok es" and "b < block_count es"
  shows "length (LastKey (block_entry es b)) < 2 ^ 32"
    and "BlockOffset (block_entry es b) \<le> length (enc_entries es)"
proof -
  let ?c = "take SSTableBlockSize (drop (b * SSTableBlockSize) es)"
  have "?c \<noteq> []" using assms(2) by (simp add: block_count_less SSTableBlockSize_def)
  then have "last ?c \<in> set es" by (metis in_set_dropD in_set_takeD last_in_set)
  then show "length (LastKey (block_entry es b)) < 2 ^ 32"
    using assms(1) by (simp add: block_entry_def entries_ok_def entry_fits_def)
  have "enc_entries es = enc_entries (take (b * SSTableBlockSize) es) @ enc_entries (drop (b * SSTableBlockSize) es)"
    by (metis append_take_drop_id enc_entries_append)
  then show "BlockOffset (block_entry es b) \<le> length (enc_entries es)"
    by (simp add: block_entry_def)
qed

lemma loadBlockIndex_file:
  assumes "fs p = Some f" and "sst_file f es"
  shows "loadBlockIndexFromFile fs p = Some (block_index es)"
proof -
  note shape = sst_file_shape [OF assms(2)]
  have "\<forall>b \<in> set (block_index es). length (LastKey b) < 2 ^ 32 \<and> BlockOffset b < 2 ^ 63"
    using block_entry_bounds [OF shape(8)] le_less_trans [OF block_entry_bounds(2) [OF shape(8)] shape(7)]
    by (auto simp: block_index_def)
  from read_index_seg [OF shape(6) this] shape assms(1) show ?thesis
    by (simp add: loadBlockIndexFromFile_def indexFooterSize_def)
qed

text \<open>The bloom section: a blob over the limit is ignored, any other gives back a filter for the entries.\<close>

lemma concat_map_length_ge:
  "x \<in> set xs \<Longrightarrow> length (f x) \<le> length (concat (map f xs))"
  by (induction xs) auto

lemma pb_Encode_bounds:
  assumes "map_order (partitions pb) order" and "length (pb_Encode order pb) \<le> 2 ^ 30"
  shows "pb_fits pb" and "length order < 2 ^ 32"
proof -
  let ?e = "enc_partition (partitions pb)"
  have d: "set order = dom (partitions pb)" using assms(1) by (simp add: map_order_def)
  have c: "length (concat (map ?e order)) \<le> 2 ^ 30" using assms(2) by (simp add: pb_Encode_def)
  show "pb_fits pb" unfolding pb_fits_def
  proof (intro allI impI)
    fix ns bf assume ns: "partitions pb ns = Some bf"
    then have "length (?e ns) \<le> 2 ^ 30"
      using d c concat_map_length_ge [of ns order ?e] by (auto intro: le_trans)
    then show "length ns < 2 ^ 32 \<and> 16 + 8 * length (bits bf) < 2 ^ 32"
      using ns by (simp add: enc_partition_def length_bloom_Encode)
  qed
  have "\<forall>ns \<in> set order. 1 \<le> length (?e ns)" using d by (auto simp: enc_partition_def)
  then have "length order \<le> length (concat (map ?e order))"
    by (induction order) (auto simp flip: length_greater_0_conv intro: add_less_le_mono)
  with c show "length order < 2 ^ 32" by simp
qed

lemma pb_MayContain_meta [simp]: "pb_MayContain (pb\<lparr>pb_n := n, pb_p := p\<rparr>) = pb_MayContain pb"
  by (simp add: pb_MayContain_def fun_eq_iff)

lemma loadBloom_file:
  assumes "fs p = Some f" and "sst_file f es"
  shows "case loadBloomFromFile fs p of None \<Rightarrow> True | Some pb \<Rightarrow> bloom_for pb es"
proof -
  from assms(2) obtain pb order where pb: "bloom_for pb es" "map_order (partitions pb) order"
    and f: "f = sst_image (enc_entries es) (block_index es) (pb_Encode order pb)" and lf: "length f < 2 ^ 63"
    unfolding sst_file_def by blast
  let ?blob = "pb_Encode order pb"
  have l: "length ?blob < 256 ^ 8" using lf sst_image_segs(3) [OF f] by simp
  have bl: "get_be (take 8 (drop (length f - 28) f)) = length ?blob"
    using sst_image_segs(5) [OF f] l by (simp add: get_put_be)
  show ?thesis
  proof (cases "length ?blob \<le> 2 ^ 30")
    case True
    have r: "ReadFull f (length f - (28 + length ?blob)) (length ?blob) = Inr (?blob, length f - 28)"
      using ReadFull_seg [OF sst_image_segs(6) [OF f] refl] sst_image_segs(3) [OF f] by simp
    have "DecodePartitionedBloom ?blob 0 defaultBloomFPRate = Inr (pb\<lparr>pb_n := 0, pb_p := defaultBloomFPRate\<rparr>)"
      using pb_decode_encode pb pb_Encode_bounds [OF pb(2) True] by (simp add: bloom_for_def)
    moreover have "bloom_for (pb\<lparr>pb_n := 0, pb_p := defaultBloomFPRate\<rparr>) es"
      using pb(1) by (simp add: bloom_for_def pb_wf_def)
    ultimately show ?thesis
      using assms(1) r bl
      by (simp add: loadBloomFromFile_def indexFooterSize_def bloomTrailerSize_def Let_def)
  next
    case False
    with bl have "loadBloomFromFile fs p = None"
      by (simp add: loadBloomFromFile_def assms(1) indexFooterSize_def bloomTrailerSize_def Let_def
          maxBloomSectionBytes_def)
    then show ?thesis by simp
  qed
qed

text \<open>The binary search finds the first block whose last key is not below the key, or the last block.\<close>

lemma bin_search_correct:
  assumes "lo \<le> hi" and "hi < length idx"
    and "\<forall>i j. i \<le> j \<longrightarrow> j < length idx \<longrightarrow> LastKey (idx ! i) \<le> LastKey (idx ! j)"
  shows "lo \<le> bin_search key idx lo hi \<and> bin_search key idx lo hi \<le> hi \<and>
         (\<forall>j. lo \<le> j \<and> j < bin_search key idx lo hi \<longrightarrow> LastKey (idx ! j) < key) \<and>
         (bin_search key idx lo hi < hi \<longrightarrow> key \<le> LastKey (idx ! bin_search key idx lo hi))"
  using assms
proof (induction key idx lo hi rule: bin_search.induct)
  case (1 key idx lo hi)
  let ?mid = "(lo + hi) div 2"
  show ?case
  proof (cases "lo < hi")
    case False
    with 1(3) show ?thesis by (auto simp: bin_search.simps)
  next
    case lt: True
    show ?thesis
    proof (cases "key \<le> LastKey (idx ! ?mid)")
      case True
      have eq: "bin_search key idx lo hi = bin_search key idx lo ?mid"
        using lt True by (subst bin_search.simps) (simp add: Let_def)
      from 1(1) [OF lt refl] True lt 1(4,5) have
        "lo \<le> bin_search key idx lo ?mid \<and> bin_search key idx lo ?mid \<le> ?mid \<and>
         (\<forall>j. lo \<le> j \<and> j < bin_search key idx lo ?mid \<longrightarrow> LastKey (idx ! j) < key) \<and>
         (bin_search key idx lo ?mid < ?mid \<longrightarrow> key \<le> LastKey (idx ! bin_search key idx lo ?mid))"
        by simp
      with True lt show ?thesis unfolding eq by (auto simp: nat_less_le)
    next
      case False
      have eq: "bin_search key idx lo hi = bin_search key idx (?mid + 1) hi"
        using lt False by (subst bin_search.simps) (simp add: Let_def)
      have below: "LastKey (idx ! j) < key" if "j \<le> ?mid" for j
      proof -
        have "?mid < length idx" using lt 1(4) by linarith
        then have "LastKey (idx ! j) \<le> LastKey (idx ! ?mid)" using 1(5) that by blast
        with False show ?thesis by simp
      qed
      from 1(2) [OF lt refl] False lt 1(4,5) have
        "?mid + 1 \<le> bin_search key idx (?mid + 1) hi \<and> bin_search key idx (?mid + 1) hi \<le> hi \<and>
         (\<forall>j. ?mid + 1 \<le> j \<and> j < bin_search key idx (?mid + 1) hi \<longrightarrow> LastKey (idx ! j) < key) \<and>
         (bin_search key idx (?mid + 1) hi < hi \<longrightarrow> key \<le> LastKey (idx ! bin_search key idx (?mid + 1) hi))"
        by simp
      moreover have "lo \<le> ?mid + 1" using lt by linarith
      moreover have "j \<le> ?mid \<or> ?mid + 1 \<le> j" for j by linarith
      ultimately show ?thesis unfolding eq using below by (meson le_trans)
    qed
  qed
qed

definition lookup_result :: "LogEntry list \<Rightarrow> bytes \<Rightarrow> bytes option \<times> bool" where
  "lookup_result es key = (case map_of es key of None \<Rightarrow> (None, False) | Some v \<Rightarrow> (v, True))"

lemma scan_block_seg:
  assumes "seg f pos (enc_entries es)" and "\<forall>e \<in> set es. entry_fits e" and "sorted_keys es"
    and "length es \<le> n" and "es \<noteq> []" and "key \<le> fst (last es)"
  shows "scan_block f key pos n = lookup_result es key"
  using assms
proof (induction es arbitrary: pos n)
  case Nil
  then show ?case by simp
next
  case (Cons e es)
  obtain k v where e: "e = (k, v)" by fastforce
  obtain m where n: "n = Suc m" using Cons.prems(4) by (cases n) auto
  have s: "seg f pos (enc_entry e)" "seg f (pos + length (enc_entry e)) (enc_entries es)"
    using Cons.prems(1) by (simp_all add: enc_entries_Cons seg_append)
  have r: "read_entry f pos = Inr ((k, v), pos + length (enc_entry e))"
    using read_entry_seg [OF s(1)] Cons.prems(2) e by simp
  consider "k = key" | "key < k" | "k < key" by fastforce
  then show ?case
  proof cases
    case 1
    then show ?thesis by (simp add: n r e lookup_result_def)
  next
    case 2
    then have "map_of (e # es) key = None"
      using Cons.prems(3) by (intro map_of_None_bounds [of "[]", simplified]) (auto simp: e)
    then show ?thesis using 2 by (simp add: n r lookup_result_def)
  next
    case 3
    then have "es \<noteq> []" using Cons.prems(6) by (auto simp: e)
    moreover have "\<not> key < k" using 3 by simp
    ultimately show ?thesis using 3 Cons.prems Cons.IH [OF s(2), of m]
      by (simp add: n r e lookup_result_def)
  qed
qed

lemma LastKey_block_index:
  assumes "b < block_count es"
  shows "LastKey (block_index es ! b) = fst (es ! (min (Suc b * SSTableBlockSize) (length es) - 1))"
proof -
  let ?c = "take SSTableBlockSize (drop (b * SSTableBlockSize) es)"
  have l: "b * SSTableBlockSize < length es" using assms by (simp add: block_count_less)
  then have "?c \<noteq> []" by (simp add: SSTableBlockSize_def)
  then have "last ?c = ?c ! (length ?c - 1)" by (rule last_conv_nth)
  also have "\<dots> = es ! (b * SSTableBlockSize + (length ?c - 1))"
    using l by (subst nth_take) (auto simp: SSTableBlockSize_def)
  also have "b * SSTableBlockSize + (length ?c - 1) = min (Suc b * SSTableBlockSize) (length es) - 1"
    using l unfolding length_take length_drop SSTableBlockSize_def min_def by (auto split: if_splits)
  finally show ?thesis by (simp add: nth_block_index [OF assms] block_entry_def)
qed

lemma sorted_keys_nth_mono:
  fixes es :: "('k::linorder \<times> 'v) list"
  assumes "sorted_keys es" and "i \<le> j" and "j < length es"
  shows "fst (es ! i) \<le> fst (es ! j)"
  using sorted_wrt_nth_less [OF assms(1), of i j] assms(2,3) by (cases "i = j") auto

lemma LastKey_mono:
  assumes "sorted_keys es" and "i \<le> j" and "j < block_count es"
  shows "LastKey (block_index es ! i) \<le> LastKey (block_index es ! j)"
proof -
  have "Suc i * SSTableBlockSize \<le> Suc j * SSTableBlockSize" using assms(2) by (intro mult_le_mono) auto
  then have "min (Suc i * SSTableBlockSize) (length es) - 1 \<le> min (Suc j * SSTableBlockSize) (length es) - 1"
    by (intro diff_le_mono min.mono) auto
  moreover have "min (Suc j * SSTableBlockSize) (length es) - 1 < length es"
    using assms(3) unfolding block_count_less by linarith
  ultimately have "fst (es ! (min (Suc i * SSTableBlockSize) (length es) - 1)) \<le>
      fst (es ! (min (Suc j * SSTableBlockSize) (length es) - 1))"
    by (rule sorted_keys_nth_mono [OF assms(1)])
  then show ?thesis using assms by (simp only: LastKey_block_index)
qed

text \<open>
  The index search is right for every key that does not exceed the last key of the table; beyond it
  the scan would run over the end of the data area, which the caller's \<open>MaxKey\<close> test excludes.
\<close>

text \<open>The block that the binary search picks: every key before it is smaller, its last key is not.\<close>

lemma found_block_before:
  assumes "sorted_keys es" and "b < block_count es" and "\<forall>j < b. LastKey (block_index es ! j) < key"
  shows "\<forall>x \<in> fst ` set (take (b * SSTableBlockSize) es). x < key"
proof (cases b)
  case 0
  then show ?thesis by simp
next
  case (Suc c)
  let ?ps = "take (b * SSTableBlockSize) es"
  have bl: "b * SSTableBlockSize < length es" using assms(2) by (simp add: block_count_less)
  have "LastKey (block_index es ! c) < key" using assms(3) Suc by simp
  then have last: "fst (es ! (b * SSTableBlockSize - 1)) < key"
    using Suc assms(2) bl by (simp add: LastKey_block_index min_def)
  have "fst (?ps ! i) < key" if i: "i < length ?ps" for i
  proof -
    have "fst (es ! i) \<le> fst (es ! (b * SSTableBlockSize - 1))"
      using i bl by (intro sorted_keys_nth_mono [OF assms(1)]) auto
    with last i show ?thesis by simp
  qed
  then show ?thesis by (metis (no_types, lifting) imageE in_set_conv_nth)
qed

lemma found_block_reaches:
  assumes "b < block_count es" and "b < block_count es - 1 \<Longrightarrow> key \<le> LastKey (block_index es ! b)"
    and "key \<le> fst (last es)"
  shows "key \<le> fst (last (take SSTableBlockSize (drop (b * SSTableBlockSize) es)))" (is "_ \<le> fst (last ?blk)")
proof (cases "b < block_count es - 1")
  case True
  then show ?thesis using assms(1,2) by (simp add: nth_block_index block_entry_def)
next
  case False
  have "b * SSTableBlockSize < length es" using assms(1) by (simp add: block_count_less)
  moreover have "\<not> Suc b < block_count es" using False assms(1) by simp
  then have "length es \<le> Suc b * SSTableBlockSize" using block_count_less [of "Suc b" es] by simp
  ultimately have "last ?blk = last es" by simp
  then show ?thesis using assms(3) by simp
qed

lemma searchBlock_file:
  assumes "fs p = Some f" and "sst_file f es" and "key \<le> fst (last es)"
  shows "searchBlock fs p key (block_index es) = lookup_result es key"
proof -
  note shape = sst_file_shape [OF assms(2)]
  have ok: "sorted_keys es" "\<forall>e \<in> set es. entry_fits e" "es \<noteq> []"
    using shape(8) by (simp_all add: entries_ok_def)
  let ?n = "block_count es"
  define b where "b = bin_search key (block_index es) 0 (?n - 1)"
  have b: "b \<le> ?n - 1" "\<forall>j < b. LastKey (block_index es ! j) < key"
      "b < ?n - 1 \<Longrightarrow> key \<le> LastKey (block_index es ! b)"
    using bin_search_correct [of 0 "?n - 1" "block_index es" key] LastKey_mono [OF ok(1)] shape(2)
    by (auto simp: b_def)
  then have bn: "b < ?n" using shape(2) by simp
  then have bl: "b * SSTableBlockSize < length es" by (simp add: block_count_less)
  define ps blk qs where "ps = take (b * SSTableBlockSize) es"
    and "blk = take SSTableBlockSize (drop (b * SSTableBlockSize) es)"
    and "qs = drop (Suc b * SSTableBlockSize) es"
  have es: "es = ps @ blk @ qs"
    unfolding ps_def blk_def qs_def mult_Suc add.commute [of SSTableBlockSize]
    by (metis append_take_drop_id drop_drop add.commute)
  have blk: "blk \<noteq> []" "length blk \<le> SSTableBlockSize"
    using bl by (simp_all add: blk_def SSTableBlockSize_def)
  have sorted: "sorted_keys blk" "\<forall>x \<in> set blk. \<forall>y \<in> set qs. fst x < fst y"
    using ok(1) unfolding es by (auto simp: sorted_wrt_append)
  have key: "key \<le> fst (last blk)" unfolding blk_def by (rule found_block_reaches [OF bn b(3) assms(3)])
  have pre: "\<forall>x \<in> fst ` set ps. x < key" unfolding ps_def by (rule found_block_before [OF ok(1) bn b(2)])
  have "fst (last blk) < x" if "x \<in> fst ` set qs" for x using sorted(2) blk(1) that by auto
  with key have "\<forall>x \<in> fst ` set qs. key < x" by (meson le_less_trans)
  then have "map_of es key = map_of blk key"
    using map_of_None_bounds [OF pre, of "[]"] map_of_None_bounds [of "[]" key qs]
    by (simp add: es map_add_def split: option.splits)
  moreover have "seg f (length (enc_entries ps)) (enc_entries blk)"
    using shape(5) by (simp add: es seg_append)
  moreover have "BlockOffset (block_index es ! b) = length (enc_entries ps)"
    by (simp add: nth_block_index [OF bn] block_entry_def ps_def)
  moreover have "\<forall>e \<in> set blk. entry_fits e" using ok(2) by (simp add: es)
  ultimately show ?thesis
    using scan_block_seg [of f _ blk SSTableBlockSize key] sorted(1) blk key bn assms(1)
    by (simp only: searchBlock_def lookup_result_def Let_def b_def [symmetric] length_block_index)
      (simp add: lookup_result_def)
qed

end
