(* ===== verification/TableStore.thy ===== *)
theory TableStore
  imports SSTable
begin

text \<open>
  The table set as the memtable sees it: which entries each path holds whatever the caches contain,
  that lookups through filter, index and block scan agree with those entries, that a successful write
  adds a table and a failed one changes nothing visible, and what a restart makes of the files.
\<close>

section \<open>Lookups\<close>

definition table_at :: "SSTable \<Rightarrow> path \<Rightarrow> LogEntry list \<Rightarrow> bool" where
  "table_at ss p es \<longleftrightarrow>
     (\<exists>f. sst_fs ss p = Some f \<and> sst_file f es) \<and>
     (\<forall>idx. indexCache ss p = Some idx \<longrightarrow> idx = block_index es) \<and>
     (\<forall>pb. bloomCache ss p = Some (Some pb) \<longrightarrow> bloom_for pb es)"

text \<open>Only the caches differ, and every table is still there.\<close>

definition same_tables :: "SSTable \<Rightarrow> SSTable \<Rightarrow> bool" where
  "same_tables ss ss' \<longleftrightarrow> mata ss' = mata ss \<and> next_ptr ss' = next_ptr ss \<and> sst_fs ss' = sst_fs ss \<and>
     (\<forall>q es. table_at ss q es \<longrightarrow> table_at ss' q es)"

lemma same_tables_refl [simp]: "same_tables ss ss"
  by (simp add: same_tables_def)

lemma same_tables_trans: "same_tables a b \<Longrightarrow> same_tables b c \<Longrightarrow> same_tables a c"
  by (simp add: same_tables_def)

lemma table_at_cache_bloom:
  assumes "table_at ss q es" and "\<And>b. q = p \<Longrightarrow> pb = Some b \<Longrightarrow> bloom_for b es"
  shows "table_at (ss\<lparr>bloomCache := (bloomCache ss)(p \<mapsto> pb)\<rparr>) q es"
  using assms by (simp add: table_at_def)

lemma table_at_cache_index:
  assumes "table_at ss q es" and "q = p \<Longrightarrow> idx = block_index es"
  shows "table_at (ss\<lparr>indexCache := (indexCache ss)(p \<mapsto> idx)\<rparr>) q es"
  using assms by (simp add: table_at_def)

lemma loadBloom_table:
  "table_at ss p es \<Longrightarrow> loadBloomFromFile (sst_fs ss) p = Some pb \<Longrightarrow> bloom_for pb es"
  using loadBloom_file [of "sst_fs ss" p _ es] by (auto simp: table_at_def)

lemma loadBlockIndex_table:
  "table_at ss p es \<Longrightarrow> loadBlockIndexFromFile (sst_fs ss) p = Some (block_index es)"
  using loadBlockIndex_file [of "sst_fs ss" p _ es] by (auto simp: table_at_def)

lemma getBloom_correct:
  assumes "getBloom p ss = (r, ss')"
  shows "same_tables ss ss'" and "table_at ss p es \<Longrightarrow> r = Some pb \<Longrightarrow> bloom_for pb es"
proof -
  have "same_tables ss ss' \<and> (\<forall>es pb. table_at ss p es \<longrightarrow> r = Some pb \<longrightarrow> bloom_for pb es)"
  proof (cases "bloomCache ss p")
    case None
    define l where "l = loadBloomFromFile (sst_fs ss) p"
    have "r = l" and "ss' = ss\<lparr>bloomCache := (bloomCache ss)(p \<mapsto> l)\<rparr>"
      using None assms by (auto simp: getBloom_def Let_def l_def)
    then show ?thesis using loadBloom_table table_at_cache_bloom by (simp add: same_tables_def l_def)
  next
    case (Some c)
    then show ?thesis using assms by (simp add: getBloom_def table_at_def)
  qed
  then show "same_tables ss ss'" and "table_at ss p es \<Longrightarrow> r = Some pb \<Longrightarrow> bloom_for pb es"
    by blast+
qed

lemma getBlockIndex_correct:
  assumes "getBlockIndex p ss = (r, ss')"
  shows "same_tables ss ss'" and "table_at ss p es \<Longrightarrow> r = Some (block_index es)"
proof -
  have "same_tables ss ss' \<and> (\<forall>es. table_at ss p es \<longrightarrow> r = Some (block_index es))"
  proof (cases "indexCache ss p")
    case None
    show ?thesis
    proof (cases "loadBlockIndexFromFile (sst_fs ss) p")
      case fail: None
      then show ?thesis using None assms loadBlockIndex_table by (fastforce simp: getBlockIndex_def)
    next
      case (Some idx)
      then have "r = Some idx" and "ss' = ss\<lparr>indexCache := (indexCache ss)(p \<mapsto> idx)\<rparr>"
        using None assms by (auto simp: getBlockIndex_def)
      moreover have "idx = block_index es" if "table_at ss p es" for es
        using loadBlockIndex_table [OF that] Some by simp
      ultimately show ?thesis
        using table_at_cache_index [of ss _ _ p idx] by (simp add: same_tables_def) blast
    qed
  next
    case (Some c)
    moreover from this have "r = Some c" "ss' = ss" using assms by (simp_all add: getBlockIndex_def)
    ultimately show ?thesis by (simp add: table_at_def)
  qed
  then show "same_tables ss ss'" and "table_at ss p es \<Longrightarrow> r = Some (block_index es)" by blast+
qed

lemma lookup_result_absent: "key \<notin> fst ` set es \<Longrightarrow> lookup_result es key = (None, False)"
  by (simp add: lookup_result_def map_of_eq_None_iff [THEN iffD2])

lemma ReadFromSSTable_table:
  assumes "table_at ss p es" and "key \<le> fst (last es)"
  shows "\<exists>ss'. ReadFromSSTable p key ss = Some (lookup_result es key, ss') \<and> same_tables ss ss'"
proof -
  obtain bloom ss1 where b: "getBloom p ss = (bloom, ss1)" by fastforce
  note b1 = getBloom_correct [OF b]
  have t1: "table_at ss1 p es" using b1(1) assms(1) by (simp add: same_tables_def)
  obtain idx ss2 where i: "getBlockIndex p ss1 = (idx, ss2)" by fastforce
  note i1 = getBlockIndex_correct [OF i]
  have t2: "table_at ss2 p es" and st: "same_tables ss ss2"
    using i1(1) t1 same_tables_trans [OF b1(1) i1(1)] by (simp_all add: same_tables_def)
  from t2 obtain f where f: "sst_fs ss2 p = Some f" "sst_file f es" by (auto simp: table_at_def)
  from searchBlock_file [of "sst_fs ss2" p f, OF f assms(2)] i1(2) [OF t1]
  have full: "(case idx of Some idx \<Rightarrow> Some (searchBlock (sst_fs ss2) p key idx, ss2)
                | None \<Rightarrow> Some (readFromSSTableFull (sst_fs ss2) p key, ss2)) = Some (lookup_result es key, ss2)"
    by simp
  show ?thesis
  proof (cases bloom)
    case None
    with full st show ?thesis by (simp add: ReadFromSSTable_def b i)
  next
    case (Some pb)
    then have pb: "bloom_for pb es" using b1(2) assms(1) by simp
    then obtain r where r: "pb_MayContain pb key = Some r"
      using pb_MayContain_total [of pb key] by (auto simp: bloom_for_def)
    show ?thesis
    proof (cases r)
      case True
      with full st Some r show ?thesis by (simp add: ReadFromSSTable_def b i)
    next
      case False
      then have "key \<notin> fst ` set es" using pb r by (auto simp: bloom_for_def)
      with b1(1) Some r False show ?thesis
        by (simp add: ReadFromSSTable_def b lookup_result_absent)
    qed
  qed
qed

section \<open>Writing a table\<close>

lemma add_all_dom: "add_all ks pb = Some pb' \<Longrightarrow> dom (partitions pb') = dom (partitions pb)"
  by (induction ks arbitrary: pb) (auto split: prod.splits option.splits)

lemma BuildPartitionedBloom_finite:
  assumes "BuildPartitionedBloom fm keys sep p = Some pb"
  shows "finite (dom (partitions pb))"
proof -
  have "dom (partitions pb) = dom (count_namespaces sep keys Map.empty)"
    using add_all_dom assms by (auto simp: BuildPartitionedBloom_def Let_def dom_def)
  then show ?thesis by (simp add: dom_count_namespaces)
qed

text \<open>The iteration order of a Go map is some enumeration of its keys.\<close>

definition order_ok :: "(PartitionedBloom \<Rightarrow> bytes list) \<Rightarrow> bool" where
  "order_ok order \<longleftrightarrow> (\<forall>pb. finite (dom (partitions pb)) \<longrightarrow> map_order (partitions pb) (order pb))"

text \<open>The file stays below the range of the signed offsets and of the block counter.\<close>

definition image_of :: "FloatMath \<Rightarrow> (PartitionedBloom \<Rightarrow> bytes list) \<Rightarrow> LogEntry list \<Rightarrow> bytes" where
  "image_of fm order es =
     (case BuildPartitionedBloom fm (map fst es) DefaultNamespaceSep defaultBloomFPRate of
        None \<Rightarrow> []
      | Some pb \<Rightarrow> sst_image (enc_entries es) (block_index es) (pb_Encode (order pb) pb))"

definition file_fits :: "FloatMath \<Rightarrow> (PartitionedBloom \<Rightarrow> bytes list) \<Rightarrow> LogEntry list \<Rightarrow> bool" where
  "file_fits fm order es \<longleftrightarrow> block_count es < 2 ^ 32 \<and> length (image_of fm order es) < 2 ^ 63"

lemma image_of_file:
  assumes "float_ok fm" and "order_ok order" and "entries_ok es" and "file_fits fm order es"
  obtains pb where "BuildPartitionedBloom fm (map fst es) DefaultNamespaceSep defaultBloomFPRate = Some pb"
    and "bloom_for pb es" and "image_of fm order es = sst_image (enc_entries es) (block_index es) (pb_Encode (order pb) pb)"
    and "sst_file (image_of fm order es) es"
proof -
  obtain pb where pb: "BuildPartitionedBloom fm (map fst es) DefaultNamespaceSep defaultBloomFPRate = Some pb"
    and wf: "pb_wf pb" "\<forall>k \<in> set (map fst es). pb_MayContain pb k = Some True"
    using BuildPartitionedBloom_correct [OF assms(1)] by blast
  have b: "bloom_for pb es" using wf by (simp add: bloom_for_def)
  moreover have i: "image_of fm order es = sst_image (enc_entries es) (block_index es) (pb_Encode (order pb) pb)"
    by (simp add: image_of_def pb)
  moreover have "map_order (partitions pb) (order pb)"
    using assms(2) BuildPartitionedBloom_finite [OF pb] by (simp add: order_ok_def)
  ultimately have "sst_file (image_of fm order es) es"
    using assms(3,4) unfolding sst_file_def file_fits_def by blast
  with that pb b i show thesis by blast
qed

text \<open>Writing at a path leaves every table at another path alone.\<close>

definition others_kept :: "path \<Rightarrow> SSTable \<Rightarrow> SSTable \<Rightarrow> bool" where
  "others_kept p ss ss' \<longleftrightarrow> (\<forall>q es. q \<noteq> p \<longrightarrow> table_at ss q es \<longrightarrow> table_at ss' q es)"

lemma table_at_AddMata [simp]: "table_at (AddMata m ss) p es = table_at ss p es"
  by (simp add: table_at_def AddMata_def)

definition new_meta :: "nat \<Rightarrow> path \<Rightarrow> nat \<Rightarrow> LogEntry list \<Rightarrow> SSTableMata" where
  "new_meta lvl p sz es = \<lparr>Level = lvl, Filepath = p, MinKey = fst (hd es), MaxKey = fst (last es),
     Size = sz, MaxKeyLoaded = True, metaOnce = False, ptr = 0\<rparr>"

lemma WriteToSSTable_outcomes:
  assumes "float_ok fm" and "order_ok order" and "entries_ok es" and "file_fits fm order es"
  shows "\<exists>r ss'. WriteToSSTable fm order dir now io es ss = Some (r, ss') \<and>
           others_kept (sstable_path dir now) ss ss' \<and>
           (if mkdir_ok io \<and> create_ok io \<and> write_ok io \<and> bloom_ok io \<and> sync_ok io \<and> stat_ok io
            then r = Inr () \<and> table_at ss' (sstable_path dir now) es \<and>
                 mata ss' = mata ss @ [(new_meta 0 (sstable_path dir now) (length (image_of fm order es)) es)\<lparr>ptr := next_ptr ss\<rparr>] \<and>
                 next_ptr ss' = next_ptr ss + 1
            else (\<exists>e. r = Inl e) \<and> mata ss' = mata ss \<and> next_ptr ss' = next_ptr ss)"
proof -
  obtain pb where pb: "BuildPartitionedBloom fm (map fst es) DefaultNamespaceSep defaultBloomFPRate = Some pb"
    "bloom_for pb es" "image_of fm order es = sst_image (enc_entries es) (block_index es) (pb_Encode (order pb) pb)"
    "sst_file (image_of fm order es) es"
    using image_of_file [OF assms] by blast
  have ne: "es \<noteq> []" using assms(3) by (simp add: entries_ok_def)
  show ?thesis
    using pb(2,4)
    by (simp add: WriteToSSTable_def ne pb(1) write_entries_spec pb(3) [symmetric] Let_def)
      (auto simp: others_kept_def table_at_def AddMata_def new_meta_def)
qed

end
