(* ===== verification/MergeIter.thy ===== *)
theory MergeIter
  imports TableStore "HOL-Library.Product_Lexorder" "HOL-Library.Multiset"
begin

text \<open>
  \<open>storage/zstorage/iterator.go\<close>, \<open>merge_iterator.go\<close> and \<open>MergeSSTable\<close>: streaming iterators over the data
  area of table files, the k-way merge over a binary heap (Go's \<open>container/heap\<close>, on a slice), and the
  writer of the merged table.
\<close>

section \<open>The binary heap of container/heap\<close>

definition swap :: "nat \<Rightarrow> nat \<Rightarrow> 'a list \<Rightarrow> 'a list" where
  "swap i j xs = xs[i := xs ! j, j := xs ! i]"

function heap_up :: "('a \<Rightarrow> 'a \<Rightarrow> bool) \<Rightarrow> nat \<Rightarrow> 'a list \<Rightarrow> 'a list" where
  "heap_up lt j h =
     (let i = (j - 1) div 2
      in if i = j \<or> \<not> lt (h ! j) (h ! i) then h else heap_up lt i (swap i j h))"
  by pat_completeness auto
termination
  by (relation "measure (\<lambda>(lt, j, h). j)") auto

function heap_down :: "('a \<Rightarrow> 'a \<Rightarrow> bool) \<Rightarrow> nat \<Rightarrow> nat \<Rightarrow> 'a list \<Rightarrow> 'a list" where
  "heap_down lt i n h =
     (let j1 = 2 * i + 1;
          j = (if j1 + 1 < n \<and> lt (h ! (j1 + 1)) (h ! j1) then j1 + 1 else j1)
      in if n \<le> j1 \<or> \<not> lt (h ! j) (h ! i) then h else heap_down lt j n (swap i j h))"
  by pat_completeness auto
termination
  by (relation "measure (\<lambda>(lt, i, n, h). n - i)") (auto simp: Let_def split: if_splits)

declare heap_up.simps [simp del] heap_down.simps [simp del]

fun heap_init_from :: "('a \<Rightarrow> 'a \<Rightarrow> bool) \<Rightarrow> nat \<Rightarrow> 'a list \<Rightarrow> 'a list" where
  "heap_init_from lt 0 h = h"
| "heap_init_from lt (Suc i) h = heap_init_from lt i (heap_down lt i (length h) h)"

definition heap_Init :: "('a \<Rightarrow> 'a \<Rightarrow> bool) \<Rightarrow> 'a list \<Rightarrow> 'a list" where
  "heap_Init lt h = heap_init_from lt (length h div 2) h"

definition heap_Push :: "('a \<Rightarrow> 'a \<Rightarrow> bool) \<Rightarrow> 'a \<Rightarrow> 'a list \<Rightarrow> 'a list" where
  "heap_Push lt x h = heap_up lt (length h) (h @ [x])"

text \<open>\<open>Pop\<close> on a non-empty heap; the last element is cut off after the swap.\<close>

definition heap_Pop :: "('a \<Rightarrow> 'a \<Rightarrow> bool) \<Rightarrow> 'a list \<Rightarrow> 'a \<times> 'a list" where
  "heap_Pop lt h =
     (let n = length h - 1; h' = heap_down lt 0 n (swap 0 n h) in (h' ! n, take n h'))"

section \<open>Correctness of the heap\<close>

text \<open>The interface the merge relies on: a bag of elements from which a smallest one is removed.\<close>

locale priority_queue =
  fixes rank :: "'a \<Rightarrow> 'o::linorder"
    and inv :: "'a list \<Rightarrow> bool"
    and init :: "'a list \<Rightarrow> 'a list"
    and push :: "'a \<Rightarrow> 'a list \<Rightarrow> 'a list"
    and pop :: "'a list \<Rightarrow> 'a \<times> 'a list"
  assumes inv_Nil: "inv []"
    and init_inv: "inv (init h)"
    and init_mset: "mset (init h) = mset h"
    and push_inv: "inv h \<Longrightarrow> inv (push x h)"
    and push_mset: "mset (push x h) = add_mset x (mset h)"
    and peek_min: "inv h \<Longrightarrow> y \<in> set h \<Longrightarrow> rank (h ! 0) \<le> rank y"
    and pop_inv: "inv h \<Longrightarrow> h \<noteq> [] \<Longrightarrow> inv (snd (pop h))"
    and pop_fst: "h \<noteq> [] \<Longrightarrow> fst (pop h) = h ! 0"
    and pop_mset: "h \<noteq> [] \<Longrightarrow> mset h = add_mset (fst (pop h)) (mset (snd (pop h)))"
begin

lemma pop_min:
  assumes "inv h" and "h \<noteq> []" and "y \<in> set h"
  shows "rank (fst (pop h)) \<le> rank y"
  using peek_min [OF assms(1,3)] pop_fst [OF assms(2)] by simp

lemma pop_rest:
  assumes "inv h" and "h \<noteq> []" and "y \<in> set (snd (pop h))"
  shows "y \<in> set h" and "rank (fst (pop h)) \<le> rank y"
proof -
  show "y \<in> set h" using pop_mset [OF assms(2)] assms(3)
    by (metis set_mset_mset union_single_eq_member insertCI set_mset_add_mset_insert)
  then show "rank (fst (pop h)) \<le> rank y" using pop_min assms by blast
qed

lemma pop_in: "h \<noteq> [] \<Longrightarrow> fst (pop h) \<in> set h"
  using pop_fst by (metis length_greater_0_conv nth_mem)

lemma sum_pop: "h \<noteq> [] \<Longrightarrow> sum_list (map w h) = (w (fst (pop h)) :: nat) + sum_list (map w (snd (pop h)))"
  using pop_mset [of h] by (metis image_mset_add_mset mset_map sum_mset_sum_list sum_mset.add_mset)

lemma sum_push: "sum_list (map w (push x h)) = (w x :: nat) + sum_list (map w h)"
  using push_mset [of x h] by (metis image_mset_add_mset mset_map sum_mset_sum_list sum_mset.add_mset)

lemma set_push: "set (push x h) = insert x (set h)"
  using push_mset [of x h] by (metis set_mset_add_mset_insert set_mset_mset)

lemma set_pop: "h \<noteq> [] \<Longrightarrow> set h = insert (fst (pop h)) (set (snd (pop h)))"
  using pop_mset [of h] by (metis set_mset_add_mset_insert set_mset_mset)

lemma length_pop: "h \<noteq> [] \<Longrightarrow> length h = Suc (length (snd (pop h)))"
  using pop_mset [of h] by (metis size_add_mset size_mset)

lemma distinct_pop:
  assumes "h \<noteq> []" and "distinct (map g h)"
  shows "distinct (map g (snd (pop h)))" and "g (fst (pop h)) \<notin> g ` set (snd (pop h))"
proof -
  have "mset (map g h) = mset (map g (fst (pop h) # snd (pop h)))"
    using pop_mset [OF assms(1)] by simp
  then have "distinct (map g (fst (pop h) # snd (pop h)))"
    using assms(2) by (metis mset_eq_imp_distinct_iff)
  then show "distinct (map g (snd (pop h)))" and "g (fst (pop h)) \<notin> g ` set (snd (pop h))" by auto
qed

lemma distinct_push:
  assumes "distinct (map g h)" and "g x \<notin> g ` set h"
  shows "distinct (map g (push x h))"
proof -
  have "mset (map g (push x h)) = mset (map g (x # h))" using push_mset [of x h] by simp
  then show ?thesis using assms by (metis (no_types, lifting) distinct.simps(2) image_set list.simps(9) mset_eq_imp_distinct_iff)
qed

end

text \<open>The heap order on the first \<open>n\<close> positions, below parent \<open>k\<close>.\<close>

abbreviation parent :: "nat \<Rightarrow> nat" where
  "parent j \<equiv> (j - 1) div 2"

definition heap_from :: "('a \<Rightarrow> 'o::linorder) \<Rightarrow> nat \<Rightarrow> nat \<Rightarrow> 'a list \<Rightarrow> bool" where
  "heap_from r k n h \<longleftrightarrow> (\<forall>j < n. 0 < j \<and> k \<le> parent j \<longrightarrow> r (h ! parent j) \<le> r (h ! j))"

definition is_heap :: "('a \<Rightarrow> 'o::linorder) \<Rightarrow> 'a list \<Rightarrow> bool" where
  "is_heap r h \<longleftrightarrow> heap_from r 0 (length h) h"

lemma length_swap [simp]: "length (swap i j h) = length h"
  by (simp add: swap_def)

lemma nth_swap:
  "i < length h \<Longrightarrow> j < length h \<Longrightarrow> m < length h \<Longrightarrow>
   swap i j h ! m = (if m = j then h ! i else if m = i then h ! j else h ! m)"
  by (simp add: swap_def nth_list_update)

lemma mset_swap_heap [simp]: "i < length h \<Longrightarrow> j < length h \<Longrightarrow> mset (swap i j h) = mset h"
  using mset_swap [of j h i] by (simp add: swap_def)

lemma child_cases: "0 < m \<Longrightarrow> parent m = i \<longleftrightarrow> m = 2 * i + 1 \<or> m = 2 * i + 2"
  by auto

text \<open>Every position but \<open>i\<close> is in order with its children, and \<open>i\<close>'s parent is in order with \<open>i\<close>'s children.\<close>

definition down_inv :: "('a \<Rightarrow> 'o::linorder) \<Rightarrow> nat \<Rightarrow> nat \<Rightarrow> nat \<Rightarrow> 'a list \<Rightarrow> bool" where
  "down_inv r k i n h \<longleftrightarrow>
     (\<forall>j < n. 0 < j \<and> k \<le> parent j \<and> parent j \<noteq> i \<longrightarrow> r (h ! parent j) \<le> r (h ! j)) \<and>
     (\<forall>j < n. 0 < j \<and> parent j = i \<and> 0 < i \<and> k \<le> parent i \<longrightarrow> r (h ! parent i) \<le> r (h ! j))"

lemma down_inv_step:
  assumes inv: "down_inv r k i n h" and "n \<le> length h" and "k \<le> i" and "j < n" and "0 < j" and "parent j = i"
    and min: "\<forall>m < n. 0 < m \<and> parent m = i \<longrightarrow> r (h ! j) \<le> r (h ! m)" and lt: "r (h ! j) < r (h ! i)"
  shows "down_inv r k j n (swap i j h)"
proof -
  have ij: "i < j" "i < length h" "j < length h" using assms by auto
  have sw: "swap i j h ! m = (if m = j then h ! i else if m = i then h ! j else h ! m)" if "m < n" for m
    using nth_swap [OF ij(2,3)] that assms(2) by simp
  have one: "r (swap i j h ! parent m) \<le> r (swap i j h ! m)"
    if m: "m < n" "0 < m" "k \<le> parent m" "parent m \<noteq> j" for m
  proof -
    have pm: "parent m < n" "parent m < m" using m by auto
    show ?thesis
    proof (cases "parent m = i")
      case True
      then have "swap i j h ! parent m = h ! j" using sw [of i] ij assms(4) by simp
      moreover have "r (h ! j) \<le> r (swap i j h ! m)"
        using True m min lt sw [of m] by (auto simp: less_imp_le)
      ultimately show ?thesis by simp
    next
      case pi: False
      show ?thesis
      proof (cases "m = i")
        case True
        then have "swap i j h ! parent m = h ! parent i" "swap i j h ! m = h ! j"
          using sw pm m ij by auto
        moreover have "r (h ! parent i) \<le> r (h ! j)"
          using inv True m assms(4,5,6) unfolding down_inv_def by blast
        ultimately show ?thesis by simp
      next
        case False
        have "m \<noteq> j" using pi assms(6) by auto
        then have "swap i j h ! parent m = h ! parent m" "swap i j h ! m = h ! m"
          using sw [OF pm(1)] sw [OF m(1)] pi m(4) False by auto
        then show ?thesis using inv m pi unfolding down_inv_def by auto
      qed
    qed
  qed
  have two: "r (swap i j h ! parent j) \<le> r (swap i j h ! m)" if m: "m < n" "0 < m" "parent m = j" for m
  proof -
    have "m \<noteq> j" "m \<noteq> i" using m ij by auto
    then have "swap i j h ! m = h ! m" using sw [OF m(1)] by simp
    moreover have "swap i j h ! parent j = h ! j" using sw [of i] ij assms(4,6) by simp
    moreover have "r (h ! parent m) \<le> r (h ! m)"
      using inv m ij(1) assms(3) unfolding down_inv_def by (metis le_trans less_imp_le nat_neq_iff)
    ultimately show ?thesis using m(3) by simp
  qed
  from one two show ?thesis unfolding down_inv_def by blast
qed

lemma heap_down_correct:
  assumes "down_inv r k i n h" and "n \<le> length h" and "k \<le> i"
  defines "h' \<equiv> heap_down (\<lambda>x y. r x < r y) i n h"
  shows "heap_from r k n h' \<and> mset h' = mset h \<and> length h' = length h \<and> drop n h' = drop n h"
  using assms(1,2,3) unfolding h'_def
proof (induction "\<lambda>x y. r x < r y" i n h rule: heap_down.induct)
  case (1 i n h)
  let ?j1 = "2 * i + 1"
  let ?j = "if ?j1 + 1 < n \<and> r (h ! (?j1 + 1)) < r (h ! ?j1) then ?j1 + 1 else ?j1"
  show ?case
  proof (cases "n \<le> ?j1 \<or> \<not> r (h ! ?j) < r (h ! i)")
    case True
    have stop: "heap_down (\<lambda>x y. r x < r y) i n h = h"
      using True by (subst heap_down.simps) (simp only: Let_def if_True)
    have "r (h ! parent m) \<le> r (h ! m)" if m: "m < n" "0 < m" "parent m = i" for m
      using True m child_cases [OF m(2), of i] by (auto split: if_splits)
    with "1.prems"(1) have "heap_from r k n h" unfolding heap_from_def down_inv_def by blast
    then show ?thesis by (simp add: stop)
  next
    case False
    have go: "heap_down (\<lambda>x y. r x < r y) i n h = heap_down (\<lambda>x y. r x < r y) ?j n (swap i ?j h)"
      using False by (subst heap_down.simps) (simp only: Let_def if_False)
    have jn: "?j < n" "0 < ?j" "parent ?j = i" "i < ?j" using False by auto
    have min: "\<forall>m < n. 0 < m \<and> parent m = i \<longrightarrow> r (h ! ?j) \<le> r (h ! m)"
    proof (intro allI impI)
      fix m assume m: "m < n" "0 < m \<and> parent m = i"
      then have "m = 2 * i + 1 \<or> m = 2 * i + 2" using child_cases [of m i] by simp
      then show "r (h ! ?j) \<le> r (h ! m)" using m(1) by auto
    qed
    have "down_inv r k ?j n (swap i ?j h)"
      using down_inv_step [OF "1.prems"(1,2,3) jn(1,2,3) min] False by blast
    moreover have "k \<le> ?j" using "1.prems"(3) jn(4) by linarith
    moreover have "n \<le> length (swap i ?j h)" using "1.prems"(2) by simp
    ultimately have "heap_from r k n (heap_down (\<lambda>x y. r x < r y) ?j n (swap i ?j h)) \<and>
       mset (heap_down (\<lambda>x y. r x < r y) ?j n (swap i ?j h)) = mset (swap i ?j h) \<and>
       length (heap_down (\<lambda>x y. r x < r y) ?j n (swap i ?j h)) = length (swap i ?j h) \<and>
       drop n (heap_down (\<lambda>x y. r x < r y) ?j n (swap i ?j h)) = drop n (swap i ?j h)"
      using "1.hyps" [OF refl refl] False by blast
    moreover have "mset (swap i ?j h) = mset h"
      using jn "1.prems"(2) by (intro mset_swap_heap) linarith+
    moreover have "drop n (swap i ?j h) = drop n h"
      using jn by (simp only: swap_def drop_update_cancel)
    ultimately show ?thesis by (simp only: go length_swap)
  qed
qed

lemma parent_less: "0 < m \<Longrightarrow> parent m < m"
  by linarith

lemma heap_init_from_correct:
  assumes "heap_from r k (length h) h"
  shows "heap_from r 0 (length h) (heap_init_from (\<lambda>x y. r x < r y) k h) \<and>
         mset (heap_init_from (\<lambda>x y. r x < r y) k h) = mset h \<and>
         length (heap_init_from (\<lambda>x y. r x < r y) k h) = length h"
  using assms
proof (induction k arbitrary: h)
  case 0
  then show ?case by simp
next
  case (Suc k)
  let ?h = "heap_down (\<lambda>x y. r x < r y) k (length h) h"
  have "down_inv r k k (length h) h"
    using Suc.prems unfolding heap_from_def down_inv_def
    using parent_less [of k] by simp (metis leD)
  from heap_down_correct [OF this] have
    "heap_from r k (length h) ?h" "mset ?h = mset h" "length ?h = length h" by auto
  with Suc.IH [of ?h] show ?case by simp
qed

definition up_inv :: "('a \<Rightarrow> 'o::linorder) \<Rightarrow> nat \<Rightarrow> 'a list \<Rightarrow> bool" where
  "up_inv r j h \<longleftrightarrow>
     (\<forall>m < length h. 0 < m \<and> m \<noteq> j \<longrightarrow> r (h ! parent m) \<le> r (h ! m)) \<and>
     (\<forall>m < length h. 0 < m \<and> parent m = j \<and> 0 < j \<longrightarrow> r (h ! parent j) \<le> r (h ! m))"

lemma up_inv_step:
  assumes inv: "up_inv r j h" and j: "j < length h" "0 < j" and lt: "r (h ! j) < r (h ! parent j)"
  shows "up_inv r (parent j) (swap (parent j) j h)"
proof -
  let ?i = "parent j" and ?h = "swap (parent j) j h"
  have ij: "?i < j" "?i < length h" using j by auto
  have sw: "?h ! m = (if m = j then h ! ?i else if m = ?i then h ! j else h ! m)" if "m < length h" for m
    using nth_swap [OF ij(2) j(1) that] .
  have ord: "r (h ! parent m) \<le> r (h ! m)" if "m < length h" "0 < m" "m \<noteq> j" for m
    using inv that unfolding up_inv_def by blast
  have one: "r (?h ! parent m) \<le> r (?h ! m)" if m: "m < length h" "0 < m" "m \<noteq> ?i" for m
  proof -
    have pm: "parent m < length h" "parent m < m" using m by auto
    consider "m = j" | "m \<noteq> j" "parent m = ?i" | "parent m = j" | "m \<noteq> j" "parent m \<noteq> ?i" "parent m \<noteq> j"
      by blast
    then show ?thesis
    proof cases
      case 1
      then show ?thesis using sw [OF ij(2)] sw [OF j(1)] ij lt by simp
    next
      case 2
      then have "r (h ! ?i) \<le> r (h ! m)" using ord m by metis
      then show ?thesis using 2 sw [OF ij(2)] sw [OF m(1)] m ij lt by simp
    next
      case 3
      then have "r (h ! ?i) \<le> r (h ! m)" using inv m j unfolding up_inv_def by blast
      moreover have "m \<noteq> j" using 3 pm by simp
      ultimately show ?thesis using 3 sw [OF j(1)] sw [OF m(1)] m by simp
    next
      case 4
      then show ?thesis using ord m sw [OF pm(1)] sw [OF m(1)] by simp
    qed
  qed
  have two: "r (?h ! parent ?i) \<le> r (?h ! m)" if m: "m < length h" "0 < m" "parent m = ?i" "0 < ?i" for m
  proof -
    have p: "parent ?i < ?i" "parent ?i < length h"
      using parent_less [OF m(4)] ij(2) by (simp_all only: less_trans [of _ "parent j"])
    have a: "?h ! parent ?i = h ! parent ?i" using sw [OF p(2)] p ij by simp
    have b: "r (h ! parent ?i) \<le> r (h ! ?i)" using ord [OF ij(2) m(4)] ij by simp
    show ?thesis
    proof (cases "m = j")
      case True
      then show ?thesis using a b sw [OF j(1)] by simp
    next
      case False
      moreover have "m \<noteq> ?i" using parent_less [OF m(2)] m(3) by simp
      ultimately have "?h ! m = h ! m" using sw [OF m(1)] by simp
      moreover have "r (h ! ?i) \<le> r (h ! m)" using ord [OF m(1,2) False] m(3) by simp
      ultimately show ?thesis using a b by simp
    qed
  qed
  show ?thesis using one two unfolding up_inv_def by simp
qed

lemma heap_up_correct:
  assumes "up_inv r j h" and "j < length h"
  shows "is_heap r (heap_up (\<lambda>x y. r x < r y) j h) \<and> mset (heap_up (\<lambda>x y. r x < r y) j h) = mset h"
  using assms
proof (induction "\<lambda>x y. r x < r y" j h rule: heap_up.induct)
  case (1 j h)
  let ?i = "parent j"
  show ?case
  proof (cases "?i = j \<or> \<not> r (h ! j) < r (h ! ?i)")
    case True
    have stop: "heap_up (\<lambda>x y. r x < r y) j h = h"
      using True by (subst heap_up.simps) (simp only: Let_def if_True)
    have "j = 0 \<or> r (h ! ?i) \<le> r (h ! j)" using True by auto
    then have "is_heap r h"
      using "1.prems"(1) unfolding is_heap_def heap_from_def up_inv_def by (metis less_numeral_extra(3))
    then show ?thesis by (simp add: stop)
  next
    case False
    then have j: "0 < j" "?i < j" by (auto intro: gr0I)
    have go: "heap_up (\<lambda>x y. r x < r y) j h = heap_up (\<lambda>x y. r x < r y) ?i (swap ?i j h)"
      using False by (subst heap_up.simps) (simp only: Let_def if_False)
    have "up_inv r ?i (swap ?i j h)"
      using up_inv_step [OF "1.prems"(1,2) j(1)] False by blast
    moreover have "?i < length (swap ?i j h)" using j "1.prems"(2) by simp
    ultimately have "is_heap r (heap_up (\<lambda>x y. r x < r y) ?i (swap ?i j h)) \<and>
        mset (heap_up (\<lambda>x y. r x < r y) ?i (swap ?i j h)) = mset (swap ?i j h)"
      using "1.hyps" [OF refl] False by blast
    moreover have "mset (swap ?i j h) = mset h"
      using j "1.prems"(2) by (intro mset_swap_heap) linarith+
    ultimately show ?thesis by (simp only: go)
  qed
qed

lemma is_heap_min:
  assumes "is_heap r h" and "m < length h"
  shows "r (h ! 0) \<le> r (h ! m)"
  using assms(2)
proof (induction m rule: less_induct)
  case (less m)
  show ?case
  proof (cases "m = 0")
    case False
    then have "parent m < m" by auto
    then have "r (h ! 0) \<le> r (h ! parent m)" using less by simp
    also have "\<dots> \<le> r (h ! m)"
      using assms(1) less.prems False unfolding is_heap_def heap_from_def by simp
    finally show ?thesis .
  qed simp
qed

lemma heap_Init_correct:
  "is_heap r (heap_Init (\<lambda>x y. r x < r y) h) \<and> mset (heap_Init (\<lambda>x y. r x < r y) h) = mset h"
proof -
  have "heap_from r (length h div 2) (length h) h" unfolding heap_from_def by auto
  from heap_init_from_correct [OF this] show ?thesis by (simp add: heap_Init_def is_heap_def)
qed

lemma heap_Push_mset_inv:
  assumes "is_heap r h"
  shows "is_heap r (heap_Push (\<lambda>x y. r x < r y) x h) \<and> mset (heap_Push (\<lambda>x y. r x < r y) x h) = add_mset x (mset h)"
proof -
  have "up_inv r (length h) (h @ [x])"
    unfolding up_inv_def
  proof (intro conjI allI impI)
    fix m assume m: "m < length (h @ [x])" "0 < m \<and> m \<noteq> length h"
    then have "m < length h" "parent m < length h" using parent_less [of m] by auto
    then show "r ((h @ [x]) ! parent m) \<le> r ((h @ [x]) ! m)"
      using assms m(2) unfolding is_heap_def heap_from_def by (simp add: nth_append)
  next
    fix m assume "m < length (h @ [x])" "0 < m \<and> parent m = length h \<and> 0 < length h"
    then show "r ((h @ [x]) ! parent (length h)) \<le> r ((h @ [x]) ! m)" using parent_less [of m] by simp
  qed
  from heap_up_correct [OF this] show ?thesis by (simp add: heap_Push_def)
qed

lemma heap_up_mset: "j < length h \<Longrightarrow> mset (heap_up lt j h) = mset h"
proof (induction lt j h rule: heap_up.induct)
  case (1 lt j h)
  show ?case
  proof (cases "parent j = j \<or> \<not> lt (h ! j) (h ! parent j)")
    case True
    then show ?thesis by (subst heap_up.simps) (simp only: Let_def if_True)
  next
    case False
    have "heap_up lt j h = heap_up lt (parent j) (swap (parent j) j h)"
      using False by (subst heap_up.simps) (simp only: Let_def if_False)
    moreover have "parent j < length h" using "1.prems" by linarith
    ultimately show ?thesis using "1.IH" [OF refl False] "1.prems" by simp
  qed
qed

lemma heap_down_keeps:
  assumes "n \<le> length h"
  shows "mset (heap_down lt i n h) = mset h \<and> length (heap_down lt i n h) = length h \<and>
         drop n (heap_down lt i n h) = drop n h"
  using assms
proof (induction lt i n h rule: heap_down.induct)
  case (1 lt i n h)
  let ?j1 = "2 * i + 1"
  let ?j = "if ?j1 + 1 < n \<and> lt (h ! (?j1 + 1)) (h ! ?j1) then ?j1 + 1 else ?j1"
  show ?case
  proof (cases "n \<le> ?j1 \<or> \<not> lt (h ! ?j) (h ! i)")
    case True
    then show ?thesis by (subst (1 2 3) heap_down.simps) (simp only: Let_def if_True)
  next
    case False
    have go: "heap_down lt i n h = heap_down lt ?j n (swap i ?j h)"
      using False by (subst heap_down.simps) (simp only: Let_def if_False)
    have jn: "?j < n" "i < ?j" using False by auto
    have "mset (swap i ?j h) = mset h" using jn "1.prems" by (intro mset_swap_heap) linarith+
    moreover have "drop n (swap i ?j h) = drop n h" using jn by (simp only: swap_def drop_update_cancel)
    moreover have "n \<le> length (swap i ?j h)" using "1.prems" by simp
    ultimately show ?thesis using "1.IH" [OF refl refl False] by (simp only: go length_swap)
  qed
qed

lemma heap_Pop_keeps:
  assumes "h \<noteq> []"
  shows "fst (heap_Pop lt h) = h ! 0" and "mset h = add_mset (fst (heap_Pop lt h)) (mset (snd (heap_Pop lt h)))"
proof -
  let ?n = "length h - 1" and ?h = "swap 0 (length h - 1) h"
  let ?g = "heap_down lt 0 ?n ?h"
  have n: "?n < length h" "0 < length h" using assms by auto
  have g: "mset ?g = mset ?h" "length ?g = length h" "drop ?n ?g = drop ?n ?h"
    using heap_down_keeps [of ?n ?h lt 0] by auto
  have d: "drop ?n ?g = [?g ! ?n]" "drop ?n ?h = [?h ! ?n]"
    using n g(2) by (simp_all add: Cons_nth_drop_Suc [symmetric])
  then have last: "?g ! ?n = h ! 0" using g(3) nth_swap [OF n(2,1,1)] by simp
  then show "fst (heap_Pop lt h) = h ! 0" by (simp add: heap_Pop_def Let_def)
  have "mset ?g = mset (take ?n ?g) + mset (drop ?n ?g)"
    by (metis append_take_drop_id mset_append)
  then have "mset h = add_mset (?g ! ?n) (mset (take ?n ?g))"
    using g(1) mset_swap_heap [OF n(2,1)] d(1) by simp
  then show "mset h = add_mset (fst (heap_Pop lt h)) (mset (snd (heap_Pop lt h)))"
    by (simp add: heap_Pop_def Let_def)
qed

lemma heap_Pop_heap:
  assumes "is_heap r h" and "h \<noteq> []"
  shows "is_heap r (snd (heap_Pop (\<lambda>x y. r x < r y) h))"
proof -
  let ?n = "length h - 1" and ?h = "swap 0 (length h - 1) h"
  let ?g = "heap_down (\<lambda>x y. r x < r y) 0 ?n ?h"
  have n: "?n < length h" "0 < length h" using assms(2) by auto
  have "down_inv r 0 0 ?n ?h"
    unfolding down_inv_def
  proof (intro conjI allI impI)
    fix j assume j: "j < ?n" "0 < j \<and> 0 \<le> parent j \<and> parent j \<noteq> 0"
    have pj: "parent j < ?n" "parent j \<noteq> 0" using j parent_less [of j] by auto
    have "?h ! j = h ! j" "?h ! parent j = h ! parent j"
      using nth_swap [OF n(2,1), of j] nth_swap [OF n(2,1), of "parent j"] j pj by simp_all
    then show "r (?h ! parent j) \<le> r (?h ! j)"
      using assms(1) j unfolding is_heap_def heap_from_def by simp
  qed simp
  from heap_down_correct [OF this] have "heap_from r 0 ?n ?g" "length ?g = length h" by simp_all
  then show ?thesis
    using parent_less unfolding is_heap_def heap_from_def heap_Pop_def Let_def
    by (simp add: less_trans)
qed

interpretation array_heap: priority_queue r "is_heap r" "heap_Init (\<lambda>x y. r x < r y)"
    "heap_Push (\<lambda>x y. r x < r y)" "heap_Pop (\<lambda>x y. r x < r y)"
  for r :: "'a \<Rightarrow> 'o::linorder"
proof unfold_locales
  show "is_heap r []" by (simp add: is_heap_def heap_from_def)
  show "is_heap r (heap_Init (\<lambda>x y. r x < r y) h)" "mset (heap_Init (\<lambda>x y. r x < r y) h) = mset h" for h
    using heap_Init_correct [of r h] by simp_all
  show "is_heap r h \<Longrightarrow> is_heap r (heap_Push (\<lambda>x y. r x < r y) x h)" for h x
    using heap_Push_mset_inv [of r h x] by simp
  show "mset (heap_Push (\<lambda>x y. r x < r y) x h) = add_mset x (mset h)" for h x
    by (simp add: heap_Push_def heap_up_mset)
  show "is_heap r h \<Longrightarrow> y \<in> set h \<Longrightarrow> r (h ! 0) \<le> r y" for h y
    using is_heap_min by (metis in_set_conv_nth)
  show "is_heap r h \<Longrightarrow> h \<noteq> [] \<Longrightarrow> is_heap r (snd (heap_Pop (\<lambda>x y. r x < r y) h))" for h
    by (rule heap_Pop_heap)
  show "h \<noteq> [] \<Longrightarrow> fst (heap_Pop (\<lambda>x y. r x < r y) h) = h ! 0"
    "h \<noteq> [] \<Longrightarrow> mset h = add_mset (fst (heap_Pop (\<lambda>x y. r x < r y) h)) (mset (snd (heap_Pop (\<lambda>x y. r x < r y) h)))" for h
    by (rule heap_Pop_keeps, assumption)+
qed

section \<open>Streaming iterators\<close>

text \<open>\<open>dataEnd\<close> is \<open>None\<close> for the \<open>-1\<close> of a file without footer; \<open>it_pos\<close> is the position of the handle.\<close>

record sstableIterator =
  it_f :: bytes
  it_pos :: nat
  dataEnd :: "nat option"
  it_key :: bytes
  it_value :: "bytes option"
  it_err :: "entry_error option"

definition newSSTableIterator :: "(path \<rightharpoonup> bytes) \<Rightarrow> path \<Rightarrow> sstableIterator option" where
  "newSSTableIterator fs p =
     (case fs p of
        None \<Rightarrow> None
      | Some f \<Rightarrow> Some \<lparr>it_f = f, it_pos = 0, dataEnd = sstableDataEnd f, it_key = [], it_value = None,
                        it_err = None\<rparr>)"

definition it_Next :: "sstableIterator \<Rightarrow> bool \<times> sstableIterator" where
  "it_Next it =
     (if it_err it \<noteq> None then (False, it)
      else if (case dataEnd it of None \<Rightarrow> False | Some d \<Rightarrow> d \<le> it_pos it) then (False, it)
      else case read_entry (it_f it) (it_pos it) of
        Inl (KeyLenErr EOF) \<Rightarrow> (False, it)
      | Inl e \<Rightarrow> (False, it\<lparr>it_err := Some e\<rparr>)
      | Inr ((k, v), pos') \<Rightarrow> (True, it\<lparr>it_pos := pos', it_key := k, it_value := v\<rparr>))"

section \<open>The k-way merge\<close>

record mergeSource =
  ms_it :: sstableIterator
  srcIdx :: nat
  ms_key :: "bytes option"
  ms_value :: "bytes option"
  ms_prev :: "bytes option"

datatype merge_error = NotAscending nat | IterError entry_error

text \<open>\<open>mergeHeap.Less\<close>: by key, the larger source index first on equal keys.\<close>

definition heap_Less :: "mergeSource \<Rightarrow> mergeSource \<Rightarrow> bool" where
  "heap_Less a b =
     (let c = bytes_Compare (case ms_key a of None \<Rightarrow> [] | Some k \<Rightarrow> k) (case ms_key b of None \<Rightarrow> [] | Some k \<Rightarrow> k)
      in if c \<noteq> 0 then c < 0 else srcIdx b < srcIdx a)"

definition pull :: "mergeSource \<Rightarrow> merge_error + mergeSource" where
  "pull s =
     (let (more, it) = it_Next (ms_it s)
      in if more then
           (let k = it_key it
            in if (case ms_prev s of None \<Rightarrow> False | Some p \<Rightarrow> bytes_Compare k p \<le> 0)
               then Inl (NotAscending (srcIdx s))
               else Inr (s\<lparr>ms_it := it, ms_prev := Some k, ms_key := Some k, ms_value := it_value it\<rparr>))
         else case it_err it of
           Some e \<Rightarrow> Inl (IterError e)
         | None \<Rightarrow> Inr (s\<lparr>ms_it := it, ms_key := None, ms_value := None\<rparr>))"

definition advance :: "mergeSource \<Rightarrow> mergeSource list \<Rightarrow> merge_error + mergeSource list" where
  "advance s h =
     (case pull s of
        Inl e \<Rightarrow> Inl e
      | Inr s' \<Rightarrow> Inr (if ms_key s' \<noteq> None then heap_Push heap_Less s' h else h))"

record mergeIterator =
  mi_h :: "mergeSource list"
  curKey :: bytes
  curVal :: "bytes option"
  mi_err :: "merge_error option"

text \<open>The loop of \<open>newMergeIterator\<close>: first entry of every source, then \<open>heap.Init\<close>.\<close>

fun pull_sources :: "nat \<Rightarrow> sstableIterator list \<Rightarrow> mergeSource list \<Rightarrow> merge_error + mergeSource list" where
  "pull_sources idx [] h = Inr h"
| "pull_sources idx (it # iters) h =
     (case pull \<lparr>ms_it = it, srcIdx = idx, ms_key = None, ms_value = None, ms_prev = None\<rparr> of
        Inl e \<Rightarrow> Inl e
      | Inr s \<Rightarrow> pull_sources (idx + 1) iters (if ms_key s \<noteq> None then h @ [s] else h))"

definition newMergeIterator :: "sstableIterator list \<Rightarrow> merge_error + mergeIterator" where
  "newMergeIterator iters =
     (case pull_sources 0 iters [] of
        Inl e \<Rightarrow> Inl e
      | Inr h \<Rightarrow> Inr \<lparr>mi_h = heap_Init heap_Less h, curKey = [], curVal = None, mi_err = None\<rparr>)"

text \<open>Bytes still to read, the measure of both loops.\<close>

definition src_size :: "mergeSource \<Rightarrow> nat" where
  "src_size s = Suc (length (it_f (ms_it s)) - it_pos (ms_it s))"

definition heap_size :: "mergeSource list \<Rightarrow> nat" where
  "heap_size h = sum_list (map src_size h)"

definition merge_rank :: "mergeSource \<Rightarrow> bytes \<times> int" where
  "merge_rank s = ((case ms_key s of None \<Rightarrow> [] | Some k \<Rightarrow> k), - int (srcIdx s))"

lemma heap_Less_rank: "heap_Less = (\<lambda>a b. merge_rank a < merge_rank b)"
  by (auto simp: fun_eq_iff heap_Less_def merge_rank_def Let_def)

lemma it_Next_progress: "it_Next it = (True, it') \<Longrightarrow> it_pos it < length (it_f it) \<and> it_pos it < it_pos it' \<and> it_f it' = it_f it"
  using read_entry_progress
  by (auto simp: it_Next_def split: if_splits sum.splits prod.splits entry_error.splits io_error.splits option.splits)

lemma pull_progress: "pull s = Inr s' \<Longrightarrow> ms_key s' \<noteq> None \<Longrightarrow> src_size s' < src_size s"
  using it_Next_progress [of "ms_it s"]
  by (auto simp: pull_def Let_def src_size_def split: prod.splits if_splits option.splits)

lemma advance_progress:
  assumes "h \<noteq> []" and "advance (fst (heap_Pop heap_Less h)) (snd (heap_Pop heap_Less h)) = Inr h'"
  shows "heap_size h' < heap_size h"
proof -
  let ?s = "fst (heap_Pop heap_Less h)" and ?g = "snd (heap_Pop heap_Less h)"
  have h: "heap_size h = src_size ?s + heap_size ?g"
    unfolding heap_size_def heap_Less_rank by (rule array_heap.sum_pop [OF assms(1)])
  obtain s' where s': "pull ?s = Inr s'" "h' = (if ms_key s' \<noteq> None then heap_Push heap_Less s' ?g else ?g)"
    using assms(2) by (auto simp: advance_def split: sum.splits)
  have p: "heap_size (heap_Push heap_Less s' ?g) = src_size s' + heap_size ?g"
    unfolding heap_size_def heap_Less_rank by (rule array_heap.sum_push)
  show ?thesis
  proof (cases "ms_key s' = None")
    case True
    then show ?thesis using s'(2) h by (simp add: src_size_def)
  next
    case False
    then show ?thesis using s' p h pull_progress [OF s'(1) False] by simp
  qed
qed

function drop_dups :: "bytes \<Rightarrow> mergeSource list \<Rightarrow> merge_error + mergeSource list" where
  "drop_dups dupKey h =
     (if h \<noteq> [] \<and> ms_key (h ! 0) = Some dupKey then
        (case advance (fst (heap_Pop heap_Less h)) (snd (heap_Pop heap_Less h)) of
           Inl e \<Rightarrow> Inl e
         | Inr h' \<Rightarrow> drop_dups dupKey h')
      else Inr h)"
  by pat_completeness auto
termination
  by (relation "measure (\<lambda>(k, h). heap_size h)") (auto simp: advance_progress)

declare drop_dups.simps [simp del]

definition mi_Next :: "mergeIterator \<Rightarrow> bool \<times> mergeIterator" where
  "mi_Next m =
     (if mi_err m \<noteq> None \<or> mi_h m = [] then (False, m)
      else
        (let (top, h) = heap_Pop heap_Less (mi_h m);
             dupKey = (case ms_key top of None \<Rightarrow> [] | Some k \<Rightarrow> k);
             m1 = m\<lparr>mi_h := h, curKey := dupKey, curVal := ms_value top\<rparr>
         in case advance top h of
              Inl e \<Rightarrow> (False, m1\<lparr>mi_err := Some e\<rparr>)
            | Inr h' \<Rightarrow>
               (case drop_dups dupKey h' of
                  Inl e \<Rightarrow> (False, m1\<lparr>mi_h := h', mi_err := Some e\<rparr>)
                | Inr h'' \<Rightarrow> (True, m1\<lparr>mi_h := h''\<rparr>))))"

section \<open>Writing the merged table\<close>

text \<open>The variables of the write loop of \<open>MergeSSTable\<close>.\<close>

record MergeOut =
  mo_data :: bytes
  mo_blockIdx :: "BlockIndexEntry list"
  mo_keys :: "bytes list"
  mo_minKey :: bytes
  mo_maxKey :: bytes
  mo_dataOffset :: nat
  mo_count :: nat

definition merge_start :: MergeOut where
  "merge_start = \<lparr>mo_data = [], mo_blockIdx = [], mo_keys = [], mo_minKey = [], mo_maxKey = [],
                  mo_dataOffset = 0, mo_count = 0\<rparr>"

definition merge_write :: "bytes \<Rightarrow> bytes option \<Rightarrow> MergeOut \<Rightarrow> MergeOut" where
  "merge_write k v mo =
     (let bi = mo_count mo div SSTableBlockSize;
          idx1 = (if mo_count mo mod SSTableBlockSize = 0
                  then mo_blockIdx mo @ [\<lparr>LastKey = [], BlockOffset = mo_dataOffset mo\<rparr>] else mo_blockIdx mo);
          idx2 = idx1[bi := (idx1 ! bi)\<lparr>LastKey := k\<rparr>];
          hdr = put_be 4 (length k) @ k;
          (chunk, len) = (case v of
             None \<Rightarrow> (put_be 4 tombstoneValLen, 8 + length k)
           | Some w \<Rightarrow> (put_be 4 (length w) @ w, 8 + length k + length w))
      in \<lparr>mo_data = mo_data mo @ hdr @ chunk, mo_blockIdx = idx2, mo_keys = mo_keys mo @ [k],
          mo_minKey = (if mo_count mo = 0 then k else mo_minKey mo), mo_maxKey = k,
          mo_dataOffset = mo_dataOffset mo + len, mo_count = mo_count mo + 1\<rparr>)"

lemma drop_dups_size: "drop_dups k h = Inr h' \<Longrightarrow> heap_size h' \<le> heap_size h"
proof (induction k h rule: drop_dups.induct)
  case (1 k h)
  show ?case
  proof (cases "h \<noteq> [] \<and> ms_key (h ! 0) = Some k")
    case True
    then obtain h1 where h1: "advance (fst (heap_Pop heap_Less h)) (snd (heap_Pop heap_Less h)) = Inr h1"
        "drop_dups k h1 = Inr h'"
      using "1.prems" by (subst (asm) drop_dups.simps) (auto split: sum.splits)
    then show ?thesis using "1.IH" [OF True h1] advance_progress [OF _ h1(1)] True by simp
  next
    case False
    then show ?thesis using "1.prems" by (subst (asm) drop_dups.simps) (simp split: if_splits)
  qed
qed

lemma mi_Next_progress:
  assumes "mi_Next m = (True, m')"
  shows "heap_size (mi_h m') < heap_size (mi_h m)"
proof -
  obtain h1 k h2 where "mi_h m \<noteq> []"
      "advance (fst (heap_Pop heap_Less (mi_h m))) (snd (heap_Pop heap_Less (mi_h m))) = Inr h1"
      "drop_dups k h1 = Inr h2" "mi_h m' = h2"
    using assms by (auto simp: mi_Next_def Let_def split: if_splits prod.splits sum.splits)
  then show ?thesis using advance_progress drop_dups_size by (metis le_less_trans)
qed

function merge_loop :: "mergeIterator \<Rightarrow> MergeOut \<Rightarrow> mergeIterator \<times> MergeOut" where
  "merge_loop m mo =
     (if fst (mi_Next m)
      then merge_loop (snd (mi_Next m)) (merge_write (curKey (snd (mi_Next m))) (curVal (snd (mi_Next m))) mo)
      else (snd (mi_Next m), mo))"
  by pat_completeness auto
termination
proof (relation "measure (\<lambda>(m, mo). heap_size (mi_h m))")
  fix m :: mergeIterator and mo :: MergeOut
  assume "fst (mi_Next m)"
  then have "mi_Next m = (True, snd (mi_Next m))" by (metis prod.collapse)
  from mi_Next_progress [OF this]
  show "((snd (mi_Next m), merge_write (curKey (snd (mi_Next m))) (curVal (snd (mi_Next m))) mo), (m, mo))
      \<in> measure (\<lambda>(m, mo). heap_size (mi_h m))" by simp
qed simp

declare merge_loop.simps [simp del]

definition merged_path :: "path \<Rightarrow> nat \<Rightarrow> path" where
  "merged_path dir now = dir @ ascii ''/sstable_merged_'' @ decimal now @ ascii ''.sst''"

fun open_iters :: "(path \<rightharpoonup> bytes) \<Rightarrow> SSTableMata list \<Rightarrow> sstableIterator list option" where
  "open_iters fs [] = Some []"
| "open_iters fs (m # ms) =
     (case newSSTableIterator fs (Filepath m) of
        None \<Rightarrow> None
      | Some it \<Rightarrow> (case open_iters fs ms of None \<Rightarrow> None | Some iters \<Rightarrow> Some (it # iters)))"

text \<open>
  \<open>MergeSSTable\<close>: the inner \<open>None\<close> is the nil result of a failed merge, the outer one a panic. A failure after
  \<open>os.Create\<close> leaves a file behind.
\<close>

definition MergeSSTable ::
    "FloatMath \<Rightarrow> (PartitionedBloom \<Rightarrow> bytes list) \<Rightarrow> path \<Rightarrow> nat \<Rightarrow> IOEnv \<Rightarrow> SSTableMata list \<Rightarrow> nat \<Rightarrow>
     SSTable \<Rightarrow> (SSTableMata option \<times> SSTable) option" where
  "MergeSSTable fm order dir now io files targetLevel ss =
     (if files = [] then Some (None, ss)
      else case open_iters (sst_fs ss) files of
        None \<Rightarrow> Some (None, ss)
      | Some iters \<Rightarrow>
         (case newMergeIterator iters of
            Inl _ \<Rightarrow> Some (None, ss)
          | Inr mi \<Rightarrow>
             (if \<not> create_ok io then Some (None, ss)
              else
                (let fullPath = merged_path dir now;
                     leave = (\<lambda>f. ss\<lparr>sst_fs := (sst_fs ss)(fullPath \<mapsto> f)\<rparr>);
                     (mi', mo) = merge_loop mi merge_start
                 in if \<not> write_ok io \<or> mi_err mi' \<noteq> None then Some (None, leave (partial_write io))
                    else if mo_count mo = 0 then Some (None, leave [])
                    else case BuildPartitionedBloom fm (mo_keys mo) DefaultNamespaceSep defaultBloomFPRate of
                      None \<Rightarrow> None
                    | Some pb \<Rightarrow>
                       (if \<not> bloom_ok io
                        then Some (None, leave (mo_data mo @ enc_index (mo_blockIdx mo) @ partial_write io))
                        else
                          (let image = sst_image (mo_data mo) (mo_blockIdx mo) (pb_Encode (order pb) pb);
                               ss1 = (leave image)\<lparr>indexCache := (indexCache ss)(fullPath \<mapsto> mo_blockIdx mo)\<rparr>
                           in if \<not> sync_ok io then Some (None, ss1)
                              else
                                (let ss2 = ss1\<lparr>bloomCache := (bloomCache ss1)(fullPath \<mapsto> Some pb)\<rparr>
                                 in if \<not> stat_ok io then Some (None, ss2)
                                    else
                                      (let newMeta = \<lparr>Level = targetLevel, Filepath = fullPath,
                                             MinKey = mo_minKey mo, MaxKey = mo_maxKey mo, Size = length image,
                                             MaxKeyLoaded = True, metaOnce = False, ptr = next_ptr ss2\<rparr>
                                       in Some (Some newMeta, AddMata newMeta ss2)))))))))"

end
