(* ===== verification/SkipList.thy ===== *)
theory SkipList
  imports Prelude
begin

text \<open>
  The skip list of \<open>storage/zstorage/memtable.go\<close> as a pointer structure. The nodes of one list
  live in a store (\<open>sl_nodes\<close>); a \<open>*SkipNode\<close> is an index into it, \<open>nil\<close> is \<open>None\<close>, allocation
  appends. The operations follow the code line by line on that store. An operation that would
  dereference \<open>nil\<close>, index a \<open>Next\<close> slice out of range or loop forever has the value \<open>None\<close>; the
  lemmas show that on a well-formed list none of this happens.

  The representation predicate \<open>chain\<close> says that level \<open>i\<close> links exactly the nodes whose tower is
  higher than \<open>i\<close>, in strictly ascending key order. From it: \<open>search\<close>, \<open>firstGTE\<close> and
  \<open>collectAllEntry\<close> agree with the sorted association list of the contents, \<open>insert\<close> is \<open>ins_sorted\<close>
  on it and keeps \<open>size\<close> and \<open>byteSize\<close> exact, \<open>delete\<close> removes the key.
\<close>

section \<open>Data\<close>

record SkipNode =
  Next :: "nat option list"
  Key :: bytes
  Value :: "bytes option"

record SkipList =
  sl_size :: nat
  sl_level :: nat
  sl_head :: nat
  sl_byteSize :: int
  sl_nodes :: "SkipNode list"

definition newSkipNode :: "nat \<Rightarrow> bytes \<Rightarrow> bytes option \<Rightarrow> SkipNode" where
  "newSkipNode lvl key value = \<lparr>Next = replicate lvl None, Key = key, Value = value\<rparr>"

definition newSkipList :: "nat \<Rightarrow> SkipList" where
  "newSkipList maxLevel =
     \<lparr>sl_size = 0, sl_level = 0, sl_head = 0, sl_byteSize = 0,
      sl_nodes = [newSkipNode maxLevel [] None]\<rparr>"

text \<open>\<open>p.Next[i]\<close>: \<open>None\<close> when \<open>p\<close> does not exist or \<open>i\<close> is out of range (a panic).\<close>

definition next_at :: "SkipNode list \<Rightarrow> nat \<Rightarrow> nat \<Rightarrow> nat option option" where
  "next_at h p i =
     (if p < length h \<and> i < length (Next (h ! p)) then Some (Next (h ! p) ! i) else None)"

text \<open>
  \<open>randomLevel\<close>: \<open>coins n\<close> is the outcome of the \<open>n\<close>-th test \<open>rand.Float64() < probability\<close>.
  The test is evaluated before \<open>level < maxLevel\<close>.
\<close>

function randomLevel_loop :: "nat \<Rightarrow> (nat \<Rightarrow> bool) \<Rightarrow> nat \<Rightarrow> nat" where
  "randomLevel_loop maxLevel coins lvl =
     (if coins (lvl - 1) \<and> lvl < maxLevel then randomLevel_loop maxLevel coins (lvl + 1) else lvl)"
  by pat_completeness auto
termination
  by (relation "measure (\<lambda>(maxLevel, coins, lvl). maxLevel - lvl)") auto

declare randomLevel_loop.simps [simp del]

definition randomLevel :: "nat \<Rightarrow> (nat \<Rightarrow> bool) \<Rightarrow> nat" where
  "randomLevel maxLevel coins = randomLevel_loop maxLevel coins 1"

section \<open>Operations\<close>

text \<open>
  The inner loop shared by \<open>search\<close>, \<open>firstGTE\<close>, \<open>insert\<close> and \<open>delete\<close>:
  \<open>for p.Next[i] != nil && bytes.Compare(p.Next[i].Key, key) < 0 { p = p.Next[i] }\<close>.
\<close>

partial_function (option) walk :: "SkipNode list \<Rightarrow> bytes \<Rightarrow> nat \<Rightarrow> nat \<Rightarrow> nat option" where
  "walk h key i p =
     (case next_at h p i of
        None \<Rightarrow> None
      | Some None \<Rightarrow> Some p
      | Some (Some q) \<Rightarrow>
          (if bytes_Compare (Key (h ! q)) key < 0 then walk h key i q else Some p))"

text \<open>The outer loop \<open>for i := sl.level - 1; i >= 0; i--\<close>; with the \<open>update\<close> slice for the writers.\<close>

primrec descend :: "SkipNode list \<Rightarrow> bytes \<Rightarrow> nat \<Rightarrow> nat \<Rightarrow> nat option" where
  "descend h key 0 p = Some p"
| "descend h key (Suc i) p =
     (case walk h key i p of None \<Rightarrow> None | Some p' \<Rightarrow> descend h key i p')"

primrec descend_update ::
    "SkipNode list \<Rightarrow> bytes \<Rightarrow> nat \<Rightarrow> nat \<Rightarrow> nat option list \<Rightarrow> (nat \<times> nat option list) option" where
  "descend_update h key 0 p upd = Some (p, upd)"
| "descend_update h key (Suc i) p upd =
     (case walk h key i p of
        None \<Rightarrow> None
      | Some p' \<Rightarrow> if i < length upd then descend_update h key i p' (upd[i := Some p']) else None)"

definition search :: "SkipList \<Rightarrow> bytes \<Rightarrow> (bytes option \<times> bool) option" where
  "search sl key =
     (case descend (sl_nodes sl) key (sl_level sl) (sl_head sl) of
        None \<Rightarrow> None
      | Some p \<Rightarrow>
         (case next_at (sl_nodes sl) p 0 of
            None \<Rightarrow> None
          | Some None \<Rightarrow> Some (None, False)
          | Some (Some q) \<Rightarrow>
              (if bytes_Compare (Key (sl_nodes sl ! q)) key = 0
               then Some (Value (sl_nodes sl ! q), True) else Some (None, False))))"

definition firstGTE :: "SkipList \<Rightarrow> bytes \<Rightarrow> nat option option" where
  "firstGTE sl key =
     (case descend (sl_nodes sl) key (sl_level sl) (sl_head sl) of
        None \<Rightarrow> None
      | Some p \<Rightarrow> next_at (sl_nodes sl) p 0)"

text \<open>\<open>for i := 0; i < newLevel; i++ { newNode.Next[i] = update[i].Next[i]; update[i].Next[i] = newNode }\<close>\<close>

primrec link_levels ::
    "nat option list \<Rightarrow> nat \<Rightarrow> nat \<Rightarrow> SkipNode list \<Rightarrow> SkipNode list option" where
  "link_levels upd n 0 h = Some h"
| "link_levels upd n (Suc j) h =
     (case link_levels upd n j h of
        None \<Rightarrow> None
      | Some h' \<Rightarrow>
         (if length upd \<le> j then None
          else case upd ! j of
            None \<Rightarrow> None
          | Some u \<Rightarrow>
             (case next_at h' u j of
                None \<Rightarrow> None
              | Some nx \<Rightarrow>
                  if n < length h' \<and> j < length (Next (h' ! n)) then
                    (let h1 = h'[n := (h' ! n)\<lparr>Next := (Next (h' ! n))[j := nx]\<rparr>]
                     in Some (h1[u := (h1 ! u)\<lparr>Next := (Next (h1 ! u))[j := Some n]\<rparr>]))
                  else None)))"

text \<open>\<open>for i := sl.level; i < newLevel; i++ { update[i] = sl.head }\<close>\<close>

definition raise_update :: "nat \<Rightarrow> nat \<Rightarrow> nat \<Rightarrow> nat option list \<Rightarrow> nat option list option" where
  "raise_update lvl newLevel head upd =
     (if newLevel \<le> lvl then Some upd
      else if length upd < newLevel then None
      else Some (map (\<lambda>i. if lvl \<le> i \<and> i < newLevel then Some head else upd ! i) [0..<length upd]))"

definition vlen :: "bytes option \<Rightarrow> int" where
  "vlen v = (case v of None \<Rightarrow> 0 | Some b \<Rightarrow> int (length b))"

definition insert_sl ::
    "nat \<Rightarrow> (nat \<Rightarrow> bool) \<Rightarrow> SkipList \<Rightarrow> bytes \<Rightarrow> bytes option \<Rightarrow> (SkipList \<times> int) option" where
  "insert_sl maxLevel coins sl key value =
     (case descend_update (sl_nodes sl) key (sl_level sl) (sl_head sl) (replicate maxLevel None) of
        None \<Rightarrow> None
      | Some (p, upd) \<Rightarrow>
         (case next_at (sl_nodes sl) p 0 of
            None \<Rightarrow> None
          | Some nx \<Rightarrow>
             (case (case nx of None \<Rightarrow> None
                    | Some q \<Rightarrow> if bytes_Compare (Key (sl_nodes sl ! q)) key = 0 then Some q else None) of
                Some q \<Rightarrow>
                  (let delta = vlen value - vlen (Value (sl_nodes sl ! q))
                   in Some (sl\<lparr>sl_nodes := (sl_nodes sl)[q := (sl_nodes sl ! q)\<lparr>Value := value\<rparr>],
                              sl_byteSize := sl_byteSize sl + delta\<rparr>, delta))
              | None \<Rightarrow>
                  (let newLevel = randomLevel maxLevel coins;
                       n = length (sl_nodes sl);
                       h = sl_nodes sl @ [newSkipNode newLevel key value]
                   in case raise_update (sl_level sl) newLevel (sl_head sl) upd of
                        None \<Rightarrow> None
                      | Some upd' \<Rightarrow>
                         (case link_levels upd' n newLevel h of
                            None \<Rightarrow> None
                          | Some h' \<Rightarrow>
                             (let delta = int (length key) + vlen value
                              in Some (sl\<lparr>sl_size := sl_size sl + 1,
                                          sl_level := max (sl_level sl) newLevel,
                                          sl_nodes := h',
                                          sl_byteSize := sl_byteSize sl + delta\<rparr>, delta)))))))"

text \<open>\<open>collectAllEntry\<close>: follow \<open>Next[0]\<close> from the head.\<close>

partial_function (option) collect_from ::
    "SkipNode list \<Rightarrow> nat option \<Rightarrow> (bytes \<times> bytes option) list \<Rightarrow>
     (bytes \<times> bytes option) list option" where
  "collect_from h p acc =
     (case p of
        None \<Rightarrow> Some acc
      | Some a \<Rightarrow>
         (case next_at h a 0 of
            None \<Rightarrow> None
          | Some nx \<Rightarrow> collect_from h nx (acc @ [(Key (h ! a), Value (h ! a))])))"

declare walk.simps [code] collect_from.simps [code]

definition collectAllEntry :: "SkipList \<Rightarrow> (bytes \<times> bytes option) list option" where
  "collectAllEntry sl =
     (case next_at (sl_nodes sl) (sl_head sl) 0 of
        None \<Rightarrow> None
      | Some p \<Rightarrow> collect_from (sl_nodes sl) p [])"

text \<open>
  \<open>delete\<close>: unlink the node level by level, stop at the first level that does not point to it,
  then lower \<open>level\<close> while the top level is empty. \<open>byteSize\<close> is not adjusted by the code.
\<close>

fun unlink_levels ::
    "nat option list \<Rightarrow> nat \<Rightarrow> nat list \<Rightarrow> SkipNode list \<Rightarrow> SkipNode list option" where
  "unlink_levels upd p [] h = Some h"
| "unlink_levels upd p (i # is) h =
     (if length upd \<le> i then None
      else case upd ! i of
        None \<Rightarrow> None
      | Some u \<Rightarrow>
         (case next_at h u i of
            None \<Rightarrow> None
          | Some nx \<Rightarrow>
             (if nx \<noteq> Some p then Some h
              else case next_at h p i of
                None \<Rightarrow> None
              | Some nx' \<Rightarrow>
                  unlink_levels upd p is (h[u := (h ! u)\<lparr>Next := (Next (h ! u))[i := nx']\<rparr>]))))"

primrec lower_level :: "SkipNode list \<Rightarrow> nat \<Rightarrow> nat \<Rightarrow> nat option" where
  "lower_level h head 0 = Some 0"
| "lower_level h head (Suc l) =
     (case next_at h head l of
        None \<Rightarrow> None
      | Some None \<Rightarrow> lower_level h head l
      | Some (Some _) \<Rightarrow> Some (Suc l))"

definition delete_sl :: "nat \<Rightarrow> SkipList \<Rightarrow> bytes \<Rightarrow> (SkipList \<times> bool) option" where
  "delete_sl maxLevel sl key =
     (case descend_update (sl_nodes sl) key (sl_level sl) (sl_head sl) (replicate maxLevel None) of
        None \<Rightarrow> None
      | Some (p, upd) \<Rightarrow>
         (case next_at (sl_nodes sl) p 0 of
            None \<Rightarrow> None
          | Some None \<Rightarrow> Some (sl, False)
          | Some (Some q) \<Rightarrow>
             (if bytes_Compare (Key (sl_nodes sl ! q)) key \<noteq> 0 then Some (sl, False)
              else case unlink_levels upd q [0..<sl_level sl] (sl_nodes sl) of
                None \<Rightarrow> None
              | Some h' \<Rightarrow>
                 (case lower_level h' (sl_head sl) (sl_level sl) of
                    None \<Rightarrow> None
                  | Some lvl \<Rightarrow>
                      Some (sl\<lparr>sl_nodes := h', sl_level := lvl, sl_size := sl_size sl - 1\<rparr>, True)))))"

section \<open>Well-formed lists\<close>

abbreviation height :: "SkipNode list \<Rightarrow> nat \<Rightarrow> nat" where
  "height h a \<equiv> length (Next (h ! a))"

text \<open>The nodes of \<open>as\<close> that take part in level \<open>i\<close>, and the first of a list as a pointer.\<close>

abbreviation at_level :: "SkipNode list \<Rightarrow> nat \<Rightarrow> nat list \<Rightarrow> nat list" where
  "at_level h i as \<equiv> filter (\<lambda>a. i < height h a) as"

definition hd_ptr :: "nat list \<Rightarrow> nat option" where
  "hd_ptr as = (case as of [] \<Rightarrow> None | a # _ \<Rightarrow> Some a)"

lemma hd_ptr_simps [simp]: "hd_ptr [] = None" "hd_ptr (a # as) = Some a"
  by (simp_all add: hd_ptr_def)

lemma hd_ptr_append: "hd_ptr (xs @ ys) = (if xs = [] then hd_ptr ys else hd_ptr xs)"
  by (cases xs) auto

definition linked :: "SkipNode list \<Rightarrow> nat list \<Rightarrow> bool" where
  "linked h cs \<longleftrightarrow>
     (\<forall>ps x qs i. cs = ps @ x # qs \<longrightarrow> i < height h x \<longrightarrow> Next (h ! x) ! i = hd_ptr (at_level h i qs))"

text \<open>\<open>chain M h head lvl as\<close>: the data nodes, in order, are \<open>as\<close>.\<close>

definition chain :: "nat \<Rightarrow> SkipNode list \<Rightarrow> nat \<Rightarrow> nat \<Rightarrow> nat list \<Rightarrow> bool" where
  "chain M h head lvl as \<longleftrightarrow>
     1 \<le> M \<and> lvl \<le> M \<and> distinct (head # as) \<and> (\<forall>a \<in> set (head # as). a < length h) \<and>
     height h head = M \<and> (\<forall>a \<in> set as. 1 \<le> height h a \<and> height h a \<le> lvl) \<and>
     sorted_wrt (<) (map (\<lambda>a. Key (h ! a)) as) \<and> linked h (head # as)"

definition entries :: "SkipNode list \<Rightarrow> nat list \<Rightarrow> (bytes \<times> bytes option) list" where
  "entries h as = map (\<lambda>a. (Key (h ! a), Value (h ! a))) as"

definition entry_bytes :: "(bytes \<times> bytes option) list \<Rightarrow> int" where
  "entry_bytes es = sum_list (map (\<lambda>(k, v). int (length k) + vlen v) es)"

text \<open>The invariant of a list of the memtable.\<close>

definition skip_inv :: "nat \<Rightarrow> SkipList \<Rightarrow> bool" where
  "skip_inv M sl \<longleftrightarrow>
     (\<exists>as. chain M (sl_nodes sl) (sl_head sl) (sl_level sl) as \<and>
           sl_size sl = length as \<and> sl_byteSize sl = entry_bytes (entries (sl_nodes sl) as))"

definition contents :: "SkipList \<Rightarrow> (bytes \<times> bytes option) list" where
  "contents sl = (case collectAllEntry sl of None \<Rightarrow> [] | Some es \<Rightarrow> es)"

lemma linkedD: "linked h (ps @ x # qs) \<Longrightarrow> i < height h x \<Longrightarrow> Next (h ! x) ! i = hd_ptr (at_level h i qs)"
  by (auto simp: linked_def)

lemma chain_next:
  assumes "chain M h head lvl as" and "head # as = ps @ x # qs" and "i < height h x"
  shows "next_at h x i = Some (hd_ptr (at_level h i qs))"
  using assms linkedD [of h ps x qs i] by (auto simp: chain_def next_at_def)

lemma randomLevel_loop_bounds:
  "1 \<le> lvl \<Longrightarrow> lvl \<le> max 1 M \<Longrightarrow>
   1 \<le> randomLevel_loop M coins lvl \<and> randomLevel_loop M coins lvl \<le> max 1 M"
proof (induction M coins lvl rule: randomLevel_loop.induct)
  case (1 M coins lvl)
  then show ?case by (subst (1 2) randomLevel_loop.simps) auto
qed

lemma randomLevel_bounds: "1 \<le> randomLevel M coins \<and> randomLevel M coins \<le> max 1 M"
  unfolding randomLevel_def by (rule randomLevel_loop_bounds) auto

section \<open>Walking\<close>

text \<open>The head and the nodes with a smaller key; the rest of the list.\<close>

definition preds :: "SkipNode list \<Rightarrow> nat \<Rightarrow> bytes \<Rightarrow> nat list \<Rightarrow> nat list" where
  "preds h head key as = head # takeWhile (\<lambda>a. Key (h ! a) < key) as"

definition succs :: "SkipNode list \<Rightarrow> bytes \<Rightarrow> nat list \<Rightarrow> nat list" where
  "succs h key as = dropWhile (\<lambda>a. Key (h ! a) < key) as"

lemma preds_succs: "head # as = preds h head key as @ succs h key as"
  by (simp add: preds_def succs_def)

lemma succs_ge:
  assumes "chain M h head lvl as" and "a \<in> set (succs h key as)"
  shows "key \<le> Key (h ! a)"
proof -
  have "\<forall>a \<in> set (dropWhile (\<lambda>a. Key (h ! a) < key) as). key \<le> Key (h ! a)"
  proof -
    have "sorted_wrt (<) (map (\<lambda>a. Key (h ! a)) as)" using assms(1) by (simp add: chain_def)
    then show ?thesis by (induction as) (auto simp: not_less)
  qed
  then show ?thesis using assms(2) by (simp add: succs_def)
qed

lemma preds_less: "a \<in> set (preds h head key as) \<Longrightarrow> a \<noteq> head \<Longrightarrow> Key (h ! a) < key"
  by (auto simp: preds_def dest: set_takeWhileD)

lemma walk_correct:
  assumes "chain M h head lvl as" and "preds h head key as = ps @ x # ps1" and "i < height h x"
  shows "walk h key i x = Some (last (at_level h i (x # ps1)))"
  using assms(2,3)
proof (induction "length ps1" arbitrary: ps x ps1 rule: less_induct)
  case less
  have split: "head # as = ps @ x # (ps1 @ succs h key as)"
    using preds_succs [of head as h key] less.prems(1) by simp
  have nx: "next_at h x i = Some (hd_ptr (at_level h i (ps1 @ succs h key as)))"
    using assms(1) split less.prems(2) by (rule chain_next)
  show ?case
  proof (cases "at_level h i ps1")
    case Nil
    show ?thesis
    proof (cases "at_level h i (succs h key as)")
      case Nil
      with \<open>at_level h i ps1 = []\<close> nx less.prems(2) show ?thesis
        by (subst walk.simps) simp
    next
      case (Cons q qs)
      then have "q \<in> set (succs h key as)" by (metis filter_is_subset list.set_intros(1) subsetD)
      then have "key \<le> Key (h ! q)" using assms(1) by (rule succs_ge [rotated])
      with \<open>at_level h i ps1 = []\<close> Cons nx less.prems(2) show ?thesis
        by (subst walk.simps) (auto simp: leD)
    qed
  next
    case (Cons b bs)
    then obtain us vs where uv: "ps1 = us @ b # vs" "\<forall>u \<in> set us. \<not> i < height h u"
        "i < height h b" "bs = at_level h i vs"
      by (auto simp: filter_eq_Cons_iff)
    have in_preds: "preds h head key as = (ps @ x # us) @ b # vs"
      using less.prems(1) uv(1) by simp
    have "distinct (preds h head key as)"
      using assms(1) preds_succs [of head as h key] unfolding chain_def
      by (metis distinct_append)
    with in_preds have "b \<noteq> head"
      by (cases "ps @ x # us") (auto simp: preds_def)
    moreover have "b \<in> set (preds h head key as)" using in_preds by simp
    ultimately have "Key (h ! b) < key" by (intro preds_less)
    moreover have "walk h key i b = Some (last (at_level h i (b # vs)))"
      using less.hyps [of vs "ps @ x # us" b] in_preds uv by simp
    ultimately show ?thesis
      using nx Cons uv less.prems(2) by (subst walk.simps) (simp add: hd_ptr_append)
  qed
qed

lemma last_at_level_split:
  assumes "at_level h i cs \<noteq> []"
  obtains ps qs where "cs = ps @ last (at_level h i cs) # qs" and "at_level h i qs = []"
    and "i < height h (last (at_level h i cs))"
proof -
  have "\<exists>ps qs. cs = ps @ last (at_level h i cs) # qs \<and> at_level h i qs = [] \<and>
          i < height h (last (at_level h i cs))"
    using assms
  proof (induction cs rule: rev_induct)
    case Nil
    then show ?case by simp
  next
    case (snoc c cs)
    show ?case
    proof (cases "i < height h c")
      case True
      then have "cs @ [c] = cs @ last (at_level h i (cs @ [c])) # []" by simp
      with True show ?thesis by fastforce
    next
      case False
      with snoc obtain ps qs where "cs = ps @ last (at_level h i cs) # qs"
          "at_level h i qs = []" "i < height h (last (at_level h i cs))"
        by auto
      with False have "cs @ [c] = ps @ last (at_level h i (cs @ [c])) # (qs @ [c])"
          "at_level h i (qs @ [c]) = []" "i < height h (last (at_level h i (cs @ [c])))"
        by auto
      then show ?thesis by blast
    qed
  qed
  then show thesis using that by blast
qed

lemma at_level_preds_nonempty:
  assumes "chain M h head lvl as" and "i < M"
  shows "at_level h i (preds h head key as) \<noteq> []"
  using assms by (simp add: preds_def chain_def)

lemma walk_from_preds:
  assumes "chain M h head lvl as" and "x \<in> set (preds h head key as)" and "i < height h x" and "i < M"
  shows "walk h key i x = Some (last (at_level h i (preds h head key as)))"
proof -
  obtain ps ps1 where s: "preds h head key as = ps @ x # ps1"
    using assms(2) by (meson split_list)
  have "walk h key i x = Some (last (at_level h i (x # ps1)))"
    using assms(1) s assms(3) by (rule walk_correct)
  also have "last (at_level h i (x # ps1)) = last (at_level h i (preds h head key as))"
    using s assms(3) by simp
  finally show ?thesis .
qed

text \<open>The node the descent stops at on level \<open>i\<close>.\<close>

abbreviation stop :: "SkipNode list \<Rightarrow> nat \<Rightarrow> bytes \<Rightarrow> nat list \<Rightarrow> nat \<Rightarrow> nat" where
  "stop h head key as i \<equiv> last (at_level h i (preds h head key as))"

lemma stop_in_preds:
  assumes "chain M h head lvl as" and "i < M"
  shows "stop h head key as i \<in> set (preds h head key as)" and "i < height h (stop h head key as i)"
proof -
  have "stop h head key as i \<in> set (at_level h i (preds h head key as))"
    by (rule last_in_set) (rule at_level_preds_nonempty [OF assms])
  then show "stop h head key as i \<in> set (preds h head key as)"
    and "i < height h (stop h head key as i)" by auto
qed

lemma descend_correct:
  assumes "chain M h head lvl as" and "n \<le> M" and "x \<in> set (preds h head key as)" and "n \<le> height h x"
  shows "descend h key n x = Some (if n = 0 then x else stop h head key as 0)"
  using assms(2-4)
proof (induction n arbitrary: x)
  case 0
  then show ?case by simp
next
  case (Suc i)
  have "walk h key i x = Some (stop h head key as i)"
    using assms(1) Suc.prems by (intro walk_from_preds) auto
  moreover have "descend h key i (stop h head key as i) =
      Some (if i = 0 then stop h head key as i else stop h head key as 0)"
    using Suc.prems stop_in_preds [OF assms(1), of i key] by (intro Suc.IH) auto
  ultimately show ?case by (simp split: if_splits)
qed

lemma descend_update_correct:
  assumes "chain M h head lvl as" and "n \<le> M" and "x \<in> set (preds h head key as)" and "n \<le> height h x"
    and "length upd = M"
  shows "\<exists>upd'. descend_update h key n x upd = Some (if n = 0 then x else stop h head key as 0, upd') \<and>
           length upd' = M \<and> (\<forall>i < n. upd' ! i = Some (stop h head key as i)) \<and>
           (\<forall>i. n \<le> i \<longrightarrow> i < M \<longrightarrow> upd' ! i = upd ! i)"
  using assms(2-5)
proof (induction n arbitrary: x upd)
  case 0
  then show ?case by simp
next
  case (Suc i)
  let ?y = "stop h head key as i"
  have w: "walk h key i x = Some ?y"
    using assms(1) Suc.prems by (intro walk_from_preds) auto
  have "\<exists>upd'. descend_update h key i ?y (upd[i := Some ?y]) =
          Some (if i = 0 then ?y else stop h head key as 0, upd') \<and>
           length upd' = M \<and> (\<forall>j < i. upd' ! j = Some (stop h head key as j)) \<and>
           (\<forall>j. i \<le> j \<longrightarrow> j < M \<longrightarrow> upd' ! j = (upd[i := Some ?y]) ! j)"
    using Suc.prems stop_in_preds [OF assms(1), of i key] by (intro Suc.IH) auto
  then obtain upd' where u: "descend_update h key i ?y (upd[i := Some ?y]) =
          Some (if i = 0 then ?y else stop h head key as 0, upd')"
      "length upd' = M" "\<forall>j < i. upd' ! j = Some (stop h head key as j)"
      "\<forall>j. i \<le> j \<longrightarrow> j < M \<longrightarrow> upd' ! j = (upd[i := Some ?y]) ! j"
    by blast
  have "descend_update h key (Suc i) x upd = Some (stop h head key as 0, upd')"
    using w u(1) Suc.prems by (auto split: if_splits)
  moreover have "\<forall>j < Suc i. upd' ! j = Some (stop h head key as j)"
    using u(3,4) Suc.prems by (auto simp: less_Suc_eq)
  moreover have "\<forall>j. Suc i \<le> j \<longrightarrow> j < M \<longrightarrow> upd' ! j = upd ! j"
    using u(4) by simp
  ultimately show ?case using u(2) by auto
qed

text \<open>On level 0 every node takes part: the descent ends just before \<open>succs\<close>.\<close>

lemma chain_height_pos: "chain M h head lvl as \<Longrightarrow> a \<in> set (head # as) \<Longrightarrow> 0 < height h a"
  unfolding chain_def by (cases "a = head") (force simp: Suc_le_eq)+

lemma at_level_0:
  assumes "chain M h head lvl as" and "set cs \<subseteq> set (head # as)"
  shows "at_level h 0 cs = cs"
proof (rule filter_True)
  show "\<forall>a \<in> set cs. 0 < height h a"
    using assms chain_height_pos by blast
qed

lemma stop_0:
  assumes "chain M h head lvl as"
  shows "stop h head key as 0 = last (preds h head key as)"
proof -
  have "set (preds h head key as) \<subseteq> set (head # as)"
    by (auto simp: preds_def dest: set_takeWhileD)
  then show ?thesis using at_level_0 [OF assms] by simp
qed

lemma descend_top:
  assumes "chain M h head lvl as"
  shows "descend h key lvl head = Some (last (preds h head key as))"
proof -
  have "descend h key lvl head = Some (if lvl = 0 then head else stop h head key as 0)"
    using assms by (intro descend_correct [OF assms]) (auto simp: chain_def preds_def)
  moreover have "lvl = 0 \<Longrightarrow> as = []"
    using assms by (cases as) (auto simp: chain_def)
  ultimately show ?thesis
  proof (cases "lvl = 0")
    case True
    with \<open>lvl = 0 \<Longrightarrow> as = []\<close> show ?thesis by (simp add: preds_def)
  next
    case False
    then show ?thesis
      using \<open>descend h key lvl head = _\<close> stop_0 [OF assms, of key] by argo
  qed
qed

lemma next_last_preds:
  assumes "chain M h head lvl as"
  shows "next_at h (last (preds h head key as)) 0 = Some (hd_ptr (succs h key as))"
proof -
  have p: "preds h head key as \<noteq> []" by (simp add: preds_def)
  then have s: "head # as = butlast (preds h head key as) @ last (preds h head key as) # succs h key as"
    using preds_succs [of head as h key] by (simp flip: append_assoc append_Cons)
  have "0 < height h (last (preds h head key as))"
    using stop_in_preds(2) [OF assms, of 0 key] stop_0 [OF assms] assms by (simp add: chain_def)
  with assms s have "next_at h (last (preds h head key as)) 0 = Some (hd_ptr (at_level h 0 (succs h key as)))"
    by (rule chain_next)
  moreover have "set (succs h key as) \<subseteq> set (head # as)"
    by (auto simp: succs_def dest: set_dropWhileD)
  ultimately show ?thesis using at_level_0 [OF assms] by simp
qed

lemma firstGTE_chain:
  assumes "chain M (sl_nodes sl) (sl_head sl) (sl_level sl) as"
  shows "firstGTE sl key = Some (hd_ptr (succs (sl_nodes sl) key as))"
  using descend_top [OF assms] next_last_preds [OF assms] by (simp add: firstGTE_def)

section \<open>Contents\<close>

lemma entries_sorted: "chain M h head lvl as \<Longrightarrow> sorted_keys (entries h as)"
  by (simp add: chain_def entries_def comp_def)

lemma entries_append: "entries h (as @ bs) = entries h as @ entries h bs"
  by (simp add: entries_def)

lemma collect_from_correct:
  assumes "chain M h head lvl as" and "head # as = ps @ qs" and "ps \<noteq> []"
  shows "collect_from h (hd_ptr qs) acc = Some (acc @ entries h qs)"
  using assms(2,3)
proof (induction qs arbitrary: ps acc)
  case Nil
  then show ?case by (subst collect_from.simps) (simp add: entries_def)
next
  case (Cons q qs)
  have q: "q \<in> set as" using Cons.prems by (cases ps) auto
  then have "0 < height h q" using assms(1) by (force simp: chain_def)
  with assms(1) Cons.prems(1) have "next_at h q 0 = Some (hd_ptr (at_level h 0 qs))"
    by (rule chain_next)
  moreover have "set qs \<subseteq> set (head # as)"
    using Cons.prems(1) by (metis Un_iff list.set_intros(2) set_append subsetI)
  ultimately have nx: "next_at h q 0 = Some (hd_ptr qs)" using at_level_0 [OF assms(1)] by simp
  have "collect_from h (hd_ptr qs) (acc @ [(Key (h ! q), Value (h ! q))]) =
      Some ((acc @ [(Key (h ! q), Value (h ! q))]) @ entries h qs)"
    using Cons.prems(1) by (intro Cons.IH [of "ps @ [q]"]) auto
  with nx show ?case by (subst collect_from.simps) (simp add: entries_def)
qed

lemma collectAllEntry_chain:
  assumes "chain M (sl_nodes sl) (sl_head sl) (sl_level sl) as"
  shows "collectAllEntry sl = Some (entries (sl_nodes sl) as)"
proof -
  let ?h = "sl_nodes sl" and ?hd = "sl_head sl"
  have "0 < height ?h ?hd" using assms by (simp add: chain_def)
  with assms have "next_at ?h ?hd 0 = Some (hd_ptr (at_level ?h 0 as))"
    by (intro chain_next [where ps = "[]"]) auto
  moreover have "at_level ?h 0 as = as"
    by (rule at_level_0 [OF assms]) auto
  ultimately have "next_at ?h ?hd 0 = Some (hd_ptr as)" by simp
  moreover have "collect_from ?h (hd_ptr as) [] = Some ([] @ entries ?h as)"
    using assms by (intro collect_from_correct [where ps = "[?hd]"]) auto
  ultimately show ?thesis by (simp add: collectAllEntry_def)
qed

lemma contents_chain:
  "chain M (sl_nodes sl) (sl_head sl) (sl_level sl) as \<Longrightarrow> contents sl = entries (sl_nodes sl) as"
  by (simp add: contents_def collectAllEntry_chain)

lemma map_of_entries_preds_succs:
  assumes "chain M h head lvl as"
  shows "map_of (entries h as) key =
     (case succs h key as of
        [] \<Rightarrow> None
      | q # _ \<Rightarrow> if Key (h ! q) = key then Some (Value (h ! q)) else None)"
proof -
  let ?ps = "takeWhile (\<lambda>a. Key (h ! a) < key) as" and ?qs = "succs h key as"
  have as: "as = ?ps @ ?qs" by (simp add: succs_def)
  then have es: "entries h as = entries h ?ps @ entries h ?qs" by (simp flip: entries_append)
  have lo: "\<forall>x \<in> fst ` set (entries h ?ps). x < key"
    by (auto simp: entries_def dest: set_takeWhileD)
  have sorted: "sorted_keys (entries h ?ps @ entries h ?qs)"
    using entries_sorted [OF assms] es by simp
  show ?thesis
  proof (cases ?qs)
    case Nil
    then have "entries h as = entries h ?ps @ []" using es by (simp add: entries_def [of h "[]"])
    moreover have "map_of (entries h ?ps @ []) key = None"
      by (rule map_of_None_bounds [OF lo]) simp
    ultimately show ?thesis using Nil by (simp only: list.case)
  next
    case (Cons q qs)
    show ?thesis
    proof (cases "Key (h ! q) = key")
      case True
      then have "entries h ?qs = (key, Value (h ! q)) # entries h qs"
        using Cons by (simp add: entries_def)
      with sorted es True Cons show ?thesis
        using map_of_sorted_mid [of "entries h ?ps" key "Value (h ! q)" "entries h qs"] by simp
    next
      case False
      have "key \<le> Key (h ! q)" using succs_ge [OF assms] Cons by simp
      with False have "key < Key (h ! q)" by simp
      moreover have "\<forall>x \<in> set qs. Key (h ! q) < Key (h ! x)"
        using sorted Cons by (auto simp: entries_def sorted_wrt_append)
      ultimately have "\<forall>x \<in> fst ` set (entries h ?qs). key < x"
        using Cons by (auto simp: entries_def intro: less_trans)
      with es lo have "map_of (entries h as) key = None" using map_of_None_bounds by metis
      with False Cons show ?thesis by simp
    qed
  qed
qed

lemma search_chain:
  assumes "chain M (sl_nodes sl) (sl_head sl) (sl_level sl) as"
  shows "search sl key =
     Some (case map_of (entries (sl_nodes sl) as) key of None \<Rightarrow> (None, False) | Some v \<Rightarrow> (v, True))"
  using descend_top [OF assms] next_last_preds [OF assms] map_of_entries_preds_succs [OF assms]
  by (simp add: search_def hd_ptr_def split: list.split)

section \<open>Inserting\<close>

text \<open>The effect of the linking loop on every node of the store.\<close>

lemma link_levels_correct:
  assumes "n < length h" and "height h n = L" and "L \<le> length upd"
    and "\<forall>i < L. upd ! i = Some (u i) \<and> u i \<noteq> n \<and> u i < length h \<and> i < height h (u i)"
    and "j \<le> L"
  shows "\<exists>h'. link_levels upd n j h = Some h' \<and> length h' = length h \<and>
     (\<forall>a < length h. height h' a = height h a \<and> Key (h' ! a) = Key (h ! a) \<and> Value (h' ! a) = Value (h ! a)) \<and>
     (\<forall>i < height h n. Next (h' ! n) ! i = (if i < j then Next (h ! u i) ! i else Next (h ! n) ! i)) \<and>
     (\<forall>a < length h. a \<noteq> n \<longrightarrow>
        (\<forall>i < height h a. Next (h' ! a) ! i = (if i < j \<and> u i = a then Some n else Next (h ! a) ! i)))"
  using assms(5)
proof (induction j)
  case 0
  then show ?case by simp
next
  case (Suc j)
  then obtain h' where h': "link_levels upd n j h = Some h'" "length h' = length h"
     "\<forall>a < length h. height h' a = height h a \<and> Key (h' ! a) = Key (h ! a) \<and> Value (h' ! a) = Value (h ! a)"
     "\<forall>i < height h n. Next (h' ! n) ! i = (if i < j then Next (h ! u i) ! i else Next (h ! n) ! i)"
     "\<forall>a < length h. a \<noteq> n \<longrightarrow>
        (\<forall>i < height h a. Next (h' ! a) ! i = (if i < j \<and> u i = a then Some n else Next (h ! a) ! i))"
    by auto
  have u: "upd ! j = Some (u j)" "u j \<noteq> n" "u j < length h" "j < height h (u j)"
    using assms(4) Suc.prems by auto
  have nx: "next_at h' (u j) j = Some (Next (h ! u j) ! j)"
    using u h'(2,3,5) by (simp add: next_at_def)
  define h1 where "h1 = h'[n := (h' ! n)\<lparr>Next := (Next (h' ! n))[j := Next (h ! u j) ! j]\<rparr>]"
  define h2 where "h2 = h1[u j := (h1 ! u j)\<lparr>Next := (Next (h1 ! u j))[j := Some n]\<rparr>]"
  have step: "link_levels upd n (Suc j) h = Some h2"
    using h'(1-3) u nx assms(1-3) Suc.prems by (simp add: h1_def h2_def Let_def)
  have at_n: "h2 ! n = (h' ! n)\<lparr>Next := (Next (h' ! n))[j := Next (h ! u j) ! j]\<rparr>"
    using u(2) assms(1) h'(2) by (simp add: h2_def h1_def)
  have at_u: "h2 ! u j = (h' ! u j)\<lparr>Next := (Next (h' ! u j))[j := Some n]\<rparr>"
    using u(2,3) h'(2) by (simp add: h2_def h1_def)
  have at_other: "a \<noteq> n \<Longrightarrow> a \<noteq> u j \<Longrightarrow> h2 ! a = h' ! a" for a
    by (simp add: h2_def h1_def)
  have "length h2 = length h" using h'(2) by (simp add: h2_def h1_def)
  moreover have "height h2 a = height h a \<and> Key (h2 ! a) = Key (h ! a) \<and> Value (h2 ! a) = Value (h ! a)"
    if "a < length h" for a
    using that h'(3) at_n at_u at_other [of a] by (cases "a = n"; cases "a = u j") auto
  moreover have "Next (h2 ! n) ! i = (if i < Suc j then Next (h ! u i) ! i else Next (h ! n) ! i)"
    if "i < height h n" for i
    using that at_n h'(3,4) assms(1) by (cases "i = j") auto
  moreover have "Next (h2 ! a) ! i = (if i < Suc j \<and> u i = a then Some n else Next (h ! a) ! i)"
    if "a < length h" "a \<noteq> n" "i < height h a" for a i
  proof (cases "a = u j")
    case True
    then show ?thesis using that at_u h'(3,5) by (cases "i = j") (auto simp: less_Suc_eq)
  next
    case False
    then show ?thesis using that at_other [of a] h'(5) by (auto simp: less_Suc_eq)
  qed
  ultimately show ?case using step by blast
qed

lemma append_Cons_cases:
  assumes "P @ n # S = ps @ x # qs"
  obtains (left) p1 where "P = ps @ x # p1" and "qs = p1 @ n # S"
    | (mid) "ps = P" and "x = n" and "qs = S"
    | (right) s1 where "ps = P @ n # s1" and "S = s1 @ x # qs"
  using assms by (auto simp: append_eq_append_conv2 append_eq_Cons_conv Cons_eq_append_conv)

lemma at_level_cong:
  assumes "\<forall>a \<in> set cs. height h' a = height h a"
  shows "at_level h' i cs = at_level h i cs"
  using assms by (intro filter_cong) auto

lemma stop_eq_iff:
  assumes "chain M h head lvl as" and "preds h head key as = ps @ x # p1" and "i < height h x"
  shows "stop h head key as i = x \<longleftrightarrow> at_level h i p1 = []"
proof
  assume "at_level h i p1 = []"
  then show "stop h head key as i = x" using assms(2,3) by simp
next
  assume eq: "stop h head key as i = x"
  show "at_level h i p1 = []"
  proof (rule ccontr)
    assume ne: "at_level h i p1 \<noteq> []"
    then have "last (at_level h i p1) \<in> set (at_level h i p1)" by (rule last_in_set)
    moreover have "stop h head key as i = last (at_level h i p1)"
      using assms(2,3) ne by simp
    ultimately have "x \<in> set p1" using eq by auto
    moreover have "distinct (preds h head key as)"
      using assms(1) preds_succs [of head as h key] unfolding chain_def by (metis distinct_append)
    ultimately show False using assms(2) by simp
  qed
qed

lemma next_stop:
  assumes "chain M h head lvl as" and "i < M"
  shows "Next (h ! stop h head key as i) ! i = hd_ptr (at_level h i (succs h key as))"
proof -
  obtain pp q1 where P: "preds h head key as = pp @ stop h head key as i # q1" "at_level h i q1 = []"
      "i < height h (stop h head key as i)"
    using last_at_level_split [OF at_level_preds_nonempty [OF assms]] by metis
  then have "head # as = pp @ stop h head key as i # (q1 @ succs h key as)"
    using preds_succs [of head as h key] by simp
  with assms(1) P show ?thesis
    using linkedD [of h pp "stop h head key as i" "q1 @ succs h key as" i] by (simp add: chain_def)
qed

text \<open>\<open>h'\<close> is \<open>h\<close> with a node \<open>n\<close> of height \<open>L\<close> linked in after the nodes smaller than \<open>key\<close>.\<close>

definition inserted :: "nat \<Rightarrow> SkipNode list \<Rightarrow> nat \<Rightarrow> nat list \<Rightarrow> bytes \<Rightarrow> bytes option \<Rightarrow> nat \<Rightarrow> SkipNode list \<Rightarrow> bool" where
  "inserted L h head as key v n h' \<longleftrightarrow>
     n = length h \<and> length h' = Suc n \<and> height h' n = L \<and> Key (h' ! n) = key \<and> Value (h' ! n) = v \<and>
     (\<forall>a < n. height h' a = height h a \<and> Key (h' ! a) = Key (h ! a) \<and> Value (h' ! a) = Value (h ! a)) \<and>
     (\<forall>i < L. Next (h' ! n) ! i = Next (h ! stop h head key as i) ! i) \<and>
     (\<forall>a < n. \<forall>i < height h a. Next (h' ! a) ! i =
        (if i < L \<and> stop h head key as i = a then Some n else Next (h ! a) ! i))"

lemma linked_inserted:
  assumes ch: "chain M h head lvl as" and L: "L \<le> M" and ins: "inserted L h head as key v n h'"
  shows "linked h' (preds h head key as @ n # succs h key as)"
  unfolding linked_def
proof (intro allI impI)
  fix ps x qs i
  assume eq: "preds h head key as @ n # succs h key as = ps @ x # qs" and i: "i < height h' x"
  let ?P = "preds h head key as" and ?S = "succs h key as"
  have mem: "set ?P \<subseteq> {..<n}" "set ?S \<subseteq> {..<n}"
    using ch ins preds_succs [of head as h key] unfolding chain_def inserted_def
    by (metis Un_iff lessThan_iff set_append subsetI)+
  have lev: "at_level h' j cs = at_level h j cs" if "set cs \<subseteq> {..<n}" for j cs
    using ins that by (intro at_level_cong) (auto simp: inserted_def)
  have hn: "height h' n = L" using ins unfolding inserted_def by blast
  from eq show "Next (h' ! x) ! i = hd_ptr (at_level h' i qs)"
  proof (cases rule: append_Cons_cases)
    case (left p1)
    have x: "x < n" and p1: "set p1 \<subseteq> {..<n}" using mem(1) left(1) by auto
    have hx: "i < height h x" using ins x i by (simp add: inserted_def)
    have old: "Next (h ! x) ! i = hd_ptr (at_level h i (p1 @ ?S))"
      using ch linkedD [of h ps x "p1 @ ?S" i] hx left(1) preds_succs [of head as h key]
      by (simp add: chain_def)
    have new: "Next (h' ! x) ! i = (if i < L \<and> at_level h i p1 = [] then Some n else Next (h ! x) ! i)"
      using ins x hx stop_eq_iff [OF ch left(1) hx] by (simp add: inserted_def)
    have "at_level h' i qs = at_level h i p1 @ (if i < L then [n] else []) @ at_level h i ?S"
      using left(2) lev [OF p1] lev [OF mem(2)] hn by simp
    with old new show ?thesis by (simp add: hd_ptr_append)
  next
    case mid
    have iL: "i < L" using i mid hn by simp
    then have "Next (h' ! n) ! i = Next (h ! stop h head key as i) ! i"
      using ins unfolding inserted_def by blast
    with iL show ?thesis
      using mid next_stop [OF ch, of i key] L lev [OF mem(2)] by simp
  next
    case (right s1)
    have x: "x < n" and qs: "set qs \<subseteq> {..<n}" using mem(2) right(2) by auto
    have hx: "i < height h x" using ins x i by (simp add: inserted_def)
    have split: "head # as = (?P @ s1) @ x # qs" using preds_succs [of head as h key] right(2) by simp
    have iM: "i < M" if "i < L" using that L by simp
    have "x \<notin> set ?P" using ch preds_succs [of head as h key] right(2) unfolding chain_def
      by (metis disjoint_iff distinct_append in_set_conv_decomp)
    then have "i < L \<Longrightarrow> stop h head key as i \<noteq> x" using stop_in_preds(1) [OF ch iM] by blast
    then have "Next (h' ! x) ! i = Next (h ! x) ! i" using ins x hx by (auto simp: inserted_def)
    then show ?thesis
      using ch linkedD [of h "?P @ s1" x qs i] split hx lev [OF qs] by (simp add: chain_def)
  qed
qed

lemma ins_sorted_entries:
  assumes ch: "chain M h head lvl as" and new: "\<forall>a \<in> set (succs h key as). Key (h ! a) \<noteq> key"
  shows "ins_sorted key v (entries h as) =
     entries h (tl (preds h head key as)) @ (key, v) # entries h (succs h key as)"
proof -
  have as: "as = tl (preds h head key as) @ succs h key as"
    using preds_succs [of head as h key] by (simp add: preds_def)
  have lo: "\<forall>x \<in> fst ` set (entries h (tl (preds h head key as))). x < key"
    by (auto simp: entries_def preds_def dest: set_takeWhileD)
  have hi: "\<forall>x \<in> fst ` set (entries h (succs h key as)). key < x"
    using succs_ge [OF ch] new by (force simp: entries_def)
  have "ins_sorted key v (entries h (tl (preds h head key as)) @ entries h (succs h key as)) =
      entries h (tl (preds h head key as)) @ (key, v) # entries h (succs h key as)"
    using ins_sorted_append [OF lo] ins_sorted_front [OF hi] by metis
  then show ?thesis using as by (metis entries_append)
qed

lemma chain_inserted:
  assumes ch: "chain M h head lvl as" and L: "1 \<le> L" "L \<le> M"
    and new: "\<forall>a \<in> set (succs h key as). Key (h ! a) \<noteq> key"
    and ins: "inserted L h head as key v n h'"
  defines "as' \<equiv> tl (preds h head key as) @ n # succs h key as"
  shows "chain M h' head (max lvl L) as'" and "entries h' as' = ins_sorted key v (entries h as)"
proof -
  let ?P0 = "tl (preds h head key as)" and ?S = "succs h key as"
  have P: "preds h head key as = head # ?P0" by (simp add: preds_def)
  have as: "as = ?P0 @ ?S" using preds_succs [of head as h key] P by (metis append_Cons list.inject)
  have mem: "head < n" "\<forall>a \<in> set as. a < n" using ch ins by (auto simp: chain_def inserted_def)
  then have mem': "\<forall>a \<in> set ?P0. a < n" "\<forall>a \<in> set ?S. a < n" using as by (metis Un_iff set_append)+
  have n: "Key (h' ! n) = key" "Value (h' ! n) = v" "height h' n = L" "length h' = Suc n"
    using ins by (auto simp: inserted_def)
  have same: "a < n \<Longrightarrow> height h' a = height h a \<and> Key (h' ! a) = Key (h ! a) \<and> Value (h' ! a) = Value (h ! a)" for a
    using ins by (auto simp: inserted_def)
  have ent: "entries h' cs = entries h cs" if "\<forall>a \<in> set cs. a < n" for cs
    using that same by (auto simp: entries_def)
  show es: "entries h' as' = ins_sorted key v (entries h as)"
    unfolding as'_def ins_sorted_entries [OF ch new] entries_append
    using ent [OF mem'(1)] ent [OF mem'(2)] n by (simp add: entries_def)
  have "map fst (entries h' as') = map (\<lambda>a. Key (h' ! a)) as'" by (simp add: entries_def)
  then have sorted: "sorted_wrt (<) (map (\<lambda>a. Key (h' ! a)) as')"
    using es sorted_ins_sorted [OF entries_sorted [OF ch]] by metis
  have link: "linked h' (head # as')"
    unfolding as'_def using linked_inserted [OF ch L(2) ins] P by (metis append_Cons)
  have sets: "set as' = insert n (set as)" using as unfolding as'_def by (metis Un_insert_right list.simps(15) set_append)
  have "distinct (?P0 @ ?S)" using ch as by (simp add: chain_def)
  then have dist: "distinct (head # as')"
    using ch mem mem' sets by (auto simp: as'_def chain_def)
  show "chain M h' head (max lvl L) as'"
    unfolding chain_def
  proof (intro conjI)
    show "1 \<le> M" "max lvl L \<le> M" "height h' head = M"
      using ch L same [OF mem(1)] by (auto simp: chain_def)
    show "\<forall>a \<in> set (head # as'). a < length h'" using sets mem n by force
    show "\<forall>a \<in> set as'. 1 \<le> height h' a \<and> height h' a \<le> max lvl L"
      using sets ch same mem n(3) L by (auto simp: chain_def le_max_iff_disj)
  qed (use dist sorted link in simp_all)
qed

lemma chain_overwritten:
  fixes v :: "bytes option"
  assumes ch: "chain M h head lvl as" and q: "succs h key as = q # qs" and key: "Key (h ! q) = key"
  defines "h' \<equiv> h[q := (h ! q)\<lparr>Value := v\<rparr>]"
  shows "chain M h' head lvl as" and "entries h' as = ins_sorted key v (entries h as)"
    and "entry_bytes (entries h' as) = entry_bytes (entries h as) + (vlen v - vlen (Value (h ! q)))"
proof -
  let ?P0 = "tl (preds h head key as)"
  have as: "as = ?P0 @ q # qs" using preds_succs [of head as h key] q by (simp add: preds_def)
  have q_lt: "q < length h" and d: "distinct (?P0 @ q # qs)"
    using ch as q by (metis chain_def in_set_conv_decomp list.set_intros(2), metis as ch chain_def distinct.simps(2))
  have same: "Next (h' ! a) = Next (h ! a)" "Key (h' ! a) = Key (h ! a)" for a
    using q_lt by (cases "a = q"; simp add: h'_def)+
  show "chain M h' head lvl as"
    using ch unfolding chain_def linked_def same by (simp add: h'_def)
  have ent: "entries h' cs = entries h cs" if "q \<notin> set cs" for cs
    using that unfolding entries_def h'_def by (intro map_cong) (metis nth_list_update_neq)+
  have es': "entries h' as = entries h ?P0 @ (key, v) # entries h qs"
    using ent [of ?P0] ent [of qs] d q_lt key
    by (subst as) (simp add: entries_def h'_def)
  have es: "entries h as = entries h ?P0 @ (key, Value (h ! q)) # entries h qs"
    using key by (subst as) (simp add: entries_def)
  have "\<forall>x \<in> fst ` set (entries h ?P0). x < key"
    by (auto simp: entries_def preds_def dest: set_takeWhileD)
  then show "entries h' as = ins_sorted key v (entries h as)"
    unfolding es es' by (simp add: ins_sorted_append)
  show "entry_bytes (entries h' as) = entry_bytes (entries h as) + (vlen v - vlen (Value (h ! q)))"
    unfolding es es' by (simp add: entry_bytes_def)
qed

lemma entry_bytes_ins_sorted:
  assumes "key \<notin> fst ` set es"
  shows "entry_bytes (ins_sorted key v es) = entry_bytes es + (int (length key) + vlen v)"
  using assms by (induction key v es rule: ins_sorted.induct) (auto simp: entry_bytes_def)

lemma length_ins_sorted:
  assumes "key \<notin> fst ` set es"
  shows "length (ins_sorted key v es) = Suc (length es)"
  using assms by (induction key v es rule: ins_sorted.induct) auto

lemma raise_update_correct:
  assumes ch: "chain M h head lvl as" and L: "L \<le> M" and upd: "length upd = M"
    and "\<forall>i < lvl. upd ! i = Some (stop h head key as i)"
  shows "\<exists>upd'. raise_update lvl L head upd = Some upd' \<and> length upd' = M \<and>
           (\<forall>i < L. upd' ! i = Some (stop h head key as i))"
proof -
  have top: "stop h head key as i = head" if "lvl \<le> i" "i < M" for i
  proof -
    have "\<forall>a \<in> set (takeWhile (\<lambda>a. Key (h ! a) < key) as). height h a \<le> lvl"
      using ch unfolding chain_def by (metis set_takeWhileD)
    then have "at_level h i (takeWhile (\<lambda>a. Key (h ! a) < key) as) = []"
      using that(1) by (auto simp: filter_empty_conv)
    then show ?thesis using ch that(2) by (simp add: preds_def chain_def)
  qed
  show ?thesis
  proof (cases "L \<le> lvl")
    case True
    then show ?thesis using assms by (simp add: raise_update_def)
  next
    case False
    then show ?thesis using assms top by (auto simp: raise_update_def)
  qed
qed

lemma insert_new:
  assumes ch: "chain M h head lvl as" and L: "1 \<le> L" "L \<le> M"
    and upd: "length upd = M" "\<forall>i < L. upd ! i = Some (stop h head key as i)"
  shows "\<exists>h'. link_levels upd (length h) L (h @ [newSkipNode L key v]) = Some h' \<and>
           inserted L h head as key v (length h) h'"
proof -
  let ?n = "length h" and ?h = "h @ [newSkipNode L key v]"
  have old: "?h ! a = h ! a" if "a < ?n" for a using that by (simp add: nth_append)
  have node: "?h ! ?n = newSkipNode L key v" by simp
  have u: "stop h head key as i < ?n" "i < height h (stop h head key as i)" if "i < L" for i
  proof -
    have "set (preds h head key as) \<subseteq> set (head # as)"
      by (auto simp: preds_def dest: set_takeWhileD)
    with stop_in_preds(1) [OF ch, of i key] that L have "stop h head key as i \<in> set (head # as)" by auto
    then show "stop h head key as i < ?n" using ch by (auto simp: chain_def)
    show "i < height h (stop h head key as i)" using stop_in_preds(2) [OF ch, of i key] that L by simp
  qed
  have "\<exists>h'. link_levels upd ?n L ?h = Some h' \<and> length h' = length ?h \<and>
     (\<forall>a < length ?h. height h' a = height ?h a \<and> Key (h' ! a) = Key (?h ! a) \<and> Value (h' ! a) = Value (?h ! a)) \<and>
     (\<forall>i < height ?h ?n. Next (h' ! ?n) ! i =
        (if i < L then Next (?h ! stop h head key as i) ! i else Next (?h ! ?n) ! i)) \<and>
     (\<forall>a < length ?h. a \<noteq> ?n \<longrightarrow> (\<forall>i < height ?h a. Next (h' ! a) ! i =
        (if i < L \<and> stop h head key as i = a then Some ?n else Next (?h ! a) ! i)))"
  proof (intro link_levels_correct [where L = L])
    show "\<forall>i < L. upd ! i = Some (stop h head key as i) \<and> stop h head key as i \<noteq> ?n \<and>
        stop h head key as i < length ?h \<and> i < height ?h (stop h head key as i)"
    proof (intro allI impI)
      fix i assume "i < L"
      with u [of i] upd(2) old [of "stop h head key as i"]
      show "upd ! i = Some (stop h head key as i) \<and> stop h head key as i \<noteq> ?n \<and>
        stop h head key as i < length ?h \<and> i < height ?h (stop h head key as i)" by simp
    qed
  qed (use L upd(1) in \<open>simp_all add: newSkipNode_def\<close>)
  then obtain h' where h': "link_levels upd ?n L ?h = Some h'" "length h' = length ?h"
     "\<forall>a < length ?h. height h' a = height ?h a \<and> Key (h' ! a) = Key (?h ! a) \<and> Value (h' ! a) = Value (?h ! a)"
     "\<forall>i < height ?h ?n. Next (h' ! ?n) ! i =
        (if i < L then Next (?h ! stop h head key as i) ! i else Next (?h ! ?n) ! i)"
     "\<forall>a < length ?h. a \<noteq> ?n \<longrightarrow> (\<forall>i < height ?h a. Next (h' ! a) ! i =
        (if i < L \<and> stop h head key as i = a then Some ?n else Next (?h ! a) ! i))"
    by blast
  have "inserted L h head as key v ?n h'"
    unfolding inserted_def
  proof (intro conjI allI impI)
    show "length h' = Suc ?n" using h'(2) by simp
    show "height h' ?n = L" "Key (h' ! ?n) = key" "Value (h' ! ?n) = v"
      using h'(3) by (auto simp: newSkipNode_def)
    show "height h' a = height h a" "Key (h' ! a) = Key (h ! a)" "Value (h' ! a) = Value (h ! a)"
      if "a < ?n" for a using h'(3) that old [OF that] by auto
    show "Next (h' ! ?n) ! i = Next (h ! stop h head key as i) ! i" if "i < L" for i
      using h'(4) that u [OF that] old by (simp add: newSkipNode_def)
    show "Next (h' ! a) ! i = (if i < L \<and> stop h head key as i = a then Some ?n else Next (h ! a) ! i)"
      if "a < ?n" "i < height h a" for a i
      using h'(5) that old [OF that(1)] by simp
  qed simp
  with h'(1) show ?thesis by blast
qed

lemma succs_new:
  assumes ch: "chain M h head lvl as" and "\<nexists>q qs. succs h key as = q # qs \<and> Key (h ! q) = key"
  shows "\<forall>a \<in> set (succs h key as). Key (h ! a) \<noteq> key"
proof (cases "succs h key as")
  case (Cons q qs)
  have "key \<le> Key (h ! q)" using succs_ge [OF ch, of q key] Cons by simp
  with assms(2) Cons have q: "key < Key (h ! q)" by auto
  have "as = takeWhile (\<lambda>a. Key (h ! a) < key) as @ q # qs"
    using Cons by (simp add: succs_def flip: Cons)
  then have "sorted_wrt (<) (map (\<lambda>a. Key (h ! a)) (q # qs))"
    using ch unfolding chain_def by (metis map_append sorted_wrt_append)
  with q have "\<forall>a \<in> set (q # qs). key < Key (h ! a)" by (auto intro: less_trans)
  then show ?thesis using Cons by auto
qed simp

lemma descend_update_top:
  assumes ch: "chain M h head lvl as"
  obtains upd where
    "descend_update h key lvl head (replicate M None) = Some (last (preds h head key as), upd)"
    and "length upd = M" and "\<forall>i < lvl. upd ! i = Some (stop h head key as i)"
proof -
  have M: "lvl \<le> M" "height h head = M" using ch by (auto simp: chain_def)
  obtain upd where d: "descend_update h key lvl head (replicate M None) =
        Some (if lvl = 0 then head else stop h head key as 0, upd)"
      and upd: "length upd = M" "\<forall>i < lvl. upd ! i = Some (stop h head key as i)"
    using descend_update_correct [OF ch, of lvl head key "replicate M None"] M by (auto simp: preds_def)
  have "lvl = 0 \<Longrightarrow> last (preds h head key as) = head"
    using ch by (cases as) (auto simp: chain_def preds_def)
  then have "(if lvl = 0 then head else stop h head key as 0) = last (preds h head key as)"
    using stop_0 [OF ch, of key] by (cases "lvl = 0") (simp_all only: if_True if_False simp_thms)
  with d have "descend_update h key lvl head (replicate M None) = Some (last (preds h head key as), upd)"
    by (simp only:)
  with upd that show thesis by blast
qed

lemma insert_sl_overwrites:
  assumes ch: "chain M (sl_nodes sl) (sl_head sl) (sl_level sl) as"
    and size: "sl_size sl = length as" and bytes: "sl_byteSize sl = entry_bytes (entries (sl_nodes sl) as)"
    and q: "succs (sl_nodes sl) key as = q # qs" "Key (sl_nodes sl ! q) = key"
  shows "\<exists>sl' delta. insert_sl M coins sl key v = Some (sl', delta) \<and> skip_inv M sl' \<and>
     contents sl' = ins_sorted key v (contents sl) \<and> sl_byteSize sl' = sl_byteSize sl + delta"
proof -
  let ?h = "sl_nodes sl"
  obtain upd where d: "descend_update ?h key (sl_level sl) (sl_head sl) (replicate M None) =
      Some (last (preds ?h (sl_head sl) key as), upd)"
    using descend_update_top [OF ch] by blast
  note over = chain_overwritten [OF ch q, of v]
  let ?sl' = "sl\<lparr>sl_nodes := ?h[q := (?h ! q)\<lparr>Value := v\<rparr>],
                 sl_byteSize := sl_byteSize sl + (vlen v - vlen (Value (?h ! q)))\<rparr>"
  have "insert_sl M coins sl key v = Some (?sl', vlen v - vlen (Value (?h ! q)))"
    using d next_last_preds [OF ch, of key] q by (simp add: insert_sl_def Let_def)
  moreover have "skip_inv M ?sl'"
    unfolding skip_inv_def using over(1,3) size bytes by (intro exI [of _ as]) simp
  moreover have "contents ?sl' = ins_sorted key v (contents sl)"
    using contents_chain [OF ch] contents_chain [of M ?sl' as] over(1,2) by simp
  ultimately show ?thesis by auto
qed

lemma insert_sl_adds:
  assumes ch: "chain M (sl_nodes sl) (sl_head sl) (sl_level sl) as"
    and size: "sl_size sl = length as" and bytes: "sl_byteSize sl = entry_bytes (entries (sl_nodes sl) as)"
    and none: "\<not> (\<exists>q qs. succs (sl_nodes sl) key as = q # qs \<and> Key (sl_nodes sl ! q) = key)"
  shows "\<exists>sl' delta. insert_sl M coins sl key v = Some (sl', delta) \<and> skip_inv M sl' \<and>
     contents sl' = ins_sorted key v (contents sl) \<and> sl_byteSize sl' = sl_byteSize sl + delta"
proof -
  let ?h = "sl_nodes sl" and ?hd = "sl_head sl" and ?lvl = "sl_level sl" and ?L = "randomLevel M coins"
  obtain upd where d: "descend_update ?h key ?lvl ?hd (replicate M None) = Some (last (preds ?h ?hd key as), upd)"
      and upd: "length upd = M" "\<forall>i < ?lvl. upd ! i = Some (stop ?h ?hd key as i)"
    using descend_update_top [OF ch] by blast
  have L: "1 \<le> ?L" "?L \<le> M" using randomLevel_bounds [of M coins] ch by (auto simp: chain_def)
  obtain upd' where r: "raise_update ?lvl ?L ?hd upd = Some upd'" "length upd' = M"
      "\<forall>i < ?L. upd' ! i = Some (stop ?h ?hd key as i)"
    using raise_update_correct [OF ch L(2) upd] by blast
  obtain h' where h': "link_levels upd' (length ?h) ?L (?h @ [newSkipNode ?L key v]) = Some h'"
      "inserted ?L ?h ?hd as key v (length ?h) h'"
    using insert_new [OF ch L r(2,3)] by blast
  note ins = chain_inserted [OF ch L succs_new [OF ch none] h'(2)]
  let ?as' = "tl (preds ?h ?hd key as) @ length ?h # succs ?h key as"
  let ?delta = "int (length key) + vlen v"
  let ?sl' = "sl\<lparr>sl_size := sl_size sl + 1, sl_level := max ?lvl ?L, sl_nodes := h',
                 sl_byteSize := sl_byteSize sl + ?delta\<rparr>"
  have cond: "(case hd_ptr (succs ?h key as) of None \<Rightarrow> None
       | Some q \<Rightarrow> if bytes_Compare (Key (?h ! q)) key = 0 then Some q else None) = None"
    using none by (auto simp: hd_ptr_def split: list.splits)
  have run: "insert_sl M coins sl key v = Some (?sl', ?delta)"
    unfolding insert_sl_def using d next_last_preds [OF ch, of key] cond r(1) h'(1) by (simp add: Let_def)
  have fresh: "key \<notin> fst ` set (entries ?h as)"
    using map_of_entries_preds_succs [OF ch, of key] none
    by (auto simp: map_of_eq_None_iff [symmetric] split: list.splits)
  have "length (entries h' ?as') = Suc (length (entries ?h as))"
    unfolding ins(2) by (rule length_ins_sorted [OF fresh])
  then have "skip_inv M ?sl'"
    unfolding skip_inv_def using ins size bytes entry_bytes_ins_sorted [OF fresh, of v]
    by (intro exI [of _ ?as']) (simp add: entries_def)
  moreover have "contents ?sl' = ins_sorted key v (contents sl)"
    using contents_chain [OF ch] contents_chain [of M ?sl' ?as'] ins by simp
  ultimately show ?thesis using run by auto
qed

lemma insert_sl_correct:
  assumes "skip_inv M sl"
  shows "\<exists>sl' delta. insert_sl M coins sl key v = Some (sl', delta) \<and> skip_inv M sl' \<and>
     contents sl' = ins_sorted key v (contents sl) \<and> sl_byteSize sl' = sl_byteSize sl + delta"
proof -
  obtain as where as: "chain M (sl_nodes sl) (sl_head sl) (sl_level sl) as" "sl_size sl = length as"
      "sl_byteSize sl = entry_bytes (entries (sl_nodes sl) as)"
    using assms by (auto simp: skip_inv_def)
  show ?thesis
    using insert_sl_overwrites [OF as, of key] insert_sl_adds [OF as, of key] by blast
qed

section \<open>Deleting\<close>

text \<open>\<open>h'\<close> is \<open>h\<close> with the node \<open>q\<close> bypassed on the levels below \<open>j\<close>.\<close>

definition bypassed :: "SkipNode list \<Rightarrow> nat \<Rightarrow> nat list \<Rightarrow> bytes \<Rightarrow> nat list \<Rightarrow> nat \<Rightarrow> SkipNode list \<Rightarrow> bool" where
  "bypassed h head as key qs j h' \<longleftrightarrow>
     length h' = length h \<and>
     (\<forall>a < length h. height h' a = height h a \<and> Key (h' ! a) = Key (h ! a) \<and> Value (h' ! a) = Value (h ! a)) \<and>
     (\<forall>a < length h. \<forall>i < height h a. Next (h' ! a) ! i =
        (if i < j \<and> stop h head key as i = a then hd_ptr (at_level h i qs) else Next (h ! a) ! i))"

lemma stop_bounds:
  assumes ch: "chain M h head lvl as" and "i < M"
  shows "stop h head key as i < length h" and "stop h head key as i \<notin> set (succs h key as)"
proof -
  have mem: "stop h head key as i \<in> set (preds h head key as)" by (rule stop_in_preds(1) [OF assms])
  have d: "distinct (preds h head key as @ succs h key as)"
    and len: "\<forall>a \<in> set (preds h head key as @ succs h key as). a < length h"
    using ch preds_succs [of head as h key] by (metis chain_def)+
  show "stop h head key as i < length h" using mem len by simp
  show "stop h head key as i \<notin> set (succs h key as)" using mem d by auto
qed

lemma unlink_levels_stops:
  assumes ch: "chain M h head lvl as" and S: "succs h key as = q # qs"
    and upd: "length upd = M" "\<forall>i < lvl. upd ! i = Some (stop h head key as i)"
    and byp: "bypassed h head as key qs (height h q) hj"
  shows "unlink_levels upd q [height h q..<lvl] hj = Some hj"
proof (cases "height h q < lvl")
  case False
  then show ?thesis by simp
next
  case True
  let ?j = "height h q"
  let ?u = "stop h head key as ?j"
  have jM: "?j < M" using True ch by (simp add: chain_def)
  note u = stop_bounds [OF ch jM, of key] stop_in_preds(2) [OF ch jM, of key]
  have "Next (h ! ?u) ! ?j = hd_ptr (at_level h ?j qs)"
    using next_stop [OF ch jM, of key] S by simp
  then have nx: "next_at hj ?u ?j = Some (hd_ptr (at_level h ?j qs))"
    using byp u by (simp add: bypassed_def next_at_def)
  have "distinct (succs h key as)"
    using ch preds_succs [of head as h key] by (metis chain_def distinct_append)
  then have "q \<notin> set qs" using S by simp
  then have "hd_ptr (at_level h ?j qs) \<noteq> Some q"
    by (cases "at_level h ?j qs") (auto simp: filter_eq_Cons_iff)
  then show ?thesis using nx upd True jM by (simp add: upt_rec [of ?j lvl])
qed

lemma bypassed_Suc:
  assumes byp: "bypassed h head as key qs j hj" and u: "stop h head key as j < length h"
    and "u = stop h head key as j"
  shows "bypassed h head as key qs (Suc j)
           (hj[u := (hj ! u)\<lparr>Next := (Next (hj ! u))[j := hd_ptr (at_level h j qs)]\<rparr>])"
    (is "bypassed _ _ _ _ _ _ ?hj'")
  unfolding bypassed_def
proof (intro conjI allI impI)
  show "length ?hj' = length h" using byp by (simp add: bypassed_def)
  fix a assume a: "a < length h"
  show "height ?hj' a = height h a" "Key (?hj' ! a) = Key (h ! a)" "Value (?hj' ! a) = Value (h ! a)"
    using byp a u assms(3) by (cases "a = u"; simp add: bypassed_def)+
  fix i assume i: "i < height h a"
  show "Next (?hj' ! a) ! i =
      (if i < Suc j \<and> stop h head key as i = a then hd_ptr (at_level h i qs) else Next (h ! a) ! i)"
    using byp a i u assms(3) by (cases "a = u"; cases "i = j"; auto simp: bypassed_def less_Suc_eq)
qed

lemma unlink_levels_correct:
  assumes ch: "chain M h head lvl as" and S: "succs h key as = q # qs"
    and upd: "length upd = M" "\<forall>i < lvl. upd ! i = Some (stop h head key as i)"
    and "j \<le> height h q" and "bypassed h head as key qs j hj"
  shows "\<exists>h'. unlink_levels upd q [j..<lvl] hj = Some h' \<and> bypassed h head as key qs (height h q) h'"
  using assms(5,6)
proof (induction "height h q - j" arbitrary: j hj)
  case 0
  then have j: "j = height h q" by simp
  with unlink_levels_stops [OF ch S upd, of hj] 0 show ?case by simp
next
  case (Suc d)
  then have j: "j < height h q" by simp
  have "q \<in> set as" using S by (metis list.set_intros(1) set_dropWhileD succs_def)
  then have "height h q \<le> lvl" and q: "q < length h" using ch by (auto simp: chain_def)
  then have jl: "j < lvl" and jM: "j < M" using j ch by (auto simp: chain_def)
  let ?u = "stop h head key as j"
  note u = stop_bounds [OF ch jM, of key] stop_in_preds(2) [OF ch jM, of key]
  have uq: "?u \<noteq> q" using u(2) S by auto
  have dj: "d = height h q - Suc j" using Suc.hyps(2) by linarith
  note byp = Suc.prems(2)
  have "Next (h ! ?u) ! j = Some q" using next_stop [OF ch jM, of key] S j by simp
  then have nx: "next_at hj ?u j = Some (Some q)"
    using byp u by (simp add: bypassed_def next_at_def)
  have split: "head # as = preds h head key as @ q # qs" using preds_succs [of head as h key] S by simp
  have "Next (h ! q) ! j = hd_ptr (at_level h j qs)"
    using ch linkedD [of h "preds h head key as" q qs j] j split by (simp add: chain_def)
  then have nq: "next_at hj q j = Some (hd_ptr (at_level h j qs))"
    using byp q j uq by (auto simp: bypassed_def next_at_def)
  obtain h' where "unlink_levels upd q [Suc j..<lvl]
        (hj[?u := (hj ! ?u)\<lparr>Next := (Next (hj ! ?u))[j := hd_ptr (at_level h j qs)]\<rparr>]) = Some h'"
      "bypassed h head as key qs (height h q) h'"
    using Suc.hyps(1) [OF dj Suc_leI [OF j] bypassed_Suc [OF byp u(1) refl]] by blast
  then show ?case using nx nq upd jl jM by (simp add: upt_rec [of j lvl])
qed

lemma bypassedD:
  assumes "bypassed h head as key qs j h'" and "a < length h"
  shows "height h' a = height h a" "Key (h' ! a) = Key (h ! a)" "Value (h' ! a) = Value (h ! a)"
  using assms by (simp_all add: bypassed_def)

lemma linked_bypassed:
  assumes ch: "chain M h head lvl as" and S: "succs h key as = q # qs"
    and byp: "bypassed h head as key qs (height h q) h'"
  shows "linked h' (preds h head key as @ qs)"
  unfolding linked_def
proof (intro allI impI)
  let ?P = "preds h head key as"
  fix ps x rs i
  assume eq: "?P @ qs = ps @ x # rs" and i: "i < height h' x"
  have split: "head # as = ?P @ q # qs" using preds_succs [of head as h key] S by metis
  have len: "\<forall>a \<in> set (?P @ q # qs). a < length h" using ch split by (metis chain_def)
  have lev: "at_level h' i cs = at_level h i cs" if "set cs \<subseteq> set (?P @ q # qs)" for cs
    using that bypassedD(1) [OF byp] len by (intro at_level_cong) blast
  have xin: "x \<in> set (?P @ q # qs)" using eq by (metis Un_iff in_set_conv_decomp list.set_intros(2) set_append)
  then have x: "x < length h" using len by blast
  have hx: "i < height h x" using i bypassedD(1) [OF byp x] by simp
  have iM: "i < M" using hx xin ch split[symmetric] by (force simp: chain_def)
  have new: "Next (h' ! x) ! i =
      (if i < height h q \<and> stop h head key as i = x then hd_ptr (at_level h i qs) else Next (h ! x) ! i)"
    using byp x hx by (simp add: bypassed_def)
  from eq consider (left) p1 where "?P = ps @ x # p1" "rs = p1 @ qs"
    | (right) s1 where "qs = s1 @ x # rs"
    by (auto simp: append_eq_append_conv2 append_eq_Cons_conv)
  then show "Next (h' ! x) ! i = hd_ptr (at_level h' i rs)"
  proof cases
    case (left p1)
    have old: "Next (h ! x) ! i = hd_ptr (at_level h i (p1 @ q # qs))"
      using ch split linkedD [of h ps x "p1 @ q # qs" i] hx left(1) by (simp add: chain_def)
    have "at_level h' i rs = at_level h i p1 @ at_level h i qs"
      using left lev [of rs] by auto
    then show ?thesis using new old stop_eq_iff [OF ch left(1) hx] by (auto simp: hd_ptr_append)
  next
    case (right s1)
    have "stop h head key as i \<noteq> x" using stop_bounds(2) [OF ch iM, of key] S right by auto
    moreover have "Next (h ! x) ! i = hd_ptr (at_level h i rs)"
      using ch split linkedD [of h "?P @ q # s1" x rs i] hx right by (simp add: chain_def)
    moreover have "at_level h' i rs = at_level h i rs" using lev [of rs] right by auto
    ultimately show ?thesis using new by simp
  qed
qed

lemma chain_bypassed:
  assumes ch: "chain M h head lvl as" and S: "succs h key as = q # qs"
    and byp: "bypassed h head as key qs (height h q) h'"
  defines "as' \<equiv> tl (preds h head key as) @ qs"
  shows "chain M h' head lvl as'" and "entries h' as' = entries h (tl (preds h head key as)) @ entries h qs"
proof -
  let ?T = "tl (preds h head key as)"
  have P: "preds h head key as = head # ?T" by (simp add: preds_def)
  have as: "as = ?T @ q # qs" using preds_succs [of head as h key] S P by (metis append_Cons list.inject)
  have sub: "set as' \<subseteq> set as"
    using arg_cong [OF as, of set] unfolding as'_def by (metis Un_mono set_append set_subset_Cons subset_refl)
  have old: "\<forall>a \<in> set (head # as). a < length h" using ch by (simp add: chain_def)
  note same = bypassedD [OF byp]
  have keys: "map (\<lambda>a. Key (h' ! a)) as' = map (\<lambda>a. Key (h ! a)) as'"
    using sub same(2) old by (intro map_cong) auto
  have "entries h' as' = entries h as'" using sub same old by (auto simp: entries_def)
  then show "entries h' as' = entries h ?T @ entries h qs" by (simp add: as'_def entries_append)
  have ord: "sorted_wrt (<) (map (\<lambda>a. Key (h ! a)) (?T @ q # qs))" "distinct (head # ?T @ q # qs)"
    using ch as by (metis chain_def)+
  show "chain M h' head lvl as'"
    unfolding chain_def
  proof (intro conjI)
    show "1 \<le> M" "lvl \<le> M" "height h' head = M" using ch same(1) [of head] by (auto simp: chain_def)
    show "distinct (head # as')" using ord(2) by (auto simp: as'_def)
    show "\<forall>a \<in> set (head # as'). a < length h'" using sub old byp by (auto simp: bypassed_def)
    show "\<forall>a \<in> set as'. 1 \<le> height h' a \<and> height h' a \<le> lvl" using sub ch same(1) by (auto simp: chain_def)
    show "sorted_wrt (<) (map (\<lambda>a. Key (h' ! a)) as')"
      unfolding keys using ord(1) by (auto simp: as'_def sorted_wrt_append)
    show "linked h' (head # as')" using linked_bypassed [OF ch S byp] P unfolding as'_def by (metis append_Cons)
  qed
qed

lemma lower_level_correct:
  assumes "chain M h head lvl as"
  shows "\<exists>l. lower_level h head lvl = Some l \<and> chain M h head l as"
  using assms
proof (induction lvl)
  case 0
  then show ?case by simp
next
  case (Suc l)
  have "l < height h head" using Suc.prems by (auto simp: chain_def)
  then have nx: "next_at h head l = Some (hd_ptr (at_level h l as))"
    using Suc.prems by (intro chain_next [where ps = "[]"]) auto
  show ?case
  proof (cases "at_level h l as")
    case Nil
    then have "\<forall>a \<in> set as. height h a \<le> l" by (auto simp: filter_empty_conv not_less)
    then have "chain M h head l as" using Suc.prems by (auto simp: chain_def)
    then show ?thesis using Suc.IH nx Nil by simp
  next
    case (Cons a bs)
    then show ?thesis using nx Suc.prems by simp
  qed
qed

lemma delete_sl_unlinks:
  assumes ch: "chain M (sl_nodes sl) (sl_head sl) (sl_level sl) as" and "sl_size sl = length as"
    and q: "succs (sl_nodes sl) key as = q # qs" "Key (sl_nodes sl ! q) = key"
  defines "as' \<equiv> tl (preds (sl_nodes sl) (sl_head sl) key as) @ qs"
  shows "\<exists>sl'. delete_sl M sl key = Some (sl', True) \<and> sl_size sl' = length as' \<and>
     chain M (sl_nodes sl') (sl_head sl') (sl_level sl') as' \<and>
     contents sl' = entries (sl_nodes sl) (tl (preds (sl_nodes sl) (sl_head sl) key as)) @ entries (sl_nodes sl) qs"
proof -
  let ?h = "sl_nodes sl" and ?hd = "sl_head sl" and ?lvl = "sl_level sl"
  obtain upd where d: "descend_update ?h key ?lvl ?hd (replicate M None) = Some (last (preds ?h ?hd key as), upd)"
      and upd: "length upd = M" "\<forall>i < ?lvl. upd ! i = Some (stop ?h ?hd key as i)"
    using descend_update_top [OF ch] by blast
  have "bypassed ?h ?hd as key qs 0 ?h" by (simp add: bypassed_def)
  then obtain h' where h': "unlink_levels upd q [0..<?lvl] ?h = Some h'"
      "bypassed ?h ?hd as key qs (height ?h q) h'"
    using unlink_levels_correct [OF ch q(1) upd, of 0 ?h] by auto
  note byp = chain_bypassed [OF ch q(1) h'(2), folded as'_def]
  obtain l where l: "lower_level h' ?hd ?lvl = Some l" "chain M h' ?hd l as'"
    using lower_level_correct [OF byp(1)] by blast
  let ?sl' = "sl\<lparr>sl_nodes := h', sl_level := l, sl_size := sl_size sl - 1\<rparr>"
  have "delete_sl M sl key = Some (?sl', True)"
    using d next_last_preds [OF ch, of key] q h'(1) l(1) by (simp add: delete_sl_def)
  moreover have "length as = length (tl (preds ?h ?hd key as)) + length (succs ?h key as)"
    using arg_cong [OF preds_succs [of ?hd as ?h key], of length] by (simp add: preds_def)
  then have "sl_size ?sl' = length as'" using assms(2) q(1) by (simp add: as'_def)
  moreover have "chain M (sl_nodes ?sl') (sl_head ?sl') (sl_level ?sl') as'" using l(2) by simp
  ultimately show ?thesis using contents_chain [of M ?sl' as'] byp(2) by auto
qed

lemma entries_at:
  assumes ch: "chain M h head lvl as" and q: "succs h key as = q # qs" "Key (h ! q) = key"
  shows "entries h as = entries h (tl (preds h head key as)) @ (key, Value (h ! q)) # entries h qs"
    and "filter (\<lambda>e. fst e \<noteq> key) (entries h as) = entries h (tl (preds h head key as)) @ entries h qs"
proof -
  let ?T = "tl (preds h head key as)"
  have "as = ?T @ q # qs" using preds_succs [of head as h key] q(1) by (simp add: preds_def)
  from arg_cong [OF this, of "entries h"]
  show es: "entries h as = entries h ?T @ (key, Value (h ! q)) # entries h qs"
    using q(2) by (simp add: entries_append) (simp add: entries_def)
  have "\<forall>e \<in> set (entries h ?T). fst e < key" "\<forall>e \<in> set (entries h qs). key < fst e"
    using entries_sorted [OF ch] by (auto simp: es sorted_wrt_append)
  then have "filter (\<lambda>e. fst e \<noteq> key) (entries h ?T) = entries h ?T"
      "filter (\<lambda>e. fst e \<noteq> key) (entries h qs) = entries h qs"
    by (auto intro!: filter_True)
  then show "filter (\<lambda>e. fst e \<noteq> key) (entries h as) = entries h ?T @ entries h qs" by (simp add: es)
qed

lemma delete_sl_absent:
  assumes ch: "chain M (sl_nodes sl) (sl_head sl) (sl_level sl) as"
    and none: "\<not> (\<exists>q qs. succs (sl_nodes sl) key as = q # qs \<and> Key (sl_nodes sl ! q) = key)"
  shows "delete_sl M sl key = Some (sl, False)" and "key \<notin> fst ` set (contents sl)"
proof -
  obtain upd where "descend_update (sl_nodes sl) key (sl_level sl) (sl_head sl) (replicate M None) =
      Some (last (preds (sl_nodes sl) (sl_head sl) key as), upd)"
    using descend_update_top [OF ch] by blast
  then show "delete_sl M sl key = Some (sl, False)"
    using next_last_preds [OF ch, of key] none by (auto simp: delete_sl_def hd_ptr_def split: list.splits)
  show "key \<notin> fst ` set (contents sl)"
    using map_of_entries_preds_succs [OF ch, of key] none contents_chain [OF ch]
    by (auto simp: map_of_eq_None_iff [symmetric] split: list.splits)
qed

lemma delete_sl_correct:
  assumes ch: "chain M (sl_nodes sl) (sl_head sl) (sl_level sl) as" and "sl_size sl = length as"
  shows "\<exists>sl' b as'. delete_sl M sl key = Some (sl', b) \<and>
     chain M (sl_nodes sl') (sl_head sl') (sl_level sl') as' \<and> sl_size sl' = length as' \<and>
     b = (key \<in> fst ` set (contents sl)) \<and> contents sl' = filter (\<lambda>e. fst e \<noteq> key) (contents sl)"
proof (cases "\<exists>q qs. succs (sl_nodes sl) key as = q # qs \<and> Key (sl_nodes sl ! q) = key")
  case False
  note absent = delete_sl_absent [OF ch False]
  then have "filter (\<lambda>e. fst e \<noteq> key) (contents sl) = contents sl" by (auto intro!: filter_True)
  with absent assms show ?thesis by auto
next
  case True
  then obtain q qs where q: "succs (sl_nodes sl) key as = q # qs" "Key (sl_nodes sl ! q) = key" by blast
  note at = entries_at [OF ch q, folded contents_chain [OF ch]]
  then have "key \<in> fst ` set (contents sl)" by simp
  with at(2) delete_sl_unlinks [OF assms q] show ?thesis by metis
qed

section \<open>The list as an ordered table\<close>

lemma skip_invE:
  assumes "skip_inv M sl"
  obtains as where "chain M (sl_nodes sl) (sl_head sl) (sl_level sl) as"
    and "contents sl = entries (sl_nodes sl) as" and "sl_size sl = length as"
    and "sl_byteSize sl = entry_bytes (contents sl)"
  using assms contents_chain unfolding skip_inv_def by metis

lemma newSkipList_inv: "1 \<le> M \<Longrightarrow> skip_inv M (newSkipList M)"
proof -
  assume M: "1 \<le> M"
  have "linked [newSkipNode M [] None] [0]"
    by (auto simp: linked_def newSkipNode_def Cons_eq_append_conv)
  then have "chain M (sl_nodes (newSkipList M)) (sl_head (newSkipList M)) (sl_level (newSkipList M)) []"
    using M by (simp add: chain_def newSkipList_def newSkipNode_def)
  then show ?thesis
    unfolding skip_inv_def
    by (intro exI [of _ "[]"]) (simp add: newSkipList_def entries_def entry_bytes_def)
qed

lemma contents_newSkipList: "1 \<le> M \<Longrightarrow> contents (newSkipList M) = []"
  by (simp add: contents_def collectAllEntry_def newSkipList_def newSkipNode_def next_at_def
      collect_from.simps)

lemma contents_sorted: "skip_inv M sl \<Longrightarrow> sorted_keys (contents sl)"
  by (erule skip_invE) (simp add: entries_sorted)

lemma collectAllEntry_contents: "skip_inv M sl \<Longrightarrow> collectAllEntry sl = Some (contents sl)"
  by (erule skip_invE) (simp add: collectAllEntry_chain)

lemma search_contents:
  "skip_inv M sl \<Longrightarrow>
   search sl key = Some (case map_of (contents sl) key of None \<Rightarrow> (None, False) | Some v \<Rightarrow> (v, True))"
  by (erule skip_invE) (simp add: search_chain)

lemma sl_size_contents: "skip_inv M sl \<Longrightarrow> sl_size sl = length (contents sl)"
  by (erule skip_invE) (simp add: entries_def)

lemma sl_byteSize_contents: "skip_inv M sl \<Longrightarrow> sl_byteSize sl = entry_bytes (contents sl)"
  by (erule skip_invE)

text \<open>
  \<open>for _, entry := range entries { tmp.insert(entry.Key, entry.Value) }\<close>, over any insert
  operation; \<open>cs\<close> supplies the random bits of each call.
\<close>

fun insert_entries ::
    "('c \<Rightarrow> 't \<Rightarrow> bytes \<Rightarrow> bytes option \<Rightarrow> ('t \<times> int) option) \<Rightarrow> (nat \<Rightarrow> 'c) \<Rightarrow> 't \<Rightarrow>
     (bytes \<times> bytes option) list \<Rightarrow> 't option" where
  "insert_entries ins cs t [] = Some t"
| "insert_entries ins cs t ((k, v) # es) =
     (case ins (cs (length es)) t k v of None \<Rightarrow> None | Some (t', _) \<Rightarrow> insert_entries ins cs t' es)"

text \<open>
  What the memtable asks of its write table: total operations, an ascending traversal, lookups
  that agree with it, and exact byte accounting.
\<close>

locale ordered_table =
  fixes inv :: "'t \<Rightarrow> bool"
    and new :: "'t"
    and ins :: "'c \<Rightarrow> 't \<Rightarrow> bytes \<Rightarrow> bytes option \<Rightarrow> ('t \<times> int) option"
    and find :: "'t \<Rightarrow> bytes \<Rightarrow> (bytes option \<times> bool) option"
    and collect :: "'t \<Rightarrow> (bytes \<times> bytes option) list option"
    and bytes_used :: "'t \<Rightarrow> int"
    and view :: "'t \<Rightarrow> (bytes \<times> bytes option) list"
  assumes new_inv: "inv new" and new_view: "view new = []"
    and ins_total: "inv t \<Longrightarrow> \<exists>t' d. ins c t k v = Some (t', d)"
    and ins_view: "inv t \<Longrightarrow> ins c t k v = Some (t', d) \<Longrightarrow>
          inv t' \<and> view t' = ins_sorted k v (view t) \<and> bytes_used t' = bytes_used t + d"
    and find_view: "inv t \<Longrightarrow>
          find t k = Some (case map_of (view t) k of None \<Rightarrow> (None, False) | Some v \<Rightarrow> (v, True))"
    and collect_view: "inv t \<Longrightarrow> collect t = Some (view t)"
    and view_sorted: "inv t \<Longrightarrow> sorted_keys (view t)"
    and bytes_view: "inv t \<Longrightarrow> bytes_used t = entry_bytes (view t)"
begin

lemma insert_entries_view:
  "inv t \<Longrightarrow> \<exists>t'. insert_entries ins cs t es = Some t' \<and> inv t' \<and>
     view t' = fold (\<lambda>(k, v). ins_sorted k v) es (view t)"
proof (induction es arbitrary: t)
  case Nil
  then show ?case by simp
next
  case (Cons e es)
  obtain k v where e: "e = (k, v)" by (cases e)
  obtain t1 d where t1: "ins (cs (length es)) t k v = Some (t1, d)" using ins_total [OF Cons.prems] by blast
  then show ?case using Cons.IH [of t1] ins_view [OF Cons.prems t1] e by simp
qed

lemma find_after_ins:
  assumes "inv t" and "ins c t k v = Some (t', d)"
  shows "find t' k' = (if k' = k then Some (v, True) else find t k')"
  using assms ins_view [OF assms] by (auto simp: find_view)

end

lemma map_of_fold_ins_sorted:
  "map_of (fold (\<lambda>(k, v). ins_sorted k v) es t) = map_of t ++ map_of (rev es)"
proof (induction es arbitrary: t)
  case Nil
  then show ?case by simp
next
  case (Cons e es)
  obtain k v where "e = (k, v)" by (cases e)
  with Cons show ?case by (auto simp: fun_eq_iff map_add_def split: option.splits)
qed

interpretation skip: ordered_table "skip_inv (Suc M)" "newSkipList (Suc M)" "insert_sl (Suc M)"
  search collectAllEntry sl_byteSize contents
proof (unfold_locales, goal_cases)
  case 1
  show ?case by (rule newSkipList_inv) simp
next
  case 2
  show ?case by (rule contents_newSkipList) simp
next
  case (3 t c k v)
  then show ?case using insert_sl_correct by blast
next
  case (4 t c k v t' d)
  then show ?case using insert_sl_correct [OF 4(1), of c k v] by auto
qed (simp_all add: search_contents collectAllEntry_contents contents_sorted sl_byteSize_contents)

end
