(* ===== verification/MergeCorrect.thy ===== *)
theory MergeCorrect
  imports MergeIter SkipList
begin

text \<open>
  Correctness of the merge: the iterator over sorted tables yields every key once, in ascending order,
  with the value of the newest table that has it; the streaming writer produces the same bytes and
  index as the writer of a flushed table; \<open>MergeSSTable\<close> therefore adds a table with the union of
  the merged ones.
\<close>

section \<open>The union of tables, later ones first\<close>

definition tables_view :: "LogEntry list list \<Rightarrow> bytes \<rightharpoonup> bytes option" where
  "tables_view tss = foldl (\<lambda>m es. m ++ map_of es) Map.empty tss"

definition merge_entries :: "LogEntry list list \<Rightarrow> LogEntry list" where
  "merge_entries tss = fold (\<lambda>(k, v). ins_sorted k v) (concat tss) []"

lemma tables_view_Nil [simp]: "tables_view [] = Map.empty"
  and tables_view_snoc [simp]: "tables_view (tss @ [es]) = tables_view tss ++ map_of es"
  by (simp_all add: tables_view_def)

lemma tables_view_append: "tables_view (tss @ uss) = tables_view tss ++ tables_view uss"
  by (induction uss rule: rev_induct) (simp_all flip: append_assoc)

lemma tables_view_Some: "tables_view tss k = Some v \<Longrightarrow> \<exists>es \<in> set tss. (k, v) \<in> set es"
proof (induction tss rule: rev_induct)
  case (snoc es tss)
  then show ?case
  proof (cases "map_of es k")
    case (Some w)
    then show ?thesis using snoc.prems map_of_SomeD [OF Some] by (auto simp: map_add_def)
  qed (auto simp: map_add_def)
qed simp

lemma sorted_fold_ins: "sorted_keys t \<Longrightarrow> sorted_keys (fold (\<lambda>(k, v). ins_sorted k v) es t)"
  by (induction es arbitrary: t) (auto split: prod.splits)

lemma map_of_rev_distinct: "distinct (map fst es) \<Longrightarrow> map_of (rev es) = map_of es"
  by (metis distinct_rev map_of_inject_set rev_map set_rev)

lemma map_of_merge_entries:
  assumes "\<forall>es \<in> set tss. sorted_keys es"
  shows "map_of (merge_entries tss) = tables_view tss"
  using assms
proof (induction tss rule: rev_induct)
  case Nil
  then show ?case by (simp add: merge_entries_def)
next
  case (snoc es tss)
  then have "map_of (rev es) = map_of es" by (simp add: map_of_rev_distinct sorted_keys_distinct)
  with snoc show ?case by (simp add: merge_entries_def map_of_fold_ins_sorted)
qed

lemma sorted_merge_entries: "sorted_keys (merge_entries tss)"
  by (simp add: merge_entries_def sorted_fold_ins)

section \<open>Iterators over a data area\<close>

definition it_at :: "sstableIterator \<Rightarrow> LogEntry list \<Rightarrow> bool" where
  "it_at it rs \<longleftrightarrow> it_err it = None \<and> seg (it_f it) (it_pos it) (enc_entries rs) \<and>
     dataEnd it = Some (it_pos it + length (enc_entries rs)) \<and> (\<forall>e \<in> set rs. entry_fits e)"

lemma it_Next_end: "it_at it [] \<Longrightarrow> it_Next it = (False, it)"
  by (simp add: it_at_def it_Next_def)

lemma it_Next_at:
  assumes "it_at it ((k, v) # rs)"
  shows "\<exists>it'. it_Next it = (True, it') \<and> it_key it' = k \<and> it_value it' = v \<and> it_at it' rs"
proof -
  let ?l = "length (enc_entry (k, v))"
  have s: "seg (it_f it) (it_pos it) (enc_entry (k, v))" "seg (it_f it) (it_pos it + ?l) (enc_entries rs)"
    using assms by (simp_all add: it_at_def enc_entries_Cons seg_append)
  have r: "read_entry (it_f it) (it_pos it) = Inr ((k, v), it_pos it + ?l)"
    using read_entry_seg [OF s(1)] assms by (simp add: it_at_def)
  show ?thesis
    using assms s(2) enc_entry_neq_Nil [of "(k, v)"]
    by (simp add: it_at_def it_Next_def r enc_entries_Cons add.assoc)
qed

lemma it_at_new:
  assumes "fs p = Some f" and "sst_file f es"
  shows "\<exists>it. newSSTableIterator fs p = Some it \<and> it_at it es"
  using assms sst_file_shape [OF assms(2)]
  by (simp add: newSSTableIterator_def it_at_def sstableDataEnd_file entries_ok_def)

text \<open>A source in the heap: its current entry and what is left of its file.\<close>

definition src_stream :: "mergeSource \<Rightarrow> LogEntry list \<Rightarrow> bool" where
  "src_stream s es \<longleftrightarrow> (\<exists>k v rs. es = (k, v) # rs \<and> ms_key s = Some k \<and> ms_value s = v \<and>
     ms_prev s = Some k \<and> it_at (ms_it s) rs \<and> sorted_keys es)"

lemma pull_at:
  assumes "it_at (ms_it s) rs" and "sorted_keys rs" and "\<forall>p. ms_prev s = Some p \<longrightarrow> (\<forall>e \<in> set rs. p < fst e)"
  shows "\<exists>s'. pull s = Inr s' \<and> srcIdx s' = srcIdx s \<and>
           (if rs = [] then ms_key s' = None else src_stream s' rs)"
proof (cases rs)
  case Nil
  then show ?thesis using assms(1) it_Next_end [of "ms_it s"] by (simp add: pull_def it_at_def)
next
  case (Cons e rs')
  obtain k v where e: "e = (k, v)" by fastforce
  obtain it' where it': "it_Next (ms_it s) = (True, it')" "it_key it' = k" "it_value it' = v" "it_at it' rs'"
    using it_Next_at assms(1) Cons e by blast
  have "\<not> (case ms_prev s of None \<Rightarrow> False | Some p \<Rightarrow> bytes_Compare k p \<le> 0)"
    using assms(3) Cons e by (auto simp: not_le split: option.splits)
  with it' Cons e assms(2) show ?thesis by (simp add: pull_def src_stream_def)
qed

section \<open>The heap of sources\<close>

definition heap_ok :: "(nat \<Rightarrow> LogEntry list) \<Rightarrow> nat \<Rightarrow> mergeSource list \<Rightarrow> bool" where
  "heap_ok D K h \<longleftrightarrow> is_heap merge_rank h \<and> distinct (map srcIdx h) \<and>
     (\<forall>s \<in> set h. srcIdx s < K \<and> src_stream s (D (srcIdx s))) \<and>
     (\<forall>i < K. D i \<noteq> [] \<longrightarrow> i \<in> srcIdx ` set h)"

abbreviation pop_top :: "mergeSource list \<Rightarrow> mergeSource" where
  "pop_top h \<equiv> fst (heap_Pop heap_Less h)"

abbreviation pop_rest :: "mergeSource list \<Rightarrow> mergeSource list" where
  "pop_rest h \<equiv> snd (heap_Pop heap_Less h)"

lemmas merge_heap = array_heap.set_pop [of _ merge_rank, folded heap_Less_rank]
  array_heap.pop_inv [of merge_rank, folded heap_Less_rank]
  array_heap.distinct_pop [of _ _ merge_rank, folded heap_Less_rank]
  array_heap.push_inv [of merge_rank, folded heap_Less_rank]
  array_heap.set_push [of merge_rank, folded heap_Less_rank]
  array_heap.distinct_push [of _ _ _ merge_rank, folded heap_Less_rank]
  array_heap.pop_min [of merge_rank, folded heap_Less_rank]

lemma src_stream_sorted: "src_stream s es \<Longrightarrow> sorted_keys es \<and> es \<noteq> []"
  by (auto simp: src_stream_def)

lemma heap_ok_sorted: "heap_ok D K h \<Longrightarrow> i < K \<Longrightarrow> sorted_keys (D i)"
  unfolding heap_ok_def using src_stream_sorted by (metis (no_types, lifting) imageE list.simps(8) sorted_wrt.simps(1))

lemma heap_ok_advance:
  assumes "heap_ok D K h" and "h \<noteq> []"
  shows "\<exists>h'. advance (pop_top h) (pop_rest h) = Inr h' \<and>
           heap_ok (D(srcIdx (pop_top h) := tl (D (srcIdx (pop_top h))))) K h'"
proof -
  let ?s = "pop_top h" and ?g = "pop_rest h"
  let ?i = "srcIdx ?s"
  let ?D = "D(?i := tl (D ?i))"
  have h: "is_heap merge_rank h" "distinct (map srcIdx h)"
      "\<forall>s \<in> set h. srcIdx s < K \<and> src_stream s (D (srcIdx s))" "\<forall>i < K. D i \<noteq> [] \<longrightarrow> i \<in> srcIdx ` set h"
    using assms(1) by (simp_all add: heap_ok_def)
  have set: "set h = insert ?s (set ?g)" by (rule merge_heap(1) [OF assms(2)])
  have g: "is_heap merge_rank ?g" "distinct (map srcIdx ?g)" "?i \<notin> srcIdx ` set ?g"
    using merge_heap(2) [OF h(1) assms(2)] merge_heap(3,4) [OF assms(2) h(2)] by simp_all
  have top: "?i < K" "src_stream ?s (D ?i)" using h(3) set by auto
  then obtain k v rs where d: "D ?i = (k, v) # rs" "ms_prev ?s = Some k" "it_at (ms_it ?s) rs" "sorted_keys (D ?i)"
    by (auto simp: src_stream_def)
  obtain s' where s': "pull ?s = Inr s'" "srcIdx s' = ?i" "if rs = [] then ms_key s' = None else src_stream s' rs"
    using pull_at [of ?s rs] d by auto
  have rest: "\<forall>s \<in> set ?g. srcIdx s < K \<and> src_stream s (?D (srcIdx s))"
    using h(3) set g(3) by (auto simp: image_iff)
  have cover: "i \<in> srcIdx ` set ?g" if "i < K" "D i \<noteq> []" "i \<noteq> ?i" for i
    using h(4) that set by auto
  show ?thesis
  proof (cases "rs = []")
    case True
    then have "advance ?s ?g = Inr ?g" using s' by (simp add: advance_def)
    moreover have "heap_ok ?D K ?g"
      unfolding heap_ok_def using g rest cover True d(1) by auto
    ultimately show ?thesis by blast
  next
    case False
    then have st: "src_stream s' rs" using s'(3) by simp
    then have "ms_key s' \<noteq> None" by (auto simp: src_stream_def)
    then have "advance ?s ?g = Inr (heap_Push heap_Less s' ?g)" using s'(1) by (simp add: advance_def)
    moreover have "heap_ok ?D K (heap_Push heap_Less s' ?g)"
      unfolding heap_ok_def
      using merge_heap(5) [OF g(1)] merge_heap(7) [OF g(2)] g(3) s'(2) rest cover st d(1) top(1)
      by (auto simp: merge_heap(6))
    ultimately show ?thesis by blast
  qed
qed

text \<open>The head of the heap is least, and newest among equal keys.\<close>

lemma heap_ok_top:
  assumes "heap_ok D K h" and "h \<noteq> []" and "i < K" and "e \<in> set (D i)"
  obtains k v rs where "ms_key (h ! 0) = Some k" and "ms_value (h ! 0) = v"
    and "srcIdx (h ! 0) < K" and "D (srcIdx (h ! 0)) = (k, v) # rs"
    and "k \<le> fst e" and "fst e = k \<Longrightarrow> i \<le> srcIdx (h ! 0)"
proof -
  have "h ! 0 \<in> set h" using assms(2) by simp
  then obtain k v rs where top: "ms_key (h ! 0) = Some k" "ms_value (h ! 0) = v" "srcIdx (h ! 0) < K"
      "D (srcIdx (h ! 0)) = (k, v) # rs"
    using assms(1) by (auto simp: heap_ok_def src_stream_def)
  have "D i \<noteq> []" using assms(4) by auto
  then obtain s where s: "s \<in> set h" "srcIdx s = i" using assms(1,3) by (auto simp: heap_ok_def)
  then obtain k' v' rs' where d: "D i = (k', v') # rs'" "ms_key s = Some k'" "sorted_keys (D i)"
    using assms(1) by (auto simp: heap_ok_def src_stream_def)
  have "k' \<le> fst e" using d assms(4) by (auto simp: less_imp_le)
  moreover have "merge_rank (h ! 0) \<le> merge_rank s"
    using assms(1) s(1) array_heap.peek_min [of merge_rank h s] by (simp add: heap_ok_def)
  then have "k < k' \<or> k = k' \<and> i \<le> srcIdx (h ! 0)"
    using top d s(2) by (auto simp: merge_rank_def)
  ultimately show thesis using that top by fastforce
qed

lemma heap_ok_cong:
  assumes "heap_ok D K h" and "\<forall>i < K. D i = D' i"
  shows "heap_ok D' K h"
  using assms unfolding heap_ok_def by metis

lemma pop_top_nth: "h \<noteq> [] \<Longrightarrow> pop_top h = h ! 0"
  by (rule heap_Pop_keeps)

lemma filter_tl:
  "D i = (k, v) # rs \<Longrightarrow> filter (\<lambda>e. fst e \<noteq> k) ((D(i := tl (D i))) j) = filter (\<lambda>e. fst e \<noteq> k) (D j)"
  by auto

lemma drop_dups_ok:
  assumes "heap_ok D K h" and "\<forall>i < K. \<forall>e \<in> set (D i). k \<le> fst e"
  shows "\<exists>h'. drop_dups k h = Inr h' \<and> heap_ok (\<lambda>i. filter (\<lambda>e. fst e \<noteq> k) (D i)) K h'"
  using assms
proof (induction k h arbitrary: D rule: drop_dups.induct)
  case (1 k h)
  show ?case
  proof (cases "h \<noteq> [] \<and> ms_key (h ! 0) = Some k")
    case True
    let ?i = "srcIdx (h ! 0)"
    let ?D = "D(?i := tl (D ?i))"
    obtain h1 where h1: "advance (pop_top h) (pop_rest h) = Inr h1" "heap_ok ?D K h1"
      using heap_ok_advance [OF "1.prems"(1)] True by (auto simp: pop_top_nth)
    have "src_stream (h ! 0) (D ?i)" using True "1.prems"(1) by (simp add: heap_ok_def)
    then obtain v rs where d: "D ?i = (k, v) # rs" using True by (auto simp: src_stream_def)
    have "\<forall>i < K. \<forall>e \<in> set (?D i). k \<le> fst e"
      using "1.prems"(2) d by (metis fun_upd_apply list.sel(3) list.set_intros(2))
    from "1.IH" [OF True h1(1) h1(2) this] show ?thesis
      using True h1(1) by (subst drop_dups.simps) (simp add: filter_tl [of D, OF d] del: fun_upd_apply)
  next
    case False
    have "filter (\<lambda>e. fst e \<noteq> k) (D i) = D i" if i: "i < K" for i
    proof (rule filter_True, rule ballI)
      fix e assume e: "e \<in> set (D i)"
      then have "h \<noteq> []" using "1.prems"(1) i by (auto simp: heap_ok_def)
      from heap_ok_top [OF "1.prems"(1) this i e] obtain c v rs
        where c: "ms_key (h ! 0) = Some c" "srcIdx (h ! 0) < K" "D (srcIdx (h ! 0)) = (c, v) # rs" "c \<le> fst e"
        by metis
      then have "k \<le> c" using "1.prems"(2) by (metis fst_conv list.set_intros(1))
      with c False \<open>h \<noteq> []\<close> show "fst e \<noteq> k" by auto
    qed
    then have "heap_ok (\<lambda>i. filter (\<lambda>e. fst e \<noteq> k) (D i)) K h"
      using heap_ok_cong [OF "1.prems"(1)] by simp
    moreover have "drop_dups k h = Inr h" using False by (subst drop_dups.simps) auto
    ultimately show ?thesis by blast
  qed
qed

abbreviation streams :: "(nat \<Rightarrow> LogEntry list) \<Rightarrow> nat \<Rightarrow> LogEntry list list" where
  "streams D K \<equiv> map D [0..<K]"

lemma tables_view_newest:
  assumes "i < K" and "map_of (D i) k = Some v" and "\<forall>j < K. i < j \<longrightarrow> map_of (D j) k = None"
  shows "tables_view (streams D K) k = Some v"
  using assms
proof (induction K)
  case (Suc K)
  show ?case
  proof (cases "i = K")
    case True
    then show ?thesis using Suc.prems(2) by (simp add: map_add_def)
  next
    case False
    then have "tables_view (streams D K) k = Some v" using Suc by simp
    moreover have "map_of (D K) k = None" using Suc.prems False by simp
    ultimately show ?thesis by (simp add: map_add_def)
  qed
qed simp

lemma map_of_filter_neq: "map_of (filter (\<lambda>e. fst e \<noteq> k) es) = (map_of es)(k := None)"
  by (induction es) (auto simp: fun_eq_iff)

lemma tables_view_filter:
  "tables_view (streams (\<lambda>i. filter (\<lambda>e. fst e \<noteq> k) (D i)) K) = (tables_view (streams D K))(k := None)"
  by (induction K) (auto simp: map_of_filter_neq fun_eq_iff map_add_def split: option.splits)

lemma mi_Next_ok:
  assumes "heap_ok D K (mi_h m)" and "mi_err m = None" and "mi_h m \<noteq> []"
  shows "\<exists>m'. mi_Next m = (True, m') \<and> mi_err m' = None \<and>
           heap_ok (\<lambda>i. filter (\<lambda>e. fst e \<noteq> curKey m') (D i)) K (mi_h m') \<and>
           (\<forall>i < K. \<forall>e \<in> set (D i). curKey m' \<le> fst e) \<and>
           tables_view (streams D K) (curKey m') = Some (curVal m')"
proof -
  let ?h = "mi_h m"
  let ?s = "?h ! 0"
  let ?i = "srcIdx ?s"
  let ?D = "D(?i := tl (D ?i))"
  have "?s \<in> set ?h" using assms(3) by simp
  then obtain k v rs where s: "ms_key ?s = Some k" "ms_value ?s = v" "?i < K" "D ?i = (k, v) # rs"
    using assms(1) by (auto simp: heap_ok_def src_stream_def)
  have least: "k \<le> fst e" "fst e = k \<Longrightarrow> i \<le> ?i" if "i < K" "e \<in> set (D i)" for i e
    using heap_ok_top [OF assms(1,3) that] s(1) by (metis option.inject)+
  obtain h1 where h1: "advance (pop_top ?h) (pop_rest ?h) = Inr h1" "heap_ok ?D K h1"
    using heap_ok_advance [OF assms(1,3)] by (auto simp: pop_top_nth [OF assms(3)])
  have "\<forall>i < K. \<forall>e \<in> set (?D i). k \<le> fst e"
    using least(1) s(4) by (metis fun_upd_apply list.sel(3) list.set_intros(2))
  from drop_dups_ok [OF h1(2) this] obtain h2 where h2: "drop_dups k h1 = Inr h2"
      "heap_ok (\<lambda>i. filter (\<lambda>e. fst e \<noteq> k) (D i)) K h2"
    by (auto simp: filter_tl [of D, OF s(4)] simp del: fun_upd_apply)
  have "map_of (D j) k = None" if "j < K" "?i < j" for j
  proof (rule ccontr)
    assume "map_of (D j) k \<noteq> None"
    then obtain w where "(k, w) \<in> set (D j)" by (auto dest: map_of_SomeD)
    with least(2) [OF that(1) this] that(2) show False by simp
  qed
  then have "tables_view (streams D K) k = Some v"
    using tables_view_newest [OF s(3), of D k v] s(4) by simp
  moreover have "mi_Next m = (True, m\<lparr>mi_h := h2, curKey := k, curVal := v\<rparr>)"
    using assms(2,3) h1(1) h2(1) s(1,2) pop_top_nth [OF assms(3)]
    by (simp add: mi_Next_def Let_def split_beta)
  ultimately show ?thesis using h2(2) least(1) assms(2) by simp
qed

lemma tables_view_dom:
  "tables_view (streams D K) k = Some v \<Longrightarrow> \<exists>i < K. (k, v) \<in> set (D i)"
  using tables_view_Some [of "streams D K" k v] by auto

lemma merge_loop_ok:
  assumes "heap_ok D K (mi_h m)" and "mi_err m = None"
  shows "\<exists>out m'. merge_loop m mo = (m', fold (\<lambda>(k, v). merge_write k v) out mo) \<and> mi_err m' = None \<and>
           sorted_keys out \<and> map_of out = tables_view (streams D K)"
  using assms
proof (induction m mo arbitrary: D rule: merge_loop.induct)
  case (1 m mo)
  show ?case
  proof (cases "mi_h m = []")
    case True
    then have "mi_Next m = (False, m)" by (simp add: mi_Next_def)
    then have "merge_loop m mo = (m, mo)" by (subst merge_loop.simps) simp
    moreover have "tables_view (streams D K) = Map.empty"
    proof (rule ext, rule ccontr)
      fix x assume "tables_view (streams D K) x \<noteq> None"
      then obtain i e where "i < K" "e \<in> set (D i)" using tables_view_dom by blast
      then show False using "1.prems"(1) True by (force simp: heap_ok_def)
    qed
    ultimately show ?thesis using "1.prems"(2) by (intro exI [of _ "[]"] exI [of _ m]) simp
  next
    case False
    let ?F = "\<lambda>k i. filter (\<lambda>e. fst e \<noteq> k) (D i)"
    obtain m1 where m1: "mi_Next m = (True, m1)" "mi_err m1 = None" "heap_ok (?F (curKey m1)) K (mi_h m1)"
        "\<forall>i < K. \<forall>e \<in> set (D i). curKey m1 \<le> fst e" "tables_view (streams D K) (curKey m1) = Some (curVal m1)"
      using mi_Next_ok [OF "1.prems" False] by blast
    let ?k = "curKey m1" and ?v = "curVal m1"
    obtain out m' where out: "merge_loop m1 (merge_write ?k ?v mo) = (m', fold (\<lambda>(k, v). merge_write k v) out (merge_write ?k ?v mo))"
        "mi_err m' = None" "sorted_keys out" "map_of out = tables_view (streams (?F ?k) K)"
      using "1.IH" [of "?F ?k"] m1 by auto
    have loop: "merge_loop m mo = (m', fold (\<lambda>(k, v). merge_write k v) ((?k, ?v) # out) mo)"
      using out(1) m1(1) by (subst merge_loop.simps) simp
    have above: "?k < fst e" if "e \<in> set out" for e
    proof -
      have "map_of out (fst e) = Some (snd e)"
        using that out(3) by (simp add: sorted_keys_distinct)
      then obtain i where "i < K" "e \<in> set (?F ?k i)"
        using out(4) tables_view_dom [of "?F ?k"] by (metis prod.collapse)
      then show ?thesis using m1(4) by (auto simp: order_less_le)
    qed
    then have "sorted_keys ((?k, ?v) # out)" using out(3) by auto
    moreover have "map_of ((?k, ?v) # out) = tables_view (streams D K)"
      using out(4) m1(5) by (auto simp: tables_view_filter fun_eq_iff)
    ultimately show ?thesis using loop out(2) by blast
  qed
qed

lemma merge_write_fold:
  defines "mo \<equiv> (\<lambda>out. fold (\<lambda>(k, v). merge_write k v) out merge_start)"
  shows "mo out = \<lparr>mo_data = enc_entries out, mo_blockIdx = block_index out, mo_keys = map fst out,
     mo_minKey = (if out = [] then [] else fst (hd out)), mo_maxKey = (if out = [] then [] else fst (last out)),
     mo_dataOffset = length (enc_entries out), mo_count = length out\<rparr>"
proof (induction out rule: rev_induct)
  case Nil
  then show ?case by (simp add: mo_def merge_start_def)
next
  case (snoc e out)
  obtain k v where e: "e = (k, v)" by fastforce
  have "mo (out @ [e]) = merge_write k v (mo out)" by (simp add: mo_def e)
  also have "\<dots> = \<lparr>mo_data = enc_entries (out @ [e]), mo_blockIdx = block_index (out @ [e]), mo_keys = map fst (out @ [e]),
     mo_minKey = (if out = [] then k else fst (hd out)), mo_maxKey = k,
     mo_dataOffset = length (enc_entries (out @ [e])), mo_count = length (out @ [e])\<rparr>"
    unfolding snoc.IH block_index_snoc
    by (cases v) (simp_all add: merge_write_def Let_def e enc_entry_def enc_entries_Cons)
  finally show ?case by (simp add: e hd_append)
qed

section \<open>MergeSSTable\<close>

lemma pull_sources_ok:
  assumes "list_all2 it_at iters tss" and "\<forall>es \<in> set tss. sorted_keys es \<and> es \<noteq> []"
  shows "\<exists>hs. pull_sources idx iters h = Inr (h @ hs) \<and> map srcIdx hs = [idx..<idx + length tss] \<and>
           list_all2 src_stream hs tss"
  using assms
proof (induction iters tss arbitrary: idx h rule: list_all2_induct)
  case Nil
  then show ?case by simp
next
  case (Cons it iters es tss)
  let ?s = "\<lparr>ms_it = it, srcIdx = idx, ms_key = None, ms_value = None, ms_prev = None\<rparr>"
  obtain s where s: "pull ?s = Inr s" "srcIdx s = idx" "src_stream s es"
    using pull_at [of ?s es] Cons by auto
  then have k: "ms_key s \<noteq> None" by (auto simp: src_stream_def)
  obtain hs where hs: "pull_sources (idx + 1) iters (h @ [s]) = Inr ((h @ [s]) @ hs)"
      "map srcIdx hs = [idx + 1..<idx + 1 + length tss]" "list_all2 src_stream hs tss"
    using Cons.IH [of "idx + 1" "h @ [s]"] Cons.prems by auto
  have "map srcIdx (s # hs) = [idx..<idx + length (es # tss)]"
    using hs(2) s(2) by (simp add: upt_rec)
  with hs s k show ?case by (intro exI [of _ "s # hs"]) simp
qed

lemma newMergeIterator_ok:
  assumes "list_all2 it_at iters tss" and "\<forall>es \<in> set tss. sorted_keys es \<and> es \<noteq> []"
  shows "\<exists>m. newMergeIterator iters = Inr m \<and> mi_err m = None \<and> heap_ok (\<lambda>i. tss ! i) (length tss) (mi_h m)"
proof -
  obtain hs where hs: "pull_sources 0 iters [] = Inr hs" "map srcIdx hs = [0..<length tss]" "list_all2 src_stream hs tss"
    using pull_sources_ok [OF assms, of 0 "[]"] by auto
  let ?h = "heap_Init heap_Less hs"
  have h: "is_heap merge_rank ?h" "mset ?h = mset hs"
    using heap_Init_correct [of merge_rank hs] by (simp_all add: heap_Less_rank)
  have set: "set ?h = set hs" using h(2) by (rule mset_eq_setD)
  have "mset (map srcIdx ?h) = mset (map srcIdx hs)" using h(2) by simp
  then have "distinct (map srcIdx ?h)" using hs(2) by (metis distinct_upt mset_eq_imp_distinct_iff)
  moreover have "srcIdx s < length tss \<and> src_stream s (tss ! srcIdx s)" if s: "s \<in> set hs" for s
  proof -
    obtain j where j: "j < length hs" "s = hs ! j" using s by (metis in_set_conv_nth)
    have l: "length hs = length tss" using hs(3) by (rule list_all2_lengthD)
    have "srcIdx s = j" using hs(2) j l by (metis add_0 nth_map nth_upt)
    then show ?thesis using hs(3) j l by (simp add: list_all2_nthD)
  qed
  moreover have "i \<in> srcIdx ` set hs" if "i < length tss" for i
  proof -
    have "srcIdx ` set hs = set [0..<length tss]" using hs(2) by (metis image_set)
    then show ?thesis using that by simp
  qed
  ultimately have "heap_ok (\<lambda>i. tss ! i) (length tss) ?h"
    using h(1) set by (simp add: heap_ok_def)
  then show ?thesis using hs(1) by (simp add: newMergeIterator_def)
qed

definition files_hold :: "SSTable \<Rightarrow> SSTableMata list \<Rightarrow> LogEntry list list \<Rightarrow> bool" where
  "files_hold ss files tss \<longleftrightarrow> list_all2 (\<lambda>m es. table_at ss (Filepath m) es) files tss"

lemma open_iters_ok:
  assumes "files_hold ss files tss"
  shows "\<exists>iters. open_iters (sst_fs ss) files = Some iters \<and> list_all2 it_at iters tss"
  using assms unfolding files_hold_def
proof (induction files tss rule: list_all2_induct)
  case (Cons m files es tss)
  then obtain it where "newSSTableIterator (sst_fs ss) (Filepath m) = Some it" "it_at it es"
    using it_at_new [of "sst_fs ss" "Filepath m" _ es] unfolding table_at_def by blast
  with Cons.IH show ?case by auto
qed simp

lemma files_hold_ok: "files_hold ss files tss \<Longrightarrow> es \<in> set tss \<Longrightarrow> entries_ok es"
  by (auto simp: files_hold_def in_set_conv_nth list_all2_conv_all_nth table_at_def sst_file_def)

lemma merge_entries_eqI:
  assumes "\<forall>es \<in> set tss. sorted_keys es" and "sorted_keys out" and "map_of out = tables_view tss"
  shows "out = merge_entries tss"
  using assms sorted_keys_ext sorted_merge_entries map_of_merge_entries by metis

lemma merge_entries_ok:
  assumes "\<forall>es \<in> set tss. entries_ok es" and "tss \<noteq> []"
  shows "entries_ok (merge_entries tss)"
proof -
  have s: "\<forall>es \<in> set tss. sorted_keys es" using assms(1) by (simp add: entries_ok_def)
  have "entry_fits e" if "e \<in> set (merge_entries tss)" for e
  proof -
    have "map_of (merge_entries tss) (fst e) = Some (snd e)"
      using that sorted_merge_entries [of tss] by (simp add: sorted_keys_distinct)
    then obtain es where "es \<in> set tss" "e \<in> set es"
      using map_of_merge_entries [OF s] tables_view_Some by (metis prod.collapse)
    then show ?thesis using assms(1) by (simp add: entries_ok_def)
  qed
  moreover have "merge_entries tss \<noteq> []"
  proof
    assume "merge_entries tss = []"
    then have "tables_view tss = Map.empty" using map_of_merge_entries [OF s] by simp
    moreover have "last tss \<noteq> []" using assms by (simp add: entries_ok_def)
    moreover have "tss = butlast tss @ [last tss]" using assms(2) by simp
    ultimately show False
      by (metis tables_view_snoc map_add_None option.distinct(1) neq_Nil_conv map_of_Cons_code(2) prod.collapse)
  qed
  ultimately show ?thesis by (simp add: entries_ok_def sorted_merge_entries)
qed

lemma MergeSSTable_outcomes:
  assumes "float_ok fm" and "order_ok order" and "files_hold ss files tss" and "files \<noteq> []"
    and "file_fits fm order (merge_entries tss)"
  shows "\<exists>r ss'. MergeSSTable fm order dir now io files lvl ss = Some (r, ss') \<and>
           others_kept (merged_path dir now) ss ss' \<and>
           (if create_ok io \<and> write_ok io \<and> bloom_ok io \<and> sync_ok io \<and> stat_ok io
            then r = Some ((new_meta lvl (merged_path dir now) (length (image_of fm order (merge_entries tss))) (merge_entries tss))\<lparr>ptr := next_ptr ss\<rparr>) \<and>
                 table_at ss' (merged_path dir now) (merge_entries tss) \<and>
                 mata ss' = mata ss @ [the r] \<and> next_ptr ss' = next_ptr ss + 1
            else r = None \<and> mata ss' = mata ss \<and> next_ptr ss' = next_ptr ss)"
proof -
  let ?es = "merge_entries tss"
  have ok: "\<forall>es \<in> set tss. entries_ok es" using files_hold_ok [OF assms(3)] by blast
  then have s: "\<forall>es \<in> set tss. sorted_keys es \<and> es \<noteq> []" by (simp add: entries_ok_def)
  have ne: "tss \<noteq> []" using assms(3,4) by (auto simp: files_hold_def)
  have es: "entries_ok ?es" by (rule merge_entries_ok [OF ok ne])
  then have nes: "?es \<noteq> []" by (simp add: entries_ok_def)
  obtain iters where it: "open_iters (sst_fs ss) files = Some iters" "list_all2 it_at iters tss"
    using open_iters_ok [OF assms(3)] by blast
  obtain mi where mi: "newMergeIterator iters = Inr mi" "mi_err mi = None" "heap_ok (\<lambda>i. tss ! i) (length tss) (mi_h mi)"
    using newMergeIterator_ok [OF it(2) s] by blast
  obtain out mi' where out: "merge_loop mi merge_start = (mi', fold (\<lambda>(k, v). merge_write k v) out merge_start)"
      "mi_err mi' = None" "sorted_keys out" "map_of out = tables_view tss"
    using merge_loop_ok [OF mi(3,2), of merge_start] by (auto simp: map_nth)
  have "out = ?es" using merge_entries_eqI s out(3,4) by blast
  then have loop: "merge_loop mi merge_start = (mi', \<lparr>mo_data = enc_entries ?es, mo_blockIdx = block_index ?es,
      mo_keys = map fst ?es, mo_minKey = fst (hd ?es), mo_maxKey = fst (last ?es),
      mo_dataOffset = length (enc_entries ?es), mo_count = length ?es\<rparr>)"
    using out(1) nes by (simp add: merge_write_fold)
  obtain pb where pb: "BuildPartitionedBloom fm (map fst ?es) DefaultNamespaceSep defaultBloomFPRate = Some pb"
    "bloom_for pb ?es" "image_of fm order ?es = sst_image (enc_entries ?es) (block_index ?es) (pb_Encode (order pb) pb)"
    "sst_file (image_of fm order ?es) ?es"
    using image_of_file [OF assms(1,2) es assms(5)] by blast
  show ?thesis
    using pb(2,4)
    by (simp add: MergeSSTable_def assms(4) it(1) mi(1) loop out(2) nes pb(1) pb(3) [symmetric] Let_def)
      (auto simp: others_kept_def table_at_def AddMata_def new_meta_def)
qed

end
