(* ===== verification/Credit.thy ===== *)
theory Credit
  imports Main
begin

text \<open>
  \<open>pkg/credit/credit.go\<close>: a pool of byte credit. \<open>Acquire\<close> blocks while the request does not fit; here it is
  a step that is enabled exactly when it fits (\<open>None\<close> means the caller keeps waiting). The amounts are
  unbounded integers: they count bytes held in memory and stay far below the range of \<open>int64\<close>.
\<close>

record Pool =
  budget :: int
  used :: int

definition New :: "int \<Rightarrow> Pool" where
  "New b = \<lparr>budget = b, used = 0\<rparr>"

definition fits :: "Pool \<Rightarrow> int \<Rightarrow> bool" where
  "fits p n \<longleftrightarrow> budget p \<le> 0 \<or> used p = 0 \<or> used p + n \<le> budget p"

definition TryAcquire :: "int \<Rightarrow> Pool \<Rightarrow> bool \<times> Pool" where
  "TryAcquire n p = (if fits p n then (True, p\<lparr>used := used p + n\<rparr>) else (False, p))"

definition Acquire :: "int \<Rightarrow> Pool \<Rightarrow> Pool option" where
  "Acquire n p = (if fits p n then Some (p\<lparr>used := used p + n\<rparr>) else None)"

definition Release :: "int \<Rightarrow> Pool \<Rightarrow> Pool" where
  "Release n p = (let u = used p - n in p\<lparr>used := (if u < 0 then 0 else u)\<rparr>)"

definition Used :: "Pool \<Rightarrow> int" where
  "Used p = used p"

lemma budget_Release [simp]: "budget (Release n p) = budget p"
  by (simp add: Release_def Let_def)

lemma budget_ops:
  "TryAcquire n p = (b, p') \<Longrightarrow> budget p' = budget p"
  "Acquire n p = Some p' \<Longrightarrow> budget p' = budget p"
  by (auto simp: TryAcquire_def Acquire_def split: if_splits)

lemma used_Release: "n \<le> used p \<Longrightarrow> used (Release n p) = used p - n"
  by (simp add: Release_def Let_def)

lemma used_TryAcquire: "TryAcquire n p = (True, p') \<Longrightarrow> used p' = used p + n"
  by (auto simp: TryAcquire_def split: if_splits)

lemma TryAcquire_False: "TryAcquire n p = (False, p') \<Longrightarrow> p' = p \<and> \<not> fits p n"
  by (auto simp: TryAcquire_def split: if_splits)

lemma used_Acquire: "Acquire n p = Some p' \<Longrightarrow> used p' = used p + n"
  by (auto simp: Acquire_def split: if_splits)

text \<open>
  The bound: with a positive budget, what is taken never exceeds the budget, or the one request that was
  let in on an empty pool.
\<close>

definition bounded :: "int \<Rightarrow> Pool \<Rightarrow> bool" where
  "bounded M p \<longleftrightarrow> (0 < budget p \<longrightarrow> used p \<le> max (budget p) M)"

lemma bounded_ops:
  assumes "bounded M p" and "n \<le> M"
  shows "TryAcquire n p = (b, p') \<Longrightarrow> bounded M p'" and "Acquire n p = Some p' \<Longrightarrow> bounded M p'"
  using assms by (auto simp: bounded_def TryAcquire_def Acquire_def fits_def split: if_splits)

lemma bounded_Release: "bounded M p \<Longrightarrow> 0 \<le> n \<Longrightarrow> bounded M (Release n p)"
  by (auto simp: bounded_def Release_def Let_def)

end
