(* ===== verification/MemTable.thy ===== *)
theory MemTable
  imports MergeCorrect Credit
begin

text \<open>
  \<open>storage/zstorage/memtable.go\<close> and \<open>storage/engine.go\<close>: the two-table memtable over the SSTables. The
  channels \<open>FlushChan\<close> and \<open>compactCh\<close> have capacity one and are flags. An operation that may wait
  for credit or for the flush worker is cut at its lock boundaries, and the interleavings of writers
  and the flush worker are the steps of a transition system.
\<close>

record MemConfig =
  MaxMemTableLevel :: nat
  MaxMemTableSize :: nat
  MaxCompactionSize :: nat
  MemTableMaxInflightBytes :: int
  SSTablePath :: path

record MemTable =
  active :: "SkipList option"
  dirty :: "SkipList option"
  FlushChan :: bool
  compactCh :: bool
  sst :: SSTable
  credits :: Pool

definition NewMemTable :: "MemConfig \<Rightarrow> (path \<rightharpoonup> bytes) \<Rightarrow> MemTable" where
  "NewMemTable cfg fs =
     \<lparr>active = Some (newSkipList (MaxMemTableLevel cfg)), dirty = None, FlushChan = False,
      compactCh = False, sst = NewSSTable fs, credits = New (MemTableMaxInflightBytes cfg)\<rparr>"

datatype mem_error = NoData | KeyNotFound | WriteErr write_error

definition mt_Size :: "MemTable \<Rightarrow> nat" where
  "mt_Size m = (case active m of None \<Rightarrow> 0 | Some a \<Rightarrow> sl_size a)"

definition StartFlush :: "MemTable \<Rightarrow> MemTable" where
  "StartFlush m = m\<lparr>FlushChan := True\<rparr>"

definition InflightBytes :: "MemTable \<Rightarrow> int" where
  "InflightBytes m = Used (credits m)"

section \<open>Reads\<close>

text \<open>
  \<open>getFromSSTables\<close>: newest first. \<open>EnsureMeta\<close> works on the shared metadata object, so its effect is written
  back into the table list.
\<close>

fun get_loop :: "SSTableMata list \<Rightarrow> bytes \<Rightarrow> SSTable \<Rightarrow> ((bytes option \<times> bool) \<times> SSTable) option" where
  "get_loop [] key ss = Some ((None, False), ss)"
| "get_loop (m # ms) key ss =
     (let meta = EnsureMeta (sst_fs ss) m;
          ss1 = ss\<lparr>mata := map (\<lambda>x. if ptr x = ptr m then meta else x) (mata ss)\<rparr>
      in if bytes_Compare key (MinKey meta) < 0 \<or> 0 < bytes_Compare key (MaxKey meta) then get_loop ms key ss1
         else case ReadFromSSTable (Filepath meta) key ss1 of
           None \<Rightarrow> None
         | Some ((value, found), ss2) \<Rightarrow>
             (if found then Some ((value, True), ss2) else get_loop ms key ss2))"

definition getFromSSTables :: "bytes \<Rightarrow> SSTable \<Rightarrow> ((bytes option \<times> bool) \<times> SSTable) option" where
  "getFromSSTables key ss = get_loop (rev (GetAllMata ss)) key ss"

text \<open>\<open>Get\<close>: active, then dirty, then the tables; a tombstone stops the search.\<close>

definition found_value :: "bytes option \<Rightarrow> mem_error + bytes" where
  "found_value val = (case val of None \<Rightarrow> Inl KeyNotFound | Some v \<Rightarrow> Inr v)"

definition mt_Get :: "bytes \<Rightarrow> MemTable \<Rightarrow> ((mem_error + bytes) \<times> MemTable) option" where
  "mt_Get key m =
     (case active m of
        None \<Rightarrow> Some (Inl NoData, m)
      | Some a \<Rightarrow>
         (case search a key of
            None \<Rightarrow> None
          | Some (val, True) \<Rightarrow> Some (found_value val, m)
          | Some (_, False) \<Rightarrow>
             (case (case dirty m of None \<Rightarrow> Some (None, False) | Some d \<Rightarrow> search d key) of
                None \<Rightarrow> None
              | Some (val, True) \<Rightarrow> Some (found_value val, m)
              | Some (_, False) \<Rightarrow>
                 (case getFromSSTables key (sst m) of
                    None \<Rightarrow> None
                  | Some ((val, True), ss) \<Rightarrow> Some (found_value val, m\<lparr>sst := ss\<rparr>)
                  | Some ((_, False), ss) \<Rightarrow> Some (Inl KeyNotFound, m\<lparr>sst := ss\<rparr>)))))"

text \<open>
  \<open>ScanRange\<close>: two cursors over the bottom level, \<open>active\<close> winning on equal keys; \<open>fn\<close> threads a state and
  says whether to go on.
\<close>

type_synonym cursor = "SkipNode list \<times> nat option"

definition cursor_key :: "cursor \<Rightarrow> bytes" where
  "cursor_key c = (case snd c of None \<Rightarrow> [] | Some p \<Rightarrow> Key (fst c ! p))"

definition cursor_val :: "cursor \<Rightarrow> bytes option" where
  "cursor_val c = (case snd c of None \<Rightarrow> None | Some p \<Rightarrow> Value (fst c ! p))"

definition cursor_next :: "cursor \<Rightarrow> cursor option" where
  "cursor_next c =
     (case snd c of None \<Rightarrow> None
      | Some p \<Rightarrow> (case next_at (fst c) p 0 of None \<Rightarrow> None | Some q \<Rightarrow> Some (fst c, q)))"

definition scan_pick :: "cursor \<Rightarrow> cursor \<Rightarrow> (bytes \<times> bytes option \<times> cursor \<times> cursor) option" where
  "scan_pick a d =
     (if snd d = None \<or> (snd a \<noteq> None \<and> bytes_Compare (cursor_key a) (cursor_key d) < 0)
      then (case cursor_next a of None \<Rightarrow> None | Some a' \<Rightarrow> Some (cursor_key a, cursor_val a, a', d))
      else if snd a = None \<or> bytes_Compare (cursor_key d) (cursor_key a) < 0
      then (case cursor_next d of None \<Rightarrow> None | Some d' \<Rightarrow> Some (cursor_key d, cursor_val d, a, d'))
      else (case cursor_next a of
              None \<Rightarrow> None
            | Some a' \<Rightarrow>
               (case cursor_next d of None \<Rightarrow> None | Some d' \<Rightarrow> Some (cursor_key a, cursor_val a, a', d'))))"

partial_function (option) scan_loop ::
    "bytes \<Rightarrow> (bytes \<Rightarrow> bytes \<Rightarrow> 's \<Rightarrow> bool \<times> 's) \<Rightarrow> cursor \<Rightarrow> cursor \<Rightarrow> 's \<Rightarrow> 's option" where
  "scan_loop hi fn a d s =
     (if snd a = None \<and> snd d = None then Some s
      else case scan_pick a d of
        None \<Rightarrow> None
      | Some (key, val, a', d') \<Rightarrow>
         (if hi \<noteq> [] \<and> 0 < bytes_Compare key hi then Some s
          else case val of
            None \<Rightarrow> scan_loop hi fn a' d' s
          | Some v \<Rightarrow>
             (let (go, s') = fn key v s in if go then scan_loop hi fn a' d' s' else Some s')))"

declare scan_loop.simps [code]

definition open_cursor :: "SkipList option \<Rightarrow> bytes \<Rightarrow> cursor option" where
  "open_cursor sl lo =
     (case sl of
        None \<Rightarrow> Some ([], None)
      | Some l \<Rightarrow> (case firstGTE l lo of None \<Rightarrow> None | Some p \<Rightarrow> Some (sl_nodes l, p)))"

definition ScanRange ::
    "bytes \<Rightarrow> bytes \<Rightarrow> (bytes \<Rightarrow> bytes \<Rightarrow> 's \<Rightarrow> bool \<times> 's) \<Rightarrow> MemTable \<Rightarrow> 's \<Rightarrow> 's option" where
  "ScanRange lo hi fn m s =
     (case open_cursor (active m) lo of
        None \<Rightarrow> None
      | Some a \<Rightarrow>
         (case open_cursor (dirty m) lo of None \<Rightarrow> None | Some d \<Rightarrow> scan_loop hi fn a d s))"

section \<open>Writes\<close>

text \<open>
  \<open>acquireCredit\<close>: the fast path, or a flush request; \<open>False\<close> means the writer now waits in \<open>Acquire\<close>.
\<close>

definition acquireCredit :: "int \<Rightarrow> MemTable \<Rightarrow> bool \<times> MemTable" where
  "acquireCredit n m =
     (let (got, p) = TryAcquire n (credits m)
      in if got then (True, m\<lparr>credits := p\<rparr>) else (False, StartFlush m))"

text \<open>The critical section of \<open>Put\<close> and \<open>Delete\<close> (a \<open>None\<close> value is the tombstone).\<close>

definition write_locked ::
    "MemConfig \<Rightarrow> (nat \<Rightarrow> bool) \<Rightarrow> bytes \<Rightarrow> bytes option \<Rightarrow> MemTable \<Rightarrow> ((mem_error + int) \<times> MemTable) option" where
  "write_locked cfg coins key value m =
     (case active m of
        None \<Rightarrow> Some (Inl NoData, m)
      | Some a \<Rightarrow>
         (case insert_sl (MaxMemTableLevel cfg) coins a key value of
            None \<Rightarrow> None
          | Some (a', delta) \<Rightarrow>
             (let m1 = m\<lparr>active := Some a'\<rparr>
              in Some (Inr delta, if MaxMemTableSize cfg < sl_size a' then StartFlush m1 else m1))))"

definition release_credit :: "int \<Rightarrow> MemTable \<Rightarrow> MemTable" where
  "release_credit n m = (if n \<noteq> 0 then m\<lparr>credits := Release n (credits m)\<rparr> else m)"

text \<open>What follows once the credit is held.\<close>

definition write_rest ::
    "MemConfig \<Rightarrow> (nat \<Rightarrow> bool) \<Rightarrow> int \<Rightarrow> bytes \<Rightarrow> bytes option \<Rightarrow> MemTable \<Rightarrow> ((mem_error + unit) \<times> MemTable) option" where
  "write_rest cfg coins full key value m =
     (case write_locked cfg coins key value m of
        None \<Rightarrow> None
      | Some (Inl e, m1) \<Rightarrow> Some (Inl e, m1\<lparr>credits := Release full (credits m1)\<rparr>)
      | Some (Inr delta, m1) \<Rightarrow> Some (Inr (), release_credit (full - delta) m1))"

text \<open>\<open>Put\<close> and \<open>Delete\<close>; the inner \<open>None\<close>: the call waits for credit.\<close>

definition mt_Put ::
    "MemConfig \<Rightarrow> (nat \<Rightarrow> bool) \<Rightarrow> bytes \<Rightarrow> bytes option \<Rightarrow> MemTable \<Rightarrow> ((mem_error + unit) option \<times> MemTable) option" where
  "mt_Put cfg coins key value m =
     (let full = int (length key) + vlen value;
          (got, m1) = acquireCredit full m
      in if \<not> got then Some (None, m1)
         else map_option (apfst Some) (write_rest cfg coins full key value m1))"

definition mt_Delete ::
    "MemConfig \<Rightarrow> (nat \<Rightarrow> bool) \<Rightarrow> bytes \<Rightarrow> MemTable \<Rightarrow> ((mem_error + unit) option \<times> MemTable) option" where
  "mt_Delete cfg coins key m =
     (let full = int (length key);
          (got, m1) = acquireCredit full m
      in if \<not> got then Some (None, m1)
         else map_option (apfst Some) (write_rest cfg coins full key None m1))"

section \<open>Flushing and compaction\<close>

text \<open>\<open>Flush\<close>, cut at its critical sections: swap, write outside the lock, clear, release.\<close>

definition flush_swap :: "MemConfig \<Rightarrow> MemTable \<Rightarrow> (SkipList option \<times> MemTable) option" where
  "flush_swap cfg m =
     (case dirty m of
        Some d \<Rightarrow> Some (Some d, m)
      | None \<Rightarrow>
         (case active m of
            None \<Rightarrow> None
          | Some a \<Rightarrow>
             (if sl_size a = 0 then Some (None, m)
              else Some (Some a, m\<lparr>dirty := Some a, active := Some (newSkipList (MaxMemTableLevel cfg))\<rparr>))))"

definition flush_write ::
    "FloatMath \<Rightarrow> (PartitionedBloom \<Rightarrow> bytes list) \<Rightarrow> MemConfig \<Rightarrow> nat \<Rightarrow> IOEnv \<Rightarrow> SkipList \<Rightarrow> MemTable \<Rightarrow>
     (bool \<times> MemTable) option" where
  "flush_write fm order cfg now io d m =
     (case collectAllEntry d of
        None \<Rightarrow> None
      | Some allEntries \<Rightarrow>
         (case WriteToSSTable fm order (SSTablePath cfg) now io allEntries (sst m) of
            None \<Rightarrow> None
          | Some (Inl _, ss) \<Rightarrow> Some (False, StartFlush (m\<lparr>sst := ss\<rparr>))
          | Some (Inr _, ss) \<Rightarrow> Some (True, m\<lparr>sst := ss\<rparr>)))"

definition flush_clear :: "MemTable \<Rightarrow> MemTable" where
  "flush_clear m = m\<lparr>dirty := None\<rparr>"

definition Flush ::
    "FloatMath \<Rightarrow> (PartitionedBloom \<Rightarrow> bytes list) \<Rightarrow> MemConfig \<Rightarrow> nat \<Rightarrow> IOEnv \<Rightarrow> MemTable \<Rightarrow> MemTable option" where
  "Flush fm order cfg now io m =
     (case flush_swap cfg m of
        None \<Rightarrow> None
      | Some (None, m1) \<Rightarrow> Some m1
      | Some (Some d, m1) \<Rightarrow>
         (case flush_write fm order cfg now io d m1 of
            None \<Rightarrow> None
          | Some (False, m2) \<Rightarrow> Some m2
          | Some (True, m2) \<Rightarrow>
              (let m3 = flush_clear m2 in Some (m3\<lparr>credits := Release (sl_byteSize d) (credits m3)\<rparr>))))"

text \<open>\<open>FlushToSSTable\<close>: a temporary list written straight to a table (snapshot replay).\<close>

definition FlushToSSTable ::
    "FloatMath \<Rightarrow> (PartitionedBloom \<Rightarrow> bytes list) \<Rightarrow> MemConfig \<Rightarrow> (nat \<Rightarrow> nat \<Rightarrow> bool) \<Rightarrow> nat \<Rightarrow> IOEnv \<Rightarrow>
     LogEntry list \<Rightarrow> MemTable \<Rightarrow> ((mem_error + unit) \<times> MemTable) option" where
  "FlushToSSTable fm order cfg coins now io ents m =
     (if ents = [] then Some (Inr (), m)
      else case insert_entries (insert_sl (MaxMemTableLevel cfg)) coins (newSkipList (MaxMemTableLevel cfg)) ents of
        None \<Rightarrow> None
      | Some tmp \<Rightarrow>
         (case collectAllEntry tmp of
            None \<Rightarrow> None
          | Some sortedEs \<Rightarrow>
             (if sortedEs = [] then Some (Inr (), m)
              else case WriteToSSTable fm order (SSTablePath cfg) now io sortedEs (sst m) of
                None \<Rightarrow> None
              | Some (Inl e, ss) \<Rightarrow> Some (Inl (WriteErr e), m\<lparr>sst := ss\<rparr>)
              | Some (Inr _, ss) \<Rightarrow> Some (Inr (), m\<lparr>sst := ss, compactCh := True\<rparr>))))"

definition WriteSSTable ::
    "FloatMath \<Rightarrow> (PartitionedBloom \<Rightarrow> bytes list) \<Rightarrow> MemConfig \<Rightarrow> nat \<Rightarrow> IOEnv \<Rightarrow> MemTable \<Rightarrow>
     ((mem_error + unit) \<times> MemTable) option" where
  "WriteSSTable fm order cfg now io m =
     (case active m of
        None \<Rightarrow> None
      | Some a \<Rightarrow>
         (case collectAllEntry a of
            None \<Rightarrow> None
          | Some es \<Rightarrow>
             (case WriteToSSTable fm order (SSTablePath cfg) now io es (sst m) of
                None \<Rightarrow> None
              | Some (r, ss) \<Rightarrow>
                  Some (case r of Inl e \<Rightarrow> Inl (WriteErr e) | Inr _ \<Rightarrow> Inr (), m\<lparr>sst := ss, compactCh := True\<rparr>))))"

text \<open>
  \<open>CompactSSTable\<close>: \<open>n\<close> levels from \<open>lvl\<close> on (ten in all); \<open>nows\<close> and \<open>ios\<close> give the clock and the outcome of
  the system calls at each level, \<open>rms\<close> whether a removal of the file succeeds.
\<close>

definition drop_files :: "(path \<Rightarrow> bool) \<Rightarrow> SSTableMata list \<Rightarrow> SSTable \<Rightarrow> SSTable" where
  "drop_files rms files ss = fold (\<lambda>meta s. RemoveMata meta (DeleteSSTable (rms (Filepath meta)) meta s)) files ss"

fun compact_levels ::
    "FloatMath \<Rightarrow> (PartitionedBloom \<Rightarrow> bytes list) \<Rightarrow> MemConfig \<Rightarrow> (nat \<Rightarrow> nat) \<Rightarrow> (nat \<Rightarrow> IOEnv) \<Rightarrow> (path \<Rightarrow> bool) \<Rightarrow>
     nat \<Rightarrow> nat \<Rightarrow> SSTable \<Rightarrow> SSTable option" where
  "compact_levels fm order cfg nows ios rms lvl 0 ss = Some ss"
| "compact_levels fm order cfg nows ios rms lvl (Suc n) ss =
     (let files = GetLevelFiles lvl ss
      in if length files < MaxCompactionSize cfg
         then compact_levels fm order cfg nows ios rms (lvl + 1) n ss
         else case MergeSSTable fm order (SSTablePath cfg) (nows lvl) (ios lvl) files (lvl + 1) ss of
           None \<Rightarrow> None
         | Some (None, ss1) \<Rightarrow> compact_levels fm order cfg nows ios rms (lvl + 1) n ss1
         | Some (Some _, ss1) \<Rightarrow>
             compact_levels fm order cfg nows ios rms (lvl + 1) n (drop_files rms files ss1))"

definition CompactSSTable ::
    "FloatMath \<Rightarrow> (PartitionedBloom \<Rightarrow> bytes list) \<Rightarrow> MemConfig \<Rightarrow> (nat \<Rightarrow> nat) \<Rightarrow> (nat \<Rightarrow> IOEnv) \<Rightarrow> (path \<Rightarrow> bool) \<Rightarrow>
     nat \<Rightarrow> MemTable \<Rightarrow> MemTable option" where
  "CompactSSTable fm order cfg nows ios rms startLevel m =
     map_option (\<lambda>ss. m\<lparr>sst := ss\<rparr>)
       (compact_levels fm order cfg nows ios rms startLevel (10 - startLevel) (sst m))"

end
