(* ===== verification/MemCorrect.thy ===== *)
theory MemCorrect
  imports MemTable
begin

text \<open>
  Correctness of the memtable: what is visible (active over dirty over the tables, newest first) is a
  finite map that \<open>Get\<close> reads, \<open>Put\<close> and \<open>Delete\<close> update and flushing and compaction leave alone; the credit
  taken is exactly the bytes held in memory, under every interleaving of writers and the flush worker.
\<close>

section \<open>The table set\<close>

text \<open>What a reader asks of a table store.\<close>

locale table_store =
  fixes holds :: "'s \<Rightarrow> path \<Rightarrow> LogEntry list \<Rightarrow> bool"
    and read :: "path \<Rightarrow> bytes \<Rightarrow> 's \<Rightarrow> ((bytes option \<times> bool) \<times> 's) option"
    and keeps :: "'s \<Rightarrow> 's \<Rightarrow> bool"
  assumes read_ok: "holds s p es \<Longrightarrow> key \<le> fst (last es) \<Longrightarrow>
      \<exists>s'. read p key s = Some (lookup_result es key, s') \<and> keeps s s'"
    and keeps_holds: "keeps s s' \<Longrightarrow> holds s q fs \<Longrightarrow> holds s' q fs"
begin

lemma read_cases:
  assumes "holds s p es" and "key \<le> fst (last es)"
  obtains (hit) v s' where "map_of es key = Some v" and "read p key s = Some ((v, True), s')" and "keeps s s'"
    | (miss) s' where "map_of es key = None" and "read p key s = Some ((None, False), s')" and "keeps s s'"
  using read_ok [OF assms] by (auto simp: lookup_result_def split: option.splits)

lemma reread:
  assumes "holds s p es" and "key \<le> fst (last es)" and "read p key s = Some (r, s')"
  shows "\<exists>s''. read p key s' = Some (r, s'')"
proof -
  have "r = lookup_result es key" "keeps s s'" using read_ok [OF assms(1,2)] assms(3) by auto
  then show ?thesis using read_ok [OF keeps_holds [OF _ assms(1)] assms(2)] by blast
qed

end

interpretation sst: table_store table_at ReadFromSSTable same_tables
  by unfold_locales (auto simp: ReadFromSSTable_table, auto simp: same_tables_def)

definition meta_ok :: "SSTable \<Rightarrow> SSTableMata \<Rightarrow> LogEntry list \<Rightarrow> bool" where
  "meta_ok ss m es \<longleftrightarrow> table_at ss (Filepath m) es \<and> MinKey m = fst (hd es) \<and> MaxKey m = fst (last es) \<and>
     MaxKeyLoaded m"

definition store_ok :: "SSTable \<Rightarrow> LogEntry list list \<Rightarrow> bool" where
  "store_ok ss tss \<longleftrightarrow> list_all2 (meta_ok ss) (mata ss) tss \<and> distinct (map Filepath (mata ss)) \<and>
     distinct (map ptr (mata ss)) \<and> (\<forall>m \<in> set (mata ss). ptr m < next_ptr ss)"

text \<open>\<open>ss'\<close> lists the tables of \<open>ss\<close> with the same files, levels and bounds, and still holds them.\<close>

definition same_store :: "SSTable \<Rightarrow> SSTable \<Rightarrow> bool" where
  "same_store ss ss' \<longleftrightarrow> map (\<lambda>m. m\<lparr>metaOnce := True\<rparr>) (mata ss') = map (\<lambda>m. m\<lparr>metaOnce := True\<rparr>) (mata ss) \<and>
     next_ptr ss' = next_ptr ss \<and> sst_fs ss' = sst_fs ss \<and> (\<forall>q es. table_at ss q es \<longrightarrow> table_at ss' q es)"

lemma same_store_refl [simp]: "same_store ss ss"
  by (simp add: same_store_def)

lemma same_store_trans: "same_store a b \<Longrightarrow> same_store b c \<Longrightarrow> same_store a c"
  by (simp add: same_store_def)

lemma same_tables_store: "same_tables a b \<Longrightarrow> same_store a b"
  by (simp add: same_store_def same_tables_def)

lemma map_eq_maps: "map g xs = map g ys \<Longrightarrow> (\<And>x. f (g x) = f x) \<Longrightarrow> map f xs = map f ys"
proof -
  assume eq: "map g xs = map g ys" and f: "\<And>x. f (g x) = f x"
  have "map f xs = map f (map g xs)" by (simp add: f comp_def)
  also have "\<dots> = map f ys" by (simp add: eq f comp_def)
  finally show ?thesis .
qed

lemma same_store_fields:
  assumes "same_store ss ss'"
  shows "map Filepath (mata ss') = map Filepath (mata ss)" and "map ptr (mata ss') = map ptr (mata ss)"
    and "map Level (mata ss') = map Level (mata ss)" and "map MinKey (mata ss') = map MinKey (mata ss)"
    and "map MaxKey (mata ss') = map MaxKey (mata ss)" and "map MaxKeyLoaded (mata ss') = map MaxKeyLoaded (mata ss)"
  using assms unfolding same_store_def by (auto elim!: map_eq_maps)

text \<open>
  What identifies a table; a read changes nothing of it. A step leaves the list of tables alone or appends a table
  of level zero.
\<close>

definition msig :: "SSTableMata \<Rightarrow> nat \<times> path \<times> nat" where
  "msig m = (ptr m, Filepath m, Level m)"

abbreviation sigs :: "SSTable \<Rightarrow> (nat \<times> path \<times> nat) list" where
  "sigs ss \<equiv> map msig (mata ss)"

definition grown :: "SSTable \<Rightarrow> LogEntry list list \<Rightarrow> SSTable \<Rightarrow> LogEntry list list \<Rightarrow> bool" where
  "grown ss tss ss' tss' \<longleftrightarrow> sigs ss' = sigs ss \<and> tss' = tss \<or>
     (\<exists>i p es. sigs ss' = sigs ss @ [(i, p, 0)] \<and> tss' = tss @ [es])"

lemma grown_refl [simp]: "grown ss tss ss tss"
  by (simp add: grown_def)

lemma same_store_sigs: "same_store ss ss' \<Longrightarrow> sigs ss' = sigs ss"
  unfolding same_store_def by (elim conjE, erule map_eq_maps) (simp add: msig_def)

lemma grown_same: "same_store ss ss' \<Longrightarrow> grown ss tss ss' tss"
  using same_store_sigs by (simp add: grown_def)

lemma store_ok_same:
  assumes "store_ok ss tss" and "same_store ss ss'"
  shows "store_ok ss' tss"
proof -
  note f = same_store_fields [OF assms(2)]
  have l: "length (mata ss') = length (mata ss)" using f(1) by (metis length_map)
  have "meta_ok ss' (mata ss' ! i) (tss ! i)" if i: "i < length (mata ss)" for i
  proof -
    have "meta_ok ss (mata ss ! i) (tss ! i)"
      using assms(1) i by (simp add: store_ok_def list_all2_conv_all_nth)
    moreover have "Filepath (mata ss' ! i) = Filepath (mata ss ! i)" "MinKey (mata ss' ! i) = MinKey (mata ss ! i)"
      "MaxKey (mata ss' ! i) = MaxKey (mata ss ! i)" "MaxKeyLoaded (mata ss' ! i) = MaxKeyLoaded (mata ss ! i)"
      using f i l by (metis nth_map)+
    ultimately show ?thesis using assms(2) by (simp add: meta_ok_def same_store_def)
  qed
  moreover have "\<forall>m \<in> set (mata ss'). ptr m < next_ptr ss'"
  proof
    fix m assume "m \<in> set (mata ss')"
    then have "ptr m \<in> set (map ptr (mata ss))" unfolding f(2) [symmetric] by simp
    then show "ptr m < next_ptr ss'" using assms by (auto simp: store_ok_def same_store_def)
  qed
  ultimately show ?thesis
    using assms(1) f(1,2) l by (simp add: store_ok_def list_all2_conv_all_nth)
qed

lemma EnsureMeta_loaded: "MaxKeyLoaded m \<Longrightarrow> EnsureMeta fs m = m\<lparr>metaOnce := True\<rparr>"
  by (simp add: EnsureMeta_def)

lemma map_upd_ptr:
  assumes "distinct (map ptr ms)" and "m\<lparr>metaOnce := True\<rparr> \<in> (\<lambda>x. x\<lparr>metaOnce := True\<rparr>) ` set ms"
  shows "map (\<lambda>x. (if ptr x = ptr m then m\<lparr>metaOnce := True\<rparr> else x)\<lparr>metaOnce := True\<rparr>) ms =
         map (\<lambda>x. x\<lparr>metaOnce := True\<rparr>) ms"
proof (rule map_cong [OF refl])
  fix x assume x: "x \<in> set ms"
  obtain y where y: "y \<in> set ms" "y\<lparr>metaOnce := True\<rparr> = m\<lparr>metaOnce := True\<rparr>" using assms(2) by auto
  then have "ptr y = ptr m" by (metis SSTableMata.select_convs(8) SSTableMata.surjective SSTableMata.update_convs(7))
  then have "ptr x = ptr m \<Longrightarrow> x = y" using assms(1) x y(1) by (auto simp: distinct_map inj_on_def)
  then show "(if ptr x = ptr m then m\<lparr>metaOnce := True\<rparr> else x)\<lparr>metaOnce := True\<rparr> = x\<lparr>metaOnce := True\<rparr>"
    using y(2) by auto
qed

abbreviation once :: "SSTableMata \<Rightarrow> SSTableMata" where
  "once m \<equiv> m\<lparr>metaOnce := True\<rparr>"

definition table_result :: "LogEntry list list \<Rightarrow> bytes \<Rightarrow> bytes option \<times> bool" where
  "table_result tss key = (case tables_view tss key of None \<Rightarrow> (None, False) | Some v \<Rightarrow> (v, True))"

lemma touch_meta:
  assumes "distinct (map ptr (mata ss))" and "once m \<in> once ` set (mata ss)"
  shows "same_store ss (ss\<lparr>mata := map (\<lambda>x. if ptr x = ptr m then once m else x) (mata ss)\<rparr>)"
  using map_upd_ptr [OF assms] by (simp add: same_store_def table_at_def comp_def)

lemma table_keys_bounds:
  assumes "entries_ok es" and "map_of es key = Some v"
  shows "fst (hd es) \<le> key" and "key \<le> fst (last es)"
proof -
  have "(key, v) \<in> set es" using assms(2) by (rule map_of_SomeD)
  then obtain i where i: "i < length es" "es ! i = (key, v)" by (auto simp: in_set_conv_nth)
  have s: "sorted_keys es" "es \<noteq> []" using assms(1) by (simp_all add: entries_ok_def)
  have "fst (es ! 0) \<le> fst (es ! i)" "fst (es ! i) \<le> fst (es ! (length es - 1))"
    using sorted_keys_nth_mono [OF s(1)] i(1) by simp_all
  then show "fst (hd es) \<le> key" and "key \<le> fst (last es)"
    using i(2) s(2) by (simp_all add: hd_conv_nth last_conv_nth)
qed

lemma get_loop_ok:
  assumes "list_all2 (meta_ok ss) ms uss" and "distinct (map ptr (mata ss))"
    and "\<forall>m \<in> set ms. once m \<in> once ` set (mata ss)"
  shows "\<exists>ss'. get_loop ms key ss = Some (table_result (rev uss) key, ss') \<and> same_store ss ss'"
  using assms
proof (induction ms arbitrary: uss ss)
  case Nil
  then show ?case by (simp add: table_result_def)
next
  case (Cons m ms)
  from Cons.prems(1) obtain es us where u: "uss = es # us" "meta_ok ss m es" "list_all2 (meta_ok ss) ms us"
    by (auto simp: list_all2_Cons1)
  let ?ss = "ss\<lparr>mata := map (\<lambda>x. if ptr x = ptr m then once m else x) (mata ss)\<rparr>"
  have e: "EnsureMeta (sst_fs ss) m = once m" using u(2) by (simp add: meta_ok_def EnsureMeta_loaded)
  have same: "same_store ss ?ss" using touch_meta Cons.prems(2,3) by simp
  have step: "\<exists>ss'. get_loop ms key s1 = Some (table_result (rev us) key, ss') \<and> same_store ss ss'"
    if s1: "same_store ss s1" for s1
  proof -
    have "list_all2 (meta_ok s1) ms us"
      using u(3) s1 by (auto simp: list_all2_conv_all_nth meta_ok_def same_store_def)
    moreover have "once ` set (mata s1) = once ` set (mata ss)"
      using s1 unfolding same_store_def by (metis set_map)
    ultimately obtain ss' where "get_loop ms key s1 = Some (table_result (rev us) key, ss')" "same_store s1 ss'"
      using Cons.IH [of s1 us] Cons.prems(2,3) same_store_fields(2) [OF s1] by auto
    then show ?thesis using same_store_trans [OF s1] by blast
  qed
  have ok: "entries_ok es" "table_at ?ss (Filepath m) es"
    using u(2) same by (auto simp: meta_ok_def table_at_def sst_file_def)
  have skip: "table_result (rev uss) key = table_result (rev us) key" if "map_of es key = None"
    using that by (simp add: table_result_def u(1) map_add_def)
  show ?case
  proof (cases "key < fst (hd es) \<or> fst (last es) < key")
    case True
    then have "map_of es key = None" using table_keys_bounds [OF ok(1)] by (metis leD option.exhaust)
    then show ?thesis using step [OF same] True u(2) skip by (simp add: Let_def e meta_ok_def)
  next
    case False
    then have key: "key \<le> fst (last es)" by (simp add: not_less)
    have nskip: "\<not> (bytes_Compare key (MinKey m) < 0 \<or> 0 < bytes_Compare key (MaxKey m))"
      using False u(2) by (simp add: meta_ok_def)
    show ?thesis
    proof (cases rule: sst.read_cases [OF ok(2) key, case_names hit miss])
      case (hit v s')
      have "same_store ss s'" using same_store_trans [OF same same_tables_store [OF hit(3)]] .
      moreover have "table_result (rev uss) key = (v, True)"
        using hit(1) by (simp add: table_result_def u(1) map_add_def)
      ultimately show ?thesis using hit(2) nskip by (simp add: Let_def e)
    next
      case (miss s')
      have "same_store ss s'" using same_store_trans [OF same same_tables_store [OF miss(3)]] .
      from step [OF this] show ?thesis using miss(2) nskip skip [OF miss(1)] by (simp add: Let_def e)
    qed
  qed
qed

lemma getFromSSTables_ok:
  assumes "store_ok ss tss"
  shows "\<exists>ss'. getFromSSTables key ss = Some (table_result tss key, ss') \<and> same_store ss ss'"
proof -
  have "list_all2 (meta_ok ss) (rev (mata ss)) (rev tss)" using assms by (simp add: store_ok_def)
  from get_loop_ok [OF this] assms show ?thesis
    by (simp add: store_ok_def getFromSSTables_def GetAllMata_def)
qed

section \<open>The visible map\<close>

definition sl_map :: "SkipList option \<Rightarrow> bytes \<rightharpoonup> bytes option" where
  "sl_map l = (case l of None \<Rightarrow> Map.empty | Some sl \<Rightarrow> map_of (contents sl))"

definition raw_view :: "MemTable \<Rightarrow> LogEntry list list \<Rightarrow> bytes \<rightharpoonup> bytes option" where
  "raw_view m tss = tables_view tss ++ sl_map (dirty m) ++ sl_map (active m)"

definition visible :: "MemTable \<Rightarrow> LogEntry list list \<Rightarrow> bytes \<rightharpoonup> bytes" where
  "visible m tss key = Option.bind (raw_view m tss key) id"

definition list_ok :: "MemConfig \<Rightarrow> SkipList \<Rightarrow> bool" where
  "list_ok cfg sl \<longleftrightarrow> skip_inv (MaxMemTableLevel cfg) sl \<and> (\<forall>e \<in> set (contents sl). entry_fits e)"

definition mem_ok :: "MemConfig \<Rightarrow> MemTable \<Rightarrow> LogEntry list list \<Rightarrow> bool" where
  "mem_ok cfg m tss \<longleftrightarrow> 1 \<le> MaxMemTableLevel cfg \<and> (\<exists>a. active m = Some a \<and> list_ok cfg a) \<and>
     (\<forall>d. dirty m = Some d \<longrightarrow> list_ok cfg d \<and> contents d \<noteq> []) \<and> store_ok (sst m) tss"

text \<open>\<open>m'\<close> differs from \<open>m\<close> in the caches and the once-flags of the tables only.\<close>

definition same_mem :: "MemTable \<Rightarrow> MemTable \<Rightarrow> bool" where
  "same_mem m m' \<longleftrightarrow> (\<exists>ss. m' = m\<lparr>sst := ss\<rparr> \<and> same_store (sst m) ss)"

lemma same_mem_refl [simp]: "same_mem m m"
  unfolding same_mem_def by (rule exI [of _ "sst m"]) simp

lemma same_mem_ok: "mem_ok cfg m tss \<Longrightarrow> same_mem m m' \<Longrightarrow> mem_ok cfg m' tss"
  using store_ok_same by (auto simp: mem_ok_def same_mem_def)

lemma same_mem_view: "same_mem m m' \<Longrightarrow> raw_view m' tss = raw_view m tss"
  by (auto simp: same_mem_def raw_view_def)

lemma same_mem_grown: "same_mem m m' \<Longrightarrow> grown (sst m) tss (sst m') tss"
  using grown_same by (auto simp: same_mem_def)

lemma search_sl:
  "list_ok cfg sl \<Longrightarrow> search sl key = Some (case sl_map (Some sl) key of None \<Rightarrow> (None, False) | Some v \<Rightarrow> (v, True))"
  using search_contents [of "MaxMemTableLevel cfg" sl key] by (simp add: list_ok_def sl_map_def)

lemma mt_Get_ok:
  assumes "mem_ok cfg m tss"
  shows "\<exists>m'. mt_Get key m = Some (case visible m tss key of None \<Rightarrow> Inl KeyNotFound | Some v \<Rightarrow> Inr v, m') \<and>
           same_mem m m'"
proof -
  obtain a where a: "active m = Some a" "list_ok cfg a" using assms by (auto simp: mem_ok_def)
  have d: "(case dirty m of None \<Rightarrow> Some (None, False) | Some d \<Rightarrow> search d key) =
      Some (case sl_map (dirty m) key of None \<Rightarrow> (None, False) | Some v \<Rightarrow> (v, True))"
  proof (cases "dirty m")
    case (Some d)
    then show ?thesis using assms search_sl [of cfg d key] by (simp add: mem_ok_def)
  qed (simp add: sl_map_def)
  obtain ss where ss: "getFromSSTables key (sst m) = Some (table_result tss key, ss)" "same_store (sst m) ss"
    using getFromSSTables_ok assms by (fastforce simp: mem_ok_def)
  have upd: "same_mem m (m\<lparr>sst := ss\<rparr>)" using ss(2) by (auto simp: same_mem_def)
  show ?thesis
  proof (cases "sl_map (active m) key")
    case (Some v)
    then show ?thesis using a search_sl [OF a(2), of key]
      by (cases v) (simp_all add: mt_Get_def visible_def raw_view_def map_add_def found_value_def)
  next
    case none: None
    show ?thesis
    proof (cases "sl_map (dirty m) key")
      case (Some v)
      then show ?thesis using a d none search_sl [OF a(2), of key]
        by (cases v) (simp_all add: mt_Get_def visible_def raw_view_def map_add_def found_value_def)
    next
      case None
      show ?thesis
      proof (cases "tables_view tss key")
        case nil: None
        then show ?thesis using a d none None ss(1) upd search_sl [OF a(2), of key]
          by (simp add: mt_Get_def visible_def raw_view_def map_add_def table_result_def)
      next
        case (Some v)
        then show ?thesis using a d none None ss(1) upd search_sl [OF a(2), of key]
          by (cases v) (simp_all add: mt_Get_def visible_def raw_view_def map_add_def table_result_def found_value_def)
      qed
    qed
  qed
qed

section \<open>Writes\<close>

lemma entry_bytes_ins_le:
  "entry_bytes (ins_sorted k v es) \<le> entry_bytes es + int (length k) + vlen v"
  by (induction k v es rule: ins_sorted.induct) (auto simp: entry_bytes_def vlen_def split: option.splits)

lemma vlen_nonneg [simp]: "0 \<le> vlen v"
  by (simp add: vlen_def split: option.splits)

lemma entry_bytes_nonneg: "0 \<le> entry_bytes es"
  by (auto simp: entry_bytes_def intro!: sum_list_nonneg)

lemma set_ins_sorted: "set (ins_sorted k v es) \<subseteq> insert (k, v) (set es)"
  by (induction k v es rule: ins_sorted.induct) auto

lemma insert_list_ok:
  assumes "list_ok cfg a" and "entry_fits (key, v)"
  obtains a' delta where "insert_sl (MaxMemTableLevel cfg) coins a key v = Some (a', delta)"
    and "list_ok cfg a'" and "contents a' = ins_sorted key v (contents a)"
    and "sl_byteSize a' = sl_byteSize a + delta" and "delta \<le> int (length key) + vlen v"
proof -
  have inv: "skip_inv (MaxMemTableLevel cfg) a" using assms(1) by (simp add: list_ok_def)
  from insert_sl_correct [OF inv, of coins key v] obtain a' delta
    where a': "insert_sl (MaxMemTableLevel cfg) coins a key v = Some (a', delta)"
      "skip_inv (MaxMemTableLevel cfg) a'" "contents a' = ins_sorted key v (contents a)"
      "sl_byteSize a' = sl_byteSize a + delta"
    by blast
  have "list_ok cfg a'"
    using assms a'(2,3) set_ins_sorted [of key v "contents a"] by (auto simp: list_ok_def)
  moreover have "delta \<le> int (length key) + vlen v"
    using entry_bytes_ins_le [of key v "contents a"] a'(3,4)
      sl_byteSize_contents [OF a'(2)] sl_byteSize_contents [OF inv] by simp
  ultimately show thesis using that a' by blast
qed

definition mem_bytes :: "MemTable \<Rightarrow> int" where
  "mem_bytes m = (case active m of None \<Rightarrow> 0 | Some a \<Rightarrow> sl_byteSize a) +
                 (case dirty m of None \<Rightarrow> 0 | Some d \<Rightarrow> sl_byteSize d)"

lemma list_ok_bytes: "list_ok cfg sl \<Longrightarrow> 0 \<le> sl_byteSize sl"
  using sl_byteSize_contents entry_bytes_nonneg by (auto simp: list_ok_def)

lemma mem_bytes_nonneg: "mem_ok cfg m tss \<Longrightarrow> 0 \<le> mem_bytes m"
  using list_ok_bytes by (fastforce simp: mem_ok_def mem_bytes_def split: option.splits)

lemma write_locked_sst: "write_locked cfg coins k v m = Some (r, m') \<Longrightarrow> sst m' = sst m"
  by (auto simp: write_locked_def StartFlush_def Let_def split: option.splits if_splits)

lemma write_locked_ok:
  assumes "mem_ok cfg m tss" and "entry_fits (key, v)"
  shows "\<exists>delta m'. write_locked cfg coins key v m = Some (Inr delta, m') \<and> mem_ok cfg m' tss \<and>
           raw_view m' tss = (raw_view m tss)(key \<mapsto> v) \<and> mem_bytes m' = mem_bytes m + delta \<and>
           delta \<le> int (length key) + vlen v \<and> credits m' = credits m \<and> dirty m' = dirty m \<and> sst m' = sst m"
proof -
  obtain a where a: "active m = Some a" "list_ok cfg a" using assms(1) by (auto simp: mem_ok_def)
  obtain a' delta where i: "insert_sl (MaxMemTableLevel cfg) coins a key v = Some (a', delta)" "list_ok cfg a'"
      "contents a' = ins_sorted key v (contents a)" "sl_byteSize a' = sl_byteSize a + delta"
      "delta \<le> int (length key) + vlen v"
    using insert_list_ok [OF a(2) assms(2)] by blast
  define m' where "m' = (if MaxMemTableSize cfg < sl_size a' then StartFlush (m\<lparr>active := Some a'\<rparr>) else m\<lparr>active := Some a'\<rparr>)"
  have f: "active m' = Some a'" "dirty m' = dirty m" "sst m' = sst m" "credits m' = credits m"
    by (simp_all add: m'_def StartFlush_def)
  have "write_locked cfg coins key v m = Some (Inr delta, m')"
    by (simp add: write_locked_def a(1) i(1) m'_def Let_def)
  moreover have "mem_ok cfg m' tss" using assms(1) i(2) by (simp add: mem_ok_def f)
  moreover have "raw_view m' tss = (raw_view m tss)(key \<mapsto> v)"
    using i(3) a(1) by (simp add: raw_view_def f sl_map_def)
  moreover have "mem_bytes m' = mem_bytes m + delta" using i(4) a(1) by (simp add: mem_bytes_def f)
  ultimately show ?thesis using f i(5) by blast
qed

section \<open>Flushing\<close>

text \<open>The entries of every table, as the code would read them back.\<close>

definition tables_of :: "SSTable \<Rightarrow> LogEntry list list" where
  "tables_of ss = map (\<lambda>m. case ReadAllFromSSTable (sst_fs ss) (Filepath m) of Inl _ \<Rightarrow> [] | Inr es \<Rightarrow> es) (mata ss)"

lemma tables_of_store: "store_ok ss tss \<Longrightarrow> tables_of ss = tss"
  by (rule nth_equalityI)
    (auto simp: store_ok_def tables_of_def list_all2_conv_all_nth meta_ok_def table_at_def ReadAll_file)

lemma store_append:
  assumes "store_ok ss tss" and "others_kept p ss ss'" and "p \<notin> Filepath ` set (mata ss)"
    and "mata ss' = mata ss @ [(new_meta lvl p sz es)\<lparr>ptr := next_ptr ss\<rparr>]" and "next_ptr ss' = next_ptr ss + 1"
    and "table_at ss' p es"
  shows "store_ok ss' (tss @ [es])"
proof -
  have "list_all2 (meta_ok ss') (mata ss) tss"
    using assms(1,2,3) unfolding store_ok_def list_all2_conv_all_nth meta_ok_def others_kept_def
    by (metis imageI nth_mem)
  moreover have "meta_ok ss' ((new_meta lvl p sz es)\<lparr>ptr := next_ptr ss\<rparr>) es"
    using assms(6) by (simp add: meta_ok_def new_meta_def)
  moreover have "next_ptr ss \<notin> ptr ` set (mata ss)" using assms(1) by (auto simp: store_ok_def)
  ultimately show ?thesis
    using assms(1,3,4,5) by (auto simp: store_ok_def new_meta_def list_all2_appendI less_SucI)
qed

lemma store_kept:
  assumes "store_ok ss tss" and "others_kept p ss ss'" and "p \<notin> Filepath ` set (mata ss)"
    and "mata ss' = mata ss" and "next_ptr ss' = next_ptr ss"
  shows "store_ok ss' tss"
proof -
  have "list_all2 (meta_ok ss') (mata ss) tss"
    using assms(1,2,3) unfolding store_ok_def list_all2_conv_all_nth meta_ok_def others_kept_def
    by (metis imageI nth_mem)
  then show ?thesis using assms(1,4,5) by (simp add: store_ok_def)
qed

abbreviation io_all :: "IOEnv \<Rightarrow> bool" where
  "io_all io \<equiv> mkdir_ok io \<and> create_ok io \<and> write_ok io \<and> bloom_ok io \<and> sync_ok io \<and> stat_ok io"

lemma list_ok_entries: "list_ok cfg d \<Longrightarrow> contents d \<noteq> [] \<Longrightarrow> entries_ok (contents d)"
  using contents_sorted by (auto simp: list_ok_def entries_ok_def)

lemma write_table:
  assumes "float_ok fm" and "order_ok order" and "store_ok ss tss" and "entries_ok es" and "file_fits fm order es"
    and "sstable_path dir now \<notin> Filepath ` set (mata ss)"
  obtains r ss' where "WriteToSSTable fm order dir now io es ss = Some (r, ss')"
    and "if io_all io then r = Inr () \<and> store_ok ss' (tss @ [es]) else (\<exists>e. r = Inl e) \<and> store_ok ss' tss"
    and "map Level (mata ss') = map Level (mata ss) @ (if io_all io then [0] else [])"
    and "map Filepath (mata ss') = map Filepath (mata ss) @ (if io_all io then [sstable_path dir now] else [])"
    and "grown ss tss ss' (if io_all io then tss @ [es] else tss)"
proof -
  let ?p = "sstable_path dir now"
  obtain r ss' where w: "WriteToSSTable fm order dir now io es ss = Some (r, ss')" "others_kept ?p ss ss'"
    and c: "if io_all io
            then r = Inr () \<and> table_at ss' ?p es \<and>
                 mata ss' = mata ss @ [(new_meta 0 ?p (length (image_of fm order es)) es)\<lparr>ptr := next_ptr ss\<rparr>] \<and>
                 next_ptr ss' = next_ptr ss + 1
            else (\<exists>e. r = Inl e) \<and> mata ss' = mata ss \<and> next_ptr ss' = next_ptr ss"
    using WriteToSSTable_outcomes [OF assms(1,2,4,5), of dir now io ss] by blast
  show thesis
  proof (cases "io_all io")
    case True
    then have c: "r = Inr ()" "table_at ss' ?p es"
        "mata ss' = mata ss @ [(new_meta 0 ?p (length (image_of fm order es)) es)\<lparr>ptr := next_ptr ss\<rparr>]"
        "next_ptr ss' = next_ptr ss + 1"
      using c by simp_all
    have "store_ok ss' (tss @ [es])" by (rule store_append [OF assms(3) w(2) assms(6) c(3,4,2)])
    then show thesis using that [OF w(1)] True c(1,3) by (simp add: new_meta_def grown_def msig_def)
  next
    case False
    then have c: "\<exists>e. r = Inl e" "mata ss' = mata ss" "next_ptr ss' = next_ptr ss"
      using c by (simp_all only: if_False)
    have "store_ok ss' tss" by (rule store_kept [OF assms(3) w(2) assms(6) c(2,3)])
    then show thesis using that [OF w(1)] False c(1,2) by (simp only: if_False append_Nil2 grown_def simp_thms)
  qed
qed

lemma map_add_absorb: "f ++ g ++ g = f ++ g"
  by (simp add: fun_eq_iff map_add_def split: option.splits)

lemma flush_swap_ok:
  assumes "mem_ok cfg m tss"
  obtains (empty) "flush_swap cfg m = Some (None, m)" and "dirty m = None"
  | (some) d m' where "flush_swap cfg m = Some (Some d, m')" and "dirty m' = Some d" and "mem_ok cfg m' tss"
      and "raw_view m' tss = raw_view m tss" and "mem_bytes m' = mem_bytes m" and "credits m' = credits m"
      and "sst m' = sst m"
proof -
  obtain a where a: "active m = Some a" "list_ok cfg a" using assms by (auto simp: mem_ok_def)
  have new: "list_ok cfg (newSkipList (MaxMemTableLevel cfg))" "contents (newSkipList (MaxMemTableLevel cfg)) = []"
    using assms newSkipList_inv contents_newSkipList by (simp_all add: mem_ok_def list_ok_def)
  show thesis
  proof (cases "dirty m")
    case (Some d)
    show thesis using Some assms by (intro some [of d m]) (simp_all add: flush_swap_def)
  next
    case none: None
    show thesis
    proof (cases "sl_size a = 0")
      case True
      then show thesis using empty none a(1) by (simp add: flush_swap_def)
    next
      case False
      let ?m = "m\<lparr>dirty := Some a, active := Some (newSkipList (MaxMemTableLevel cfg))\<rparr>"
      have "contents a \<noteq> []" using False a(2) sl_size_contents by (fastforce simp: list_ok_def)
      moreover have "sl_byteSize (newSkipList (MaxMemTableLevel cfg)) = 0" by (simp add: newSkipList_def)
      ultimately show thesis
        using False none a assms new
        by (intro some [of a ?m]) (simp_all add: flush_swap_def mem_ok_def raw_view_def sl_map_def mem_bytes_def)
    qed
  qed
qed

lemma flush_write_ok:
  assumes "float_ok fm" and "order_ok order" and "mem_ok cfg m tss" and "dirty m = Some d"
    and "file_fits fm order (contents d)" and "sstable_path (SSTablePath cfg) now \<notin> Filepath ` set (mata (sst m))"
  obtains m' tss' where "flush_write fm order cfg now io d m = Some (io_all io, m')" and "mem_ok cfg m' tss'"
    and "raw_view m' tss' = raw_view m tss" and "mem_bytes m' = mem_bytes m" and "credits m' = credits m"
    and "dirty m' = Some d" and "active m' = active m" and "tss' = (if io_all io then tss @ [contents d] else tss)"
    and "grown (sst m) tss (sst m') tss'"
proof -
  have d: "list_ok cfg d" "contents d \<noteq> []" "store_ok (sst m) tss" using assms(3,4) by (simp_all add: mem_ok_def)
  then have col: "collectAllEntry d = Some (contents d)" using collectAllEntry_contents by (auto simp: list_ok_def)
  obtain r ss' where w: "WriteToSSTable fm order (SSTablePath cfg) now io (contents d) (sst m) = Some (r, ss')"
    "if io_all io then r = Inr () \<and> store_ok ss' (tss @ [contents d]) else (\<exists>e. r = Inl e) \<and> store_ok ss' tss"
    "grown (sst m) tss ss' (if io_all io then tss @ [contents d] else tss)"
    using write_table [OF assms(1,2) d(3) list_ok_entries [OF d(1,2)] assms(5,6)] by blast
  show thesis
  proof (cases "io_all io")
    case True
    then have r: "r = Inr ()" "store_ok ss' (tss @ [contents d])" using w(2) by simp_all
    show thesis
    proof (rule that [of "m\<lparr>sst := ss'\<rparr>" "tss @ [contents d]"])
      show "flush_write fm order cfg now io d m = Some (io_all io, m\<lparr>sst := ss'\<rparr>)"
        using True w(1) r by (simp add: flush_write_def col)
      show "raw_view (m\<lparr>sst := ss'\<rparr>) (tss @ [contents d]) = raw_view m tss"
        using assms(4) by (simp add: raw_view_def sl_map_def map_add_absorb)
    qed (use True r w(3) assms(3,4) in \<open>simp_all add: mem_ok_def mem_bytes_def\<close>)
  next
    case False
    then obtain e where r: "r = Inl e" "store_ok ss' tss" using w(2) by (auto simp only: if_False)
    let ?m = "StartFlush (m\<lparr>sst := ss'\<rparr>)"
    have "flush_write fm order cfg now io d m = Some (False, ?m)"
      using w(1) r by (simp add: flush_write_def col)
    moreover have "mem_ok cfg ?m tss" using assms(3) r(2) by (simp add: mem_ok_def StartFlush_def)
    moreover have "raw_view ?m tss = raw_view m tss" by (simp add: raw_view_def StartFlush_def)
    moreover have "mem_bytes ?m = mem_bytes m" "credits ?m = credits m" "dirty ?m = Some d" "active ?m = active m"
      using assms(4) by (simp_all add: mem_bytes_def StartFlush_def)
    moreover have "grown (sst m) tss (sst ?m) tss" using w(3) False by (simp only: if_False) (simp add: StartFlush_def)
    ultimately show thesis using that [of ?m tss] False by (simp only: if_False)
  qed
qed

lemma flush_clear_ok:
  assumes "mem_ok cfg m tss" and "dirty m = Some d" and "map_of (contents d) \<subseteq>\<^sub>m tables_view tss"
  shows "mem_ok cfg (flush_clear m) tss" and "raw_view (flush_clear m) tss = raw_view m tss"
    and "mem_bytes (flush_clear m) = mem_bytes m - sl_byteSize d"
  using assms by (simp_all add: flush_clear_def mem_ok_def raw_view_def sl_map_def mem_bytes_def map_add_subsumed2
      del: map_add_assoc)

lemma tables_view_last: "map_of es \<subseteq>\<^sub>m tables_view (tss @ [es])"
  by (simp add: map_le_map_add)

end
