(* ===== verification/MemSystem.thy ===== *)
theory MemSystem
  imports MemCorrect
begin

text \<open>
  Writers, readers and the flush worker of \<open>memtable.go\<close> as a transition system: one transition per critical
  section or channel operation. A writer first takes credit (or asks for a flush and waits), then
  inserts under the lock, then gives back what it took too much; the worker takes a flush request,
  swaps the tables, writes the table file, clears \<open>dirty\<close> and gives back the credit.
\<close>

datatype writer = Waiting bytes "bytes option" | Reserved bytes "bytes option" | Releasing int

datatype flusher = Idle | Writing SkipList | Clearing SkipList | FReleasing int

record System =
  mem :: MemTable
  writers :: "writer list"
  worker :: flusher

abbreviation cost :: "bytes \<Rightarrow> bytes option \<Rightarrow> int" where
  "cost k v \<equiv> int (length k) + vlen v"

text \<open>
  The label is the write that takes effect, if any. \<open>M\<close> bounds the size of one request (the network layer
  limits a frame). The clock never repeats a file name, and a table file stays within the range of its
  offsets.
\<close>

inductive mstep ::
    "FloatMath \<Rightarrow> (PartitionedBloom \<Rightarrow> bytes list) \<Rightarrow> MemConfig \<Rightarrow> int \<Rightarrow> LogEntry option \<Rightarrow> System \<Rightarrow> System \<Rightarrow> bool"
  for fm order cfg M where
  take_credit: "\<lbrakk>entry_fits (k, v); cost k v \<le> M; acquireCredit (cost k v) (mem s) = (True, m')\<rbrakk> \<Longrightarrow>
     mstep fm order cfg M None s (s\<lparr>mem := m', writers := writers s @ [Reserved k v]\<rparr>)"
| wait_credit: "\<lbrakk>entry_fits (k, v); cost k v \<le> M; acquireCredit (cost k v) (mem s) = (False, m')\<rbrakk> \<Longrightarrow>
     mstep fm order cfg M None s (s\<lparr>mem := m', writers := writers s @ [Waiting k v]\<rparr>)"
| wake: "\<lbrakk>writers s = ws @ Waiting k v # us; Acquire (cost k v) (credits (mem s)) = Some p\<rbrakk> \<Longrightarrow>
     mstep fm order cfg M None s (s\<lparr>mem := (mem s)\<lparr>credits := p\<rparr>, writers := ws @ Reserved k v # us\<rparr>)"
| insert: "\<lbrakk>writers s = ws @ Reserved k v # us; write_locked cfg coins k v (mem s) = Some (Inr delta, m')\<rbrakk> \<Longrightarrow>
     mstep fm order cfg M (Some (k, v)) s (s\<lparr>mem := m', writers := ws @ Releasing (cost k v - delta) # us\<rparr>)"
| finish: "writers s = ws @ Releasing n # us \<Longrightarrow>
     mstep fm order cfg M None s (s\<lparr>mem := release_credit n (mem s), writers := ws @ us\<rparr>)"
| read: "mt_Get k (mem s) = Some (r, m') \<Longrightarrow> mstep fm order cfg M None s (s\<lparr>mem := m'\<rparr>)"
| flush_nothing: "\<lbrakk>worker s = Idle; FlushChan (mem s); flush_swap cfg ((mem s)\<lparr>FlushChan := False\<rparr>) = Some (None, m')\<rbrakk> \<Longrightarrow>
     mstep fm order cfg M None s (s\<lparr>mem := m'\<rparr>)"
| flush_start: "\<lbrakk>worker s = Idle; FlushChan (mem s); flush_swap cfg ((mem s)\<lparr>FlushChan := False\<rparr>) = Some (Some d, m')\<rbrakk> \<Longrightarrow>
     mstep fm order cfg M None s (s\<lparr>mem := m', worker := Writing d\<rparr>)"
| flush_save: "\<lbrakk>worker s = Writing d; file_fits fm order (contents d);
      sstable_path (SSTablePath cfg) now \<notin> Filepath ` set (mata (sst (mem s)));
      flush_write fm order cfg now io d (mem s) = Some (ok, m')\<rbrakk> \<Longrightarrow>
     mstep fm order cfg M None s (s\<lparr>mem := m', worker := (if ok then Clearing d else Idle)\<rparr>)"
| flush_clr: "worker s = Clearing d \<Longrightarrow>
     mstep fm order cfg M None s (s\<lparr>mem := flush_clear (mem s), worker := FReleasing (sl_byteSize d)\<rparr>)"
| flush_free: "worker s = FReleasing n \<Longrightarrow>
     mstep fm order cfg M None s (s\<lparr>mem := (mem s)\<lparr>credits := Release n (credits (mem s))\<rparr>, worker := Idle\<rparr>)"

inductive_cases mstepE: "mstep fm order cfg M l s s'"

definition sys_init :: "MemConfig \<Rightarrow> (path \<rightharpoonup> bytes) \<Rightarrow> System" where
  "sys_init cfg fs = \<lparr>mem = NewMemTable cfg fs, writers = [], worker = Idle\<rparr>"

text \<open>Runs from the empty store, with the writes that took effect, in order.\<close>

inductive run ::
    "FloatMath \<Rightarrow> (PartitionedBloom \<Rightarrow> bytes list) \<Rightarrow> MemConfig \<Rightarrow> int \<Rightarrow> (path \<rightharpoonup> bytes) \<Rightarrow> LogEntry list \<Rightarrow> System \<Rightarrow> bool"
  for fm order cfg M fs where
  run_init: "run fm order cfg M fs [] (sys_init cfg fs)"
| run_step: "\<lbrakk>run fm order cfg M fs ws s; mstep fm order cfg M l s s'\<rbrakk> \<Longrightarrow>
     run fm order cfg M fs (case l of None \<Rightarrow> ws | Some e \<Rightarrow> ws @ [e]) s'"

section \<open>The invariant\<close>

fun held :: "writer \<Rightarrow> int" where
  "held (Waiting k v) = 0"
| "held (Reserved k v) = cost k v"
| "held (Releasing n) = n"

fun worker_held :: "flusher \<Rightarrow> int" where
  "worker_held (FReleasing n) = n"
| "worker_held f = 0"

fun writer_ok :: "int \<Rightarrow> writer \<Rightarrow> bool" where
  "writer_ok M (Waiting k v) = (entry_fits (k, v) \<and> cost k v \<le> M)"
| "writer_ok M (Reserved k v) = entry_fits (k, v)"
| "writer_ok M (Releasing n) = (0 \<le> n)"

fun worker_ok :: "MemTable \<Rightarrow> LogEntry list list \<Rightarrow> flusher \<Rightarrow> bool" where
  "worker_ok m tss Idle = True"
| "worker_ok m tss (Writing d) = (dirty m = Some d)"
| "worker_ok m tss (Clearing d) = (dirty m = Some d \<and> map_of (contents d) \<subseteq>\<^sub>m tables_view tss)"
| "worker_ok m tss (FReleasing n) = (0 \<le> n)"

text \<open>The credit taken is the bytes of both tables plus what writers and the worker are about to settle.\<close>

definition credit_exact :: "System \<Rightarrow> bool" where
  "credit_exact s \<longleftrightarrow> used (credits (mem s)) =
     mem_bytes (mem s) + sum_list (map held (writers s)) + worker_held (worker s)"

definition sys_ok :: "MemConfig \<Rightarrow> int \<Rightarrow> System \<Rightarrow> LogEntry list list \<Rightarrow> bool" where
  "sys_ok cfg M s tss \<longleftrightarrow> mem_ok cfg (mem s) tss \<and> credit_exact s \<and> (\<forall>w \<in> set (writers s). writer_ok M w) \<and>
     worker_ok (mem s) tss (worker s) \<and> bounded M (credits (mem s))"

lemma held_nonneg: "writer_ok M w \<Longrightarrow> 0 \<le> held w"
  by (cases w) simp_all

lemma sum_held_nonneg: "\<forall>w \<in> set ws. writer_ok M w \<Longrightarrow> 0 \<le> sum_list (map held ws)"
  using held_nonneg [of M] by (auto intro!: sum_list_nonneg)

lemma worker_held_nonneg: "worker_ok m tss f \<Longrightarrow> 0 \<le> worker_held f"
  by (cases f) simp_all

lemma acquireCredit_ok:
  assumes "acquireCredit n m = (got, m')"
  shows "active m' = active m" and "dirty m' = dirty m" and "sst m' = sst m"
    and "used (credits m') = used (credits m) + (if got then n else 0)"
    and "bounded M (credits m) \<Longrightarrow> n \<le> M \<Longrightarrow> bounded M (credits m')"
proof -
  obtain b p where t: "TryAcquire n (credits m) = (b, p)" by fastforce
  show "active m' = active m" "dirty m' = dirty m" "sst m' = sst m"
    using assms t by (auto simp: acquireCredit_def StartFlush_def split: if_splits)
  show "used (credits m') = used (credits m) + (if got then n else 0)"
    using assms t used_TryAcquire [of n "credits m" p] by (auto simp: acquireCredit_def StartFlush_def split: if_splits)
  show "bounded M (credits m) \<Longrightarrow> n \<le> M \<Longrightarrow> bounded M (credits m')"
    using assms t bounded_ops(1) [OF _ _ t, of M] by (auto simp: acquireCredit_def StartFlush_def split: if_splits)
qed

lemma mem_fields_ok:
  assumes "active m' = active m" and "dirty m' = dirty m" and "sst m' = sst m"
  shows "mem_ok cfg m' tss = mem_ok cfg m tss" and "raw_view m' tss = raw_view m tss"
    and "mem_bytes m' = mem_bytes m" and "worker_ok m' tss f = worker_ok m tss f"
  using assms by (simp_all add: mem_ok_def raw_view_def mem_bytes_def, cases f) simp_all

lemma mem_bytes_ge: "mem_ok cfg m tss \<Longrightarrow> dirty m = Some d \<Longrightarrow> 0 \<le> sl_byteSize d"
  using list_ok_bytes by (simp add: mem_ok_def) blast

definition step_view :: "LogEntry option \<Rightarrow> (bytes \<rightharpoonup> bytes option) \<Rightarrow> (bytes \<rightharpoonup> bytes option)" where
  "step_view l f = (case l of None \<Rightarrow> f | Some (k, v) \<Rightarrow> f(k \<mapsto> v))"

lemma step_view_simps [simp]: "step_view None f = f" "step_view (Some (k, v)) f = f(k \<mapsto> v)"
  by (simp_all add: step_view_def)

lemma release_ok:
  assumes "sys_ok cfg M s tss" and "0 \<le> n" and "n \<le> sum_list (map held (writers s)) + worker_held (worker s)"
  shows "used (Release n (credits (mem s))) = used (credits (mem s)) - n" and "bounded M (Release n (credits (mem s)))"
proof -
  have "n \<le> used (credits (mem s))"
    using assms mem_bytes_nonneg by (fastforce simp: sys_ok_def credit_exact_def)
  then show "used (Release n (credits (mem s))) = used (credits (mem s)) - n" by (rule used_Release)
  show "bounded M (Release n (credits (mem s)))"
    using assms bounded_Release by (simp add: sys_ok_def)
qed

lemma worker_ok_cong: "dirty m' = dirty m \<Longrightarrow> worker_ok m' tss f = worker_ok m tss f"
  by (cases f) simp_all

text \<open>What a step has to establish, and the parts of the invariant a step starts from.\<close>

definition steps_to :: "MemConfig \<Rightarrow> int \<Rightarrow> LogEntry list list \<Rightarrow> LogEntry option \<Rightarrow> System \<Rightarrow> System \<Rightarrow> bool" where
  "steps_to cfg M tss l s s' \<longleftrightarrow> (\<exists>tss'. sys_ok cfg M s' tss' \<and> raw_view (mem s') tss' = step_view l (raw_view (mem s) tss) \<and>
     grown (sst (mem s)) tss (sst (mem s')) tss')"

lemma steps_toI:
  "sys_ok cfg M s' tss' \<Longrightarrow> raw_view (mem s') tss' = step_view l (raw_view (mem s) tss) \<Longrightarrow>
   grown (sst (mem s)) tss (sst (mem s')) tss' \<Longrightarrow> steps_to cfg M tss l s s'"
  by (auto simp: steps_to_def)

lemma sys_okD:
  assumes "sys_ok cfg M s tss"
  shows "mem_ok cfg (mem s) tss" and "credit_exact s" and "\<forall>w \<in> set (writers s). writer_ok M w"
    and "worker_ok (mem s) tss (worker s)" and "bounded M (credits (mem s))"
  using assms by (simp_all add: sys_ok_def)

lemmas sys_defs = sys_ok_def credit_exact_def

subsection \<open>Steps of the writers\<close>

lemma credit_step:
  assumes "sys_ok cfg M s tss" and "entry_fits (k, v)" and "cost k v \<le> M" and "acquireCredit (cost k v) (mem s) = (got, m')"
  shows "steps_to cfg M tss None s (s\<lparr>mem := m', writers := writers s @ [if got then Reserved k v else Waiting k v]\<rparr>)"
proof -
  note ok = sys_okD [OF assms(1)] and f = acquireCredit_ok [OF assms(4)]
  show ?thesis
    using ok assms(2,3) f(5) [of M] mem_fields_ok [OF f(1-3)] f(3,4) by (intro steps_toI [of _ _ _ tss]) (simp_all add: sys_defs)
qed

lemma wake_step:
  assumes "sys_ok cfg M s tss" and "writers s = ws @ Waiting k v # us" and "Acquire (cost k v) (credits (mem s)) = Some p"
  shows "steps_to cfg M tss None s (s\<lparr>mem := (mem s)\<lparr>credits := p\<rparr>, writers := ws @ Reserved k v # us\<rparr>)"
proof -
  note ok = sys_okD [OF assms(1)]
  have "writer_ok M (Waiting k v)" using ok(3) assms(2) by simp
  then have "bounded M p" using bounded_ops(2) [OF ok(5) _ assms(3)] by simp
  then show ?thesis
    using ok assms(2) used_Acquire [OF assms(3)] mem_fields_ok [of "(mem s)\<lparr>credits := p\<rparr>" "mem s"]
    by (intro steps_toI [of _ _ _ tss]) (simp_all add: sys_defs)
qed

lemma insert_step:
  assumes "sys_ok cfg M s tss" and "writers s = ws @ Reserved k v # us" and "write_locked cfg coins k v (mem s) = Some (Inr delta, m')"
  shows "steps_to cfg M tss (Some (k, v)) s (s\<lparr>mem := m', writers := ws @ Releasing (cost k v - delta) # us\<rparr>)"
proof -
  note ok = sys_okD [OF assms(1)]
  have "writer_ok M (Reserved k v)" using ok(3) assms(2) by simp
  then have e: "entry_fits (k, v)" by simp
  have w: "mem_ok cfg m' tss" "raw_view m' tss = (raw_view (mem s) tss)(k \<mapsto> v)"
      "mem_bytes m' = mem_bytes (mem s) + delta" "delta \<le> cost k v" "credits m' = credits (mem s)"
      "dirty m' = dirty (mem s)"
    using write_locked_ok [OF ok(1) e, of coins] assms(3) by auto
  show ?thesis
    using ok assms(2) w worker_ok_cong [OF w(6)] write_locked_sst [OF assms(3)] by (intro steps_toI [of _ _ _ tss]) (simp_all add: sys_defs)
qed

lemma finish_step:
  assumes "sys_ok cfg M s tss" and "writers s = ws @ Releasing n # us"
  shows "steps_to cfg M tss None s (s\<lparr>mem := release_credit n (mem s), writers := ws @ us\<rparr>)"
proof -
  note ok = sys_okD [OF assms(1)]
  have n: "0 \<le> n" "\<forall>w \<in> set (ws @ us). writer_ok M w" using ok(3) assms(2) by auto
  have r: "used (credits (release_credit n (mem s))) = used (credits (mem s)) - n"
      "bounded M (credits (release_credit n (mem s)))"
    using release_ok [OF assms(1) n(1)] assms(2) sum_held_nonneg [OF n(2)] worker_held_nonneg [OF ok(4)] ok(5)
    by (simp_all add: release_credit_def)
  show ?thesis
    using ok assms(2) n r mem_fields_ok [of "release_credit n (mem s)" "mem s"]
    by (intro steps_toI [of _ _ _ tss]) (simp_all add: sys_defs release_credit_def)
qed

lemma read_step:
  assumes "sys_ok cfg M s tss" and "mt_Get k (mem s) = Some (r, m')"
  shows "steps_to cfg M tss None s (s\<lparr>mem := m'\<rparr>)"
proof -
  note ok = sys_okD [OF assms(1)]
  from mt_Get_ok [OF ok(1), of k] assms(2) have sm: "same_mem (mem s) m'" by auto
  then have f: "active m' = active (mem s)" "dirty m' = dirty (mem s)" "credits m' = credits (mem s)"
    by (auto simp: same_mem_def)
  show ?thesis
    using ok f same_mem_ok [OF ok(1) sm] same_mem_view [OF sm] worker_ok_cong [OF f(2)] same_mem_grown [OF sm]
    by (intro steps_toI [of _ _ _ tss]) (simp_all add: sys_defs mem_bytes_def)
qed

subsection \<open>Steps of the flush worker\<close>

lemma swap_step:
  assumes "sys_ok cfg M s tss" and "worker s = Idle" and "flush_swap cfg ((mem s)\<lparr>FlushChan := False\<rparr>) = Some (od, m')"
  shows "steps_to cfg M tss None s (s\<lparr>mem := m', worker := (case od of None \<Rightarrow> Idle | Some d \<Rightarrow> Writing d)\<rparr>)"
proof -
  note ok = sys_okD [OF assms(1)]
  let ?m = "(mem s)\<lparr>FlushChan := False\<rparr>"
  have m: "mem_ok cfg ?m tss" "raw_view ?m tss = raw_view (mem s) tss" "mem_bytes ?m = mem_bytes (mem s)"
    using ok(1) mem_fields_ok [of ?m "mem s"] by simp_all
  show ?thesis
  proof (cases rule: flush_swap_ok [OF m(1), case_names empty some])
    case empty
    then have "od = None" "m' = ?m" using assms(3) by (auto simp: flush_swap_def split: option.splits if_splits)
    then show ?thesis using ok assms(2) m by (intro steps_toI [of _ _ _ tss]) (simp_all add: sys_defs)
  next
    case (some d m1)
    then have "od = Some d" "m1 = m'" using assms(3) by simp_all
    then show ?thesis using ok assms(2) some m by (intro steps_toI [of _ _ _ tss]) (simp_all add: sys_defs)
  qed
qed

lemma save_step:
  assumes "float_ok fm" and "order_ok order" and "sys_ok cfg M s tss" and "worker s = Writing d" and "file_fits fm order (contents d)"
    and "sstable_path (SSTablePath cfg) now \<notin> Filepath ` set (mata (sst (mem s)))"
    and "flush_write fm order cfg now io d (mem s) = Some (res, m')"
  shows "steps_to cfg M tss None s (s\<lparr>mem := m', worker := (if res then Clearing d else Idle)\<rparr>)"
proof -
  note ok = sys_okD [OF assms(3)]
  have d: "dirty (mem s) = Some d" using ok(4) assms(4) by simp
  obtain m1 tss' where w: "flush_write fm order cfg now io d (mem s) = Some (io_all io, m1)" "mem_ok cfg m1 tss'"
      "raw_view m1 tss' = raw_view (mem s) tss" "mem_bytes m1 = mem_bytes (mem s)" "credits m1 = credits (mem s)"
      "dirty m1 = Some d" "tss' = (if io_all io then tss @ [contents d] else tss)"
      "grown (sst (mem s)) tss (sst m1) tss'"
    using flush_write_ok [OF assms(1,2) ok(1) d assms(5,6)] by metis
  then have "m1 = m'" "res = io_all io" using assms(7) by simp_all
  then show ?thesis using ok assms(4) w by (intro steps_toI [of _ _ _ tss']) (simp_all add: sys_defs map_le_map_add)
qed

lemma clear_step:
  assumes "sys_ok cfg M s tss" and "worker s = Clearing d"
  shows "steps_to cfg M tss None s (s\<lparr>mem := flush_clear (mem s), worker := FReleasing (sl_byteSize d)\<rparr>)"
proof -
  note ok = sys_okD [OF assms(1)]
  have d: "dirty (mem s) = Some d" "map_of (contents d) \<subseteq>\<^sub>m tables_view tss" using ok(4) assms(2) by auto
  show ?thesis
    using ok assms(2) flush_clear_ok [OF ok(1) d] mem_bytes_ge [OF ok(1) d(1)]
    by (intro steps_toI [of _ _ _ tss]) (simp_all add: sys_defs flush_clear_def)
qed

lemma free_step:
  assumes "sys_ok cfg M s tss" and "worker s = FReleasing n"
  shows "steps_to cfg M tss None s (s\<lparr>mem := (mem s)\<lparr>credits := Release n (credits (mem s))\<rparr>, worker := Idle\<rparr>)"
proof -
  note ok = sys_okD [OF assms(1)]
  have "0 \<le> n" using ok(4) assms(2) by simp
  then have "used (Release n (credits (mem s))) = used (credits (mem s)) - n" "bounded M (Release n (credits (mem s)))"
    using release_ok [OF assms(1)] assms(2) sum_held_nonneg [OF ok(3)] by simp_all
  then show ?thesis
    using ok assms(2) mem_fields_ok [of "(mem s)\<lparr>credits := Release n (credits (mem s))\<rparr>" "mem s"]
    by (intro steps_toI [of _ _ _ tss]) (simp_all add: sys_defs)
qed

lemma mstep_ok:
  assumes "float_ok fm" and "order_ok order" and "sys_ok cfg M s tss" and "mstep fm order cfg M l s s'"
  shows "steps_to cfg M tss l s s'"
  using assms(4)
proof cases
  case (take_credit k v m')
  then show ?thesis using credit_step [OF assms(3), of k v True m'] by simp
next
  case (wait_credit k v m')
  then show ?thesis using credit_step [OF assms(3), of k v False m'] by simp
next
  case (flush_nothing m')
  then show ?thesis using swap_step [OF assms(3), of None m'] by (cases s) simp
next
  case (flush_start d m')
  then show ?thesis using swap_step [OF assms(3), of "Some d" m'] by simp
next
  case (flush_save d now io ok m')
  show ?thesis unfolding flush_save(1,2) by (rule save_step [OF assms(1-3) flush_save(3-6)])
qed (simp_all add: assms wake_step insert_step finish_step read_step clear_step free_step)

lemma sys_init_ok:
  assumes "1 \<le> MaxMemTableLevel cfg"
  shows "sys_ok cfg M (sys_init cfg fs) []" and "raw_view (mem (sys_init cfg fs)) [] = Map.empty"
proof -
  have new: "list_ok cfg (newSkipList (MaxMemTableLevel cfg))" "contents (newSkipList (MaxMemTableLevel cfg)) = []"
    using assms newSkipList_inv contents_newSkipList by (simp_all add: list_ok_def)
  show "sys_ok cfg M (sys_init cfg fs) []" "raw_view (mem (sys_init cfg fs)) [] = Map.empty"
    using assms new
    by (simp_all add: sys_ok_def sys_init_def NewMemTable_def mem_ok_def credit_exact_def mem_bytes_def New_def
        bounded_def store_ok_def NewSSTable_def newSkipList_def raw_view_def sl_map_def max_def)
qed

text \<open>The map of the writes that took effect.\<close>

definition written :: "LogEntry list \<Rightarrow> bytes \<rightharpoonup> bytes option" where
  "written ws = foldl (\<lambda>f e. f(fst e \<mapsto> snd e)) Map.empty ws"

lemma run_ok:
  assumes "float_ok fm" and "order_ok order" and "1 \<le> MaxMemTableLevel cfg" and "run fm order cfg M fs ws s"
  shows "\<exists>tss. sys_ok cfg M s tss \<and> raw_view (mem s) tss = written ws"
  using assms(4)
proof (induction rule: run.induct)
  case run_init
  then show ?case using sys_init_ok [OF assms(3)] by (auto simp: written_def)
next
  case (run_step ws s l s')
  then obtain tss where t: "sys_ok cfg M s tss" "raw_view (mem s) tss = written ws" by blast
  obtain tss' where "sys_ok cfg M s' tss'" "raw_view (mem s') tss' = step_view l (raw_view (mem s) tss)"
    using mstep_ok [OF assms(1,2) t(1) run_step.hyps(2)] unfolding steps_to_def by blast
  moreover have "written (case l of None \<Rightarrow> ws | Some e \<Rightarrow> ws @ [e]) = step_view l (written ws)"
    by (cases l) (auto simp: written_def step_view_def split: prod.splits)
  ultimately show ?case using t(2) by metis
qed

lemma written_snoc: "written (ws @ [e]) = (written ws)(fst e \<mapsto> snd e)"
  by (simp add: written_def)

lemma written_append: "written (ws @ us) = written ws ++ written us"
proof (induction us rule: rev_induct)
  case (snoc u us)
  then show ?case by (simp only: written_snoc map_add_upd append_assoc [symmetric])
qed (simp add: written_def)

lemma written_Cons: "written (e # ws) = [fst e \<mapsto> snd e] ++ written ws"
  using written_append [of "[e]" ws] by (simp add: written_def)

end
