(* ===== verification/Compaction.thy ===== *)
theory Compaction
  imports MemCorrect
begin

text \<open>
  Compaction (\<open>CompactSSTable\<close>) keeps the visible map: a level is merged only when every table outside it is
  older than every table in it. Tables are listed oldest first and levels never increase along the list;
  that, with every level above zero below the merge threshold, is the invariant.
\<close>

section \<open>File names\<close>

lemma merged_path_inj: "merged_path dir a = merged_path dir b \<Longrightarrow> a = b"
  by (simp add: merged_path_def) (metis dec_value_decimal)

lemma sstable_path_inj: "sstable_path dir a = sstable_path dir b \<Longrightarrow> a = b"
  by (simp add: sstable_path_def) (metis dec_value_decimal)

section \<open>Removing the merged files\<close>

lemma remove_first:
  "distinct (map ptr ms) \<Longrightarrow>
   (let i = length (takeWhile (\<lambda>m. ptr m \<noteq> p) ms) in take i ms @ drop (i + 1) ms) = filter (\<lambda>m. ptr m \<noteq> p) ms"
proof (induction ms)
  case (Cons m ms)
  show ?case
  proof (cases "ptr m = p")
    case True
    then have "\<forall>x \<in> set ms. ptr x \<noteq> p" using Cons.prems by (auto simp: image_iff)
    then show ?thesis using True by (simp add: Let_def filter_True)
  next
    case False
    then show ?thesis using Cons by (simp add: Let_def)
  qed
qed simp

lemma mata_RemoveMata:
  "distinct (map ptr (mata ss)) \<Longrightarrow> mata (RemoveMata t ss) = filter (\<lambda>m. ptr m \<noteq> ptr t) (mata ss)"
  using remove_first [of "mata ss" "ptr t"] by (simp add: RemoveMata_def)

lemma drop_one:
  defines "ss' \<equiv> (\<lambda>rm t ss. RemoveMata t (DeleteSSTable rm t ss))"
  shows "distinct (map ptr (mata ss)) \<Longrightarrow> mata (ss' rm t ss) = filter (\<lambda>m. ptr m \<noteq> ptr t) (mata ss)"
    and "next_ptr (ss' rm t ss) = next_ptr ss"
    and "q \<noteq> Filepath t \<Longrightarrow> table_at ss q es \<Longrightarrow> table_at (ss' rm t ss) q es"
proof -
  have m: "mata (DeleteSSTable rm t ss) = mata ss" "next_ptr (DeleteSSTable rm t ss) = next_ptr ss"
    by (simp_all add: DeleteSSTable_def)
  show "distinct (map ptr (mata ss)) \<Longrightarrow> mata (ss' rm t ss) = filter (\<lambda>m. ptr m \<noteq> ptr t) (mata ss)"
    unfolding ss'_def using mata_RemoveMata [of "DeleteSSTable rm t ss" t] m by simp
  show "next_ptr (ss' rm t ss) = next_ptr ss" using m by (simp add: ss'_def RemoveMata_def)
  show "q \<noteq> Filepath t \<Longrightarrow> table_at ss q es \<Longrightarrow> table_at (ss' rm t ss) q es"
    by (auto simp: ss'_def RemoveMata_def DeleteSSTable_def table_at_def)
qed

lemma drop_files_ok:
  assumes "distinct (map ptr (mata ss))"
  shows "mata (drop_files rms files ss) = filter (\<lambda>m. ptr m \<notin> ptr ` set files) (mata ss) \<and>
         next_ptr (drop_files rms files ss) = next_ptr ss \<and>
         (\<forall>q es. q \<notin> Filepath ` set files \<longrightarrow> table_at ss q es \<longrightarrow> table_at (drop_files rms files ss) q es)"
  using assms
proof (induction files arbitrary: ss)
  case Nil
  then show ?case by (simp add: drop_files_def)
next
  case (Cons t files)
  let ?s = "RemoveMata t (DeleteSSTable (rms (Filepath t)) t ss)"
  have eq: "drop_files rms (t # files) ss = drop_files rms files ?s" by (simp add: drop_files_def)
  have m: "mata ?s = filter (\<lambda>m. ptr m \<noteq> ptr t) (mata ss)" by (rule drop_one(1) [OF Cons.prems])
  have "distinct (map ptr (mata ?s))" using Cons.prems by (simp add: m distinct_map_filter)
  from Cons.IH [OF this] show ?case
    unfolding eq m using drop_one(2,3) by (auto simp: conj_commute intro: filter_cong)
qed

text \<open>Dropping a run of listed files leaves a store with the tables around it.\<close>

lemma drop_files_store:
  assumes "store_ok ss (us @ vs @ ws)" and "mata ss = hs @ fs @ gs" and "length hs = length us" and "length fs = length vs"
  shows "store_ok (drop_files rms fs ss) (us @ ws)" and "mata (drop_files rms fs ss) = hs @ gs"
proof -
  let ?s = "drop_files rms fs ss"
  have d: "distinct (map ptr (hs @ fs @ gs))" "distinct (map Filepath (hs @ fs @ gs))"
    using assms(1,2) by (simp_all add: store_ok_def)
  have "filter (\<lambda>m. ptr m \<notin> ptr ` set fs) hs = hs" and "filter (\<lambda>m. ptr m \<notin> ptr ` set fs) gs = gs"
    using d(1) by (simp_all add: filter_id_conv) blast+
  moreover have "filter (\<lambda>m. ptr m \<notin> ptr ` set fs) fs = []" by (simp add: filter_empty_conv)
  ultimately have "filter (\<lambda>m. ptr m \<notin> ptr ` set fs) (hs @ fs @ gs) = hs @ gs" by simp
  then have s: "mata ?s = hs @ gs" "next_ptr ?s = next_ptr ss"
      "\<forall>q es. q \<notin> Filepath ` set fs \<longrightarrow> table_at ss q es \<longrightarrow> table_at ?s q es"
    using drop_files_ok [of ss rms fs] d(1) assms(2) by simp_all
  show "mata ?s = hs @ gs" by (rule s(1))
  have nf: "q \<notin> Filepath ` set fs" if "q \<in> Filepath ` set (hs @ gs)" for q
    using d(2) that by (auto simp: image_iff)
  have "list_all2 (meta_ok ss) (hs @ gs) (us @ ws)"
    using assms by (simp add: store_ok_def list_all2_append)
  moreover have "meta_ok ?s x ts" if "x \<in> set (hs @ gs)" "meta_ok ss x ts" for x ts
    using s(3) nf [of "Filepath x"] that by (simp only: meta_ok_def image_eqI simp_thms)
  ultimately have "list_all2 (meta_ok ?s) (hs @ gs) (us @ ws)"
    by (metis (no_types, lifting) list.rel_mono_strong)
  moreover have "\<forall>x \<in> set (hs @ gs). ptr x < next_ptr ?s"
    using assms(1,2) s(2) by (auto simp: store_ok_def)
  ultimately show "store_ok ?s (us @ ws)" using d s(1) by (simp add: store_ok_def Int_Un_distrib)
qed

section \<open>One level\<close>

abbreviation levels :: "SSTable \<Rightarrow> nat list" where
  "levels ss \<equiv> map Level (mata ss)"

abbreviation level_count :: "nat \<Rightarrow> SSTable \<Rightarrow> nat" where
  "level_count l ss \<equiv> length (GetLevelFiles l ss)"

lemma level_count_levels: "level_count l ss = length (filter (\<lambda>x. x = l) (levels ss))"
  by (simp add: GetLevelFiles_def filter_map comp_def)

text \<open>Any table that can come out of merges of \<open>tss\<close> fits in a file.\<close>

definition merge_fits :: "FloatMath \<Rightarrow> (PartitionedBloom \<Rightarrow> bytes list) \<Rightarrow> LogEntry list list \<Rightarrow> bool" where
  "merge_fits fm order tss \<longleftrightarrow>
     (\<forall>es. entries_ok es \<and> set es \<subseteq> (\<Union>ts \<in> set tss. set ts) \<longrightarrow> file_fits fm order es)"

lemma set_merge_entries: "set (merge_entries vs) \<subseteq> (\<Union>ts \<in> set vs. set ts)"
proof -
  have "set (fold (\<lambda>(k, v). ins_sorted k v) es t) \<subseteq> set es \<union> set t" for es t :: "LogEntry list"
  proof (induction es arbitrary: t)
    case (Cons e es)
    obtain k v where "e = (k, v)" by fastforce
    with Cons [of "ins_sorted k v t"] set_ins_sorted [of k v t] show ?case by auto
  qed simp
  from this [of "concat vs" "[]"] show ?thesis by (simp add: merge_entries_def)
qed

lemma store_ok_entries: "store_ok ss tss \<Longrightarrow> ts \<in> set tss \<Longrightarrow> entries_ok ts"
  by (auto simp: store_ok_def list_all2_conv_all_nth in_set_conv_nth meta_ok_def table_at_def sst_file_def)

lemma split_levels:
  assumes "sorted_wrt (\<ge>) (levels ss)" and "\<forall>m \<in> set (mata ss). l \<le> Level m"
  shows "mata ss = filter (\<lambda>m. Level m \<noteq> l) (mata ss) @ GetLevelFiles l ss"
proof -
  have "sorted_wrt (\<ge>) (map Level ms) \<Longrightarrow> \<forall>m \<in> set ms. l \<le> Level m \<Longrightarrow>
      ms = filter (\<lambda>m. Level m \<noteq> l) ms @ filter (\<lambda>m. Level m = l) ms" for ms
  proof (induction ms)
    case (Cons m ms)
    then have IH: "ms = filter (\<lambda>m. Level m \<noteq> l) ms @ filter (\<lambda>m. Level m = l) ms" by simp
    show ?case
    proof (cases "Level m = l")
      case True
      then have "\<forall>x \<in> set ms. Level x = l" using Cons.prems by fastforce
      then show ?thesis using True by (simp add: filter_True filter_False)
    next
      case False
      then show ?thesis using IH by simp
    qed
  qed simp
  then show ?thesis using assms by (simp add: GetLevelFiles_def)
qed

lemma map_of_merge_store:
  assumes "\<forall>es \<in> set vs. entries_ok es"
  shows "tables_view (us @ [merge_entries vs]) = tables_view (us @ vs)"
  unfolding tables_view_snoc using assms map_of_merge_entries [of vs] by (simp add: tables_view_append entries_ok_def)

abbreviation merge_io :: "IOEnv \<Rightarrow> bool" where
  "merge_io io \<equiv> create_ok io \<and> write_ok io \<and> bloom_ok io \<and> sync_ok io \<and> stat_ok io"

text \<open>Merging the last tables of a store keeps the bound on the files that further merges can write.\<close>

lemma merge_fits_merged:
  assumes "merge_fits fm order (us @ vs)"
  shows "merge_fits fm order (us @ [merge_entries vs])"
  unfolding merge_fits_def
proof (intro allI impI, elim conjE)
  fix es assume e: "entries_ok es" "set es \<subseteq> (\<Union>ts \<in> set (us @ [merge_entries vs]). set ts)"
  have "(\<Union>ts \<in> set (us @ [merge_entries vs]). set ts) \<subseteq> (\<Union>ts \<in> set (us @ vs). set ts)"
    using set_merge_entries [of vs] by auto
  then have "set es \<subseteq> (\<Union>ts \<in> set (us @ vs). set ts)" by (rule subset_trans [OF e(2)])
  then show "file_fits fm order es" using assms e(1) by (simp only: merge_fits_def simp_thms)
qed

text \<open>The files of the lowest level are the end of the list, and what they hold is the end of the store.\<close>

lemma level_tables:
  assumes "store_ok ss tss" and "sorted_wrt (\<ge>) (levels ss)" and "\<forall>m \<in> set (mata ss). l \<le> Level m" and "GetLevelFiles l ss \<noteq> []"
  defines "hs \<equiv> filter (\<lambda>m. Level m \<noteq> l) (mata ss)"
  obtains us vs where "mata ss = hs @ GetLevelFiles l ss" and "tss = us @ vs" and "length hs = length us"
    and "length (GetLevelFiles l ss) = length vs" and "files_hold ss (GetLevelFiles l ss) vs" and "\<forall>es \<in> set vs. entries_ok es" and "vs \<noteq> []"
proof -
  let ?fs = "GetLevelFiles l ss"
  have sp: "mata ss = hs @ ?fs" unfolding hs_def by (rule split_levels [OF assms(2,3)])
  have "list_all2 (meta_ok ss) (hs @ ?fs) tss" using assms(1) sp by (simp add: store_ok_def)
  then obtain us vs where uv: "tss = us @ vs" "list_all2 (meta_ok ss) hs us" "list_all2 (meta_ok ss) ?fs vs"
    by (auto simp: list_all2_append1)
  have "files_hold ss ?fs vs" using uv(3) by (simp add: files_hold_def list_all2_conv_all_nth meta_ok_def)
  moreover have "\<forall>es \<in> set vs. entries_ok es" using store_ok_entries [OF assms(1)] uv(1) by simp
  moreover have "vs \<noteq> []" using uv(3) assms(4) by auto
  moreover have "length hs = length us" "length ?fs = length vs" using uv by (auto dest: list_all2_lengthD)
  ultimately show thesis using that sp uv(1) by blast
qed

lemma merge_level:
  assumes "float_ok fm" and "order_ok order" and "store_ok ss tss" and "sorted_wrt (\<ge>) (levels ss)"
    and "\<forall>m \<in> set (mata ss). l \<le> Level m" and "merge_fits fm order tss" and "GetLevelFiles l ss \<noteq> []"
    and "merged_path dir now \<notin> Filepath ` set (mata ss)"
  obtains (fail) ss1 where "MergeSSTable fm order dir now io (GetLevelFiles l ss) (l + 1) ss = Some (None, ss1)"
      and "\<not> merge_io io" and "store_ok ss1 tss" and "mata ss1 = mata ss"
  | (merged) r ss1 ss2 tss2 where "MergeSSTable fm order dir now io (GetLevelFiles l ss) (l + 1) ss = Some (Some r, ss1)"
      and "ss2 = drop_files rms (GetLevelFiles l ss) ss1" and "store_ok ss2 tss2"
      and "tables_view tss2 = tables_view tss" and "sorted_wrt (\<ge>) (levels ss2)"
      and "\<forall>m \<in> set (mata ss2). l + 1 \<le> Level m" and "merge_fits fm order tss2"
      and "Filepath ` set (mata ss2) \<subseteq> insert (merged_path dir now) (Filepath ` set (mata ss))"
      and "\<forall>i > l + 1. level_count i ss2 = level_count i ss"
proof -
  let ?fs = "GetLevelFiles l ss" and ?p = "merged_path dir now"
  define hs where "hs = filter (\<lambda>m. Level m \<noteq> l) (mata ss)"
  obtain us vs where sp: "mata ss = hs @ ?fs" and uv: "tss = us @ vs" "length hs = length us" "length ?fs = length vs"
    and hold: "files_hold ss ?fs vs" and vok: "\<forall>es \<in> set vs. entries_ok es" and ne: "vs \<noteq> []"
    using level_tables [OF assms(3-5,7)] unfolding hs_def by blast
  let ?es = "merge_entries vs"
  have es: "entries_ok ?es" by (rule merge_entries_ok [OF vok ne])
  then have fits: "file_fits fm order ?es"
    using assms(6) set_merge_entries [of vs] uv(1) by (fastforce simp: merge_fits_def)
  obtain r ss1 where m: "MergeSSTable fm order dir now io ?fs (l + 1) ss = Some (r, ss1)" "others_kept ?p ss ss1"
    and c: "if merge_io io
            then r = Some ((new_meta (l + 1) ?p (length (image_of fm order ?es)) ?es)\<lparr>ptr := next_ptr ss\<rparr>) \<and>
                 table_at ss1 ?p ?es \<and> mata ss1 = mata ss @ [the r] \<and> next_ptr ss1 = next_ptr ss + 1
            else r = None \<and> mata ss1 = mata ss \<and> next_ptr ss1 = next_ptr ss"
    using MergeSSTable_outcomes [OF assms(1,2) hold assms(7) fits] by blast
  show thesis
  proof (cases "merge_io io")
    case False
    then have c: "r = None" "mata ss1 = mata ss" "next_ptr ss1 = next_ptr ss" using c by (simp_all only: if_False)
    have "store_ok ss1 tss" by (rule store_kept [OF assms(3) m(2) assms(8) c(2,3)])
    then show thesis using fail m(1) c False by blast
  next
    case True
    let ?m = "(new_meta (l + 1) ?p (length (image_of fm order ?es)) ?es)\<lparr>ptr := next_ptr ss\<rparr>"
    let ?s2 = "drop_files rms ?fs ss1"
    have c: "r = Some ?m" "table_at ss1 ?p ?es" "mata ss1 = mata ss @ [?m]" "next_ptr ss1 = next_ptr ss + 1"
      using c True by simp_all
    have ok1: "store_ok ss1 (tss @ [?es])" by (rule store_append [OF assms(3) m(2) assms(8) c(3,4,2)])
    have "mata ss1 = hs @ ?fs @ [?m]" using c(3) sp by simp
    then have s2: "store_ok ?s2 (us @ [?es])" "mata ?s2 = hs @ [?m]"
      using drop_files_store [of ss1 us vs "[?es]" hs ?fs "[?m]" rms] ok1 uv by simp_all
    have hsl: "\<forall>x \<in> set hs. l + 1 \<le> Level x" using assms(5) by (auto simp: hs_def)
    have ms: "merge_fits fm order (us @ [?es])" using assms(6) unfolding uv(1) by (rule merge_fits_merged)
    have cnt: "\<forall>i > l + 1. level_count i ?s2 = level_count i ss"
    proof (intro allI impI)
      fix i assume i: "l + 1 < i"
      have "filter (\<lambda>m. Level m = i) ?fs = []" using i by (auto simp: GetLevelFiles_def filter_empty_conv)
      then show "level_count i ?s2 = level_count i ss"
        using i s2(2) by (subst (2) GetLevelFiles_def, subst sp) (simp add: GetLevelFiles_def new_meta_def)
    qed
    show thesis
    proof (rule merged [of ?m ss1 ?s2 "us @ [?es]"])
      show "tables_view (us @ [?es]) = tables_view tss" using map_of_merge_store [OF vok] uv(1) by simp
      show "sorted_wrt (\<ge>) (levels ?s2)"
        using assms(4) hsl by (simp add: s2(2) sp sorted_wrt_append new_meta_def)
      show "\<forall>m \<in> set (mata ?s2). l + 1 \<le> Level m" using hsl by (auto simp: s2(2) new_meta_def)
      show "Filepath ` set (mata ?s2) \<subseteq> insert ?p (Filepath ` set (mata ss))"
        by (auto simp: s2(2) sp new_meta_def)
    qed (use m(1) c(1) s2(1) ms cnt in simp_all)
  qed
qed

section \<open>All levels\<close>

text \<open>
  The loop invariant at level \<open>l\<close>: levels beyond \<open>l\<close> are below the threshold, and level \<open>l\<close> is too, or
  everything below it has just been merged away.
\<close>

definition compact_inv :: "MemConfig \<Rightarrow> nat \<Rightarrow> nat \<Rightarrow> SSTable \<Rightarrow> bool" where
  "compact_inv cfg l n ss \<longleftrightarrow> sorted_wrt (\<ge>) (levels ss) \<and>
     (\<forall>i. l < i \<and> i < l + n \<longrightarrow> level_count i ss < MaxCompactionSize cfg) \<and>
     (level_count l ss < MaxCompactionSize cfg \<or> (\<forall>m \<in> set (mata ss). l \<le> Level m))"

definition fresh_names :: "path \<Rightarrow> (nat \<Rightarrow> nat) \<Rightarrow> nat \<Rightarrow> nat \<Rightarrow> SSTable \<Rightarrow> bool" where
  "fresh_names dir nows l n ss \<longleftrightarrow> inj nows \<and>
     (\<forall>i. l \<le> i \<and> i < l + n \<longrightarrow> merged_path dir (nows i) \<notin> Filepath ` set (mata ss))"

lemma level_count_cong: "mata a = mata b \<Longrightarrow> level_count i a = level_count i b"
  by (simp add: GetLevelFiles_def)

lemma level_count_0: "\<forall>m \<in> set (mata ss). l < Level m \<Longrightarrow> i \<le> l \<Longrightarrow> level_count i ss = 0"
  by (force simp: GetLevelFiles_def filter_empty_conv)

lemma compact_inv_skip:
  "compact_inv cfg l (Suc n) ss \<Longrightarrow> level_count l ss < MaxCompactionSize cfg \<or> 0 < n \<Longrightarrow>
   n = 0 \<or> compact_inv cfg (l + 1) n ss"
  by (cases n) (auto simp: compact_inv_def)

lemma fresh_names_Suc: "fresh_names dir nows l (Suc n) ss \<Longrightarrow> fresh_names dir nows (l + 1) n ss"
  by (simp add: fresh_names_def)

lemma fresh_names_merged:
  assumes "fresh_names dir nows l (Suc n) ss"
    and "Filepath ` set (mata ss') \<subseteq> insert (merged_path dir (nows l)) (Filepath ` set (mata ss))"
  shows "fresh_names dir nows (l + 1) n ss'"
  unfolding fresh_names_def
proof (intro conjI allI impI notI)
  show "inj nows" using assms(1) by (simp add: fresh_names_def)
  fix i assume i: "l + 1 \<le> i \<and> i < l + 1 + n" and "merged_path dir (nows i) \<in> Filepath ` set (mata ss')"
  then have "merged_path dir (nows i) = merged_path dir (nows l) \<or> merged_path dir (nows i) \<in> Filepath ` set (mata ss)"
    using assms(2) by blast
  then show False
  proof
    assume "merged_path dir (nows i) = merged_path dir (nows l)"
    then have "i = l" using merged_path_inj assms(1) by (metis fresh_names_def injD)
    then show False using i by simp
  next
    assume "merged_path dir (nows i) \<in> Filepath ` set (mata ss)"
    then show False using assms(1) i by (simp add: fresh_names_def)
  qed
qed

lemma compact_levels_ok:
  assumes "float_ok fm" and "order_ok order" and "store_ok ss tss" and "1 \<le> MaxCompactionSize cfg"
    and "n = 0 \<or> compact_inv cfg l n ss" and "sorted_wrt (\<ge>) (levels ss)"
    and "merge_fits fm order tss" and "fresh_names (SSTablePath cfg) nows l n ss"
  shows "\<exists>ss' tss'. compact_levels fm order cfg nows ios rms l n ss = Some ss' \<and> store_ok ss' tss' \<and>
           tables_view tss' = tables_view tss \<and> sorted_wrt (\<ge>) (levels ss') \<and>
           ((\<forall>i. merge_io (ios i)) \<longrightarrow> (\<forall>i. 1 \<le> i \<and> i < l \<longrightarrow> level_count i ss < MaxCompactionSize cfg) \<longrightarrow>
            (\<forall>i. 1 \<le> i \<and> i < l + n \<longrightarrow> level_count i ss' < MaxCompactionSize cfg))"
  using assms
proof (induction n arbitrary: l ss tss)
  case 0
  then show ?case by auto
next
  case (Suc n)
  let ?max = "MaxCompactionSize cfg" and ?fs = "GetLevelFiles l ss"
  have inv: "compact_inv cfg l (Suc n) ss" using Suc.prems(5) by simp
  have next_inv: "n = 0 \<or> compact_inv cfg (l + 1) n ss" using inv compact_inv_skip by fastforce
  have next_fresh: "fresh_names (SSTablePath cfg) nows (l + 1) n ss" using Suc.prems(8) by (rule fresh_names_Suc)
  show ?case
  proof (cases "length ?fs < ?max")
    case True
    from Suc.IH [OF Suc.prems(1,2,3,4) next_inv Suc.prems(6,7) next_fresh] obtain ss' tss' where
      r: "compact_levels fm order cfg nows ios rms (l + 1) n ss = Some ss'" "store_ok ss' tss'"
        "tables_view tss' = tables_view tss" "sorted_wrt (\<ge>) (levels ss')"
        "(\<forall>i. merge_io (ios i)) \<longrightarrow> (\<forall>i. 1 \<le> i \<and> i < l + 1 \<longrightarrow> level_count i ss < ?max) \<longrightarrow>
            (\<forall>i. 1 \<le> i \<and> i < l + 1 + n \<longrightarrow> level_count i ss' < ?max)"
      by blast
    have "(\<forall>i. 1 \<le> i \<and> i < l \<longrightarrow> level_count i ss < ?max) \<longrightarrow> (\<forall>i. 1 \<le> i \<and> i < l + 1 \<longrightarrow> level_count i ss < ?max)"
      using True by (auto simp: less_Suc_eq)
    with r True show ?thesis by (intro exI [of _ ss'] exI [of _ tss']) (simp add: Let_def)
  next
    case False
    then have ge: "\<forall>m \<in> set (mata ss). l \<le> Level m" using inv by (simp add: compact_inv_def)
    have ne: "?fs \<noteq> []" using False Suc.prems(4) by auto
    have fresh: "merged_path (SSTablePath cfg) (nows l) \<notin> Filepath ` set (mata ss)"
      using Suc.prems(8) by (simp add: fresh_names_def)
    show ?thesis
    proof (cases rule: merge_level [OF Suc.prems(1,2,3,6) ge Suc.prems(7) ne fresh, where io = "ios l" and rms = rms,
          case_names fail merged])
      case (fail ss1)
      have "n = 0 \<or> compact_inv cfg (l + 1) n ss1" "sorted_wrt (\<ge>) (levels ss1)"
          "fresh_names (SSTablePath cfg) nows (l + 1) n ss1"
        using next_inv Suc.prems(6) next_fresh fail(4) level_count_cong [OF fail(4)]
        by (simp_all add: compact_inv_def fresh_names_def)
      from Suc.IH [OF Suc.prems(1,2) fail(3) Suc.prems(4) this(1,2) Suc.prems(7) this(3)]
      obtain ss' tss' where "compact_levels fm order cfg nows ios rms (l + 1) n ss1 = Some ss'" "store_ok ss' tss'"
        "tables_view tss' = tables_view tss" "sorted_wrt (\<ge>) (levels ss')" by blast
      then show ?thesis using fail(1,2) False by (intro exI [of _ ss'] exI [of _ tss']) (auto simp: Let_def)
    next
      case (merged r ss1 ss2 tss2)
      have i2: "n = 0 \<or> compact_inv cfg (l + 1) n ss2"
        using merged(5,6,9) inv by (auto simp: compact_inv_def)
      have f2: "fresh_names (SSTablePath cfg) nows (l + 1) n ss2"
        by (rule fresh_names_merged [OF Suc.prems(8) merged(8)])
      from Suc.IH [OF Suc.prems(1,2) merged(3) Suc.prems(4) i2 merged(5,7) f2] obtain ss' tss' where
        r: "compact_levels fm order cfg nows ios rms (l + 1) n ss2 = Some ss'" "store_ok ss' tss'"
          "tables_view tss' = tables_view tss2" "sorted_wrt (\<ge>) (levels ss')"
          "(\<forall>i. merge_io (ios i)) \<longrightarrow> (\<forall>i. 1 \<le> i \<and> i < l + 1 \<longrightarrow> level_count i ss2 < ?max) \<longrightarrow>
            (\<forall>i. 1 \<le> i \<and> i < l + 1 + n \<longrightarrow> level_count i ss' < ?max)"
        by blast
      have "\<forall>i. 1 \<le> i \<and> i < l + 1 \<longrightarrow> level_count i ss2 < ?max"
        using level_count_0 [of ss2 l] merged(6) Suc.prems(4) by (simp add: Suc_le_eq)
      then show ?thesis using r merged(1,2,4) False
        by (intro exI [of _ ss'] exI [of _ tss']) (simp add: Let_def)
    qed
  qed
qed

text \<open>Between compactions: levels never increase along the list, and every level above zero is below the threshold.\<close>

definition levels_ok :: "MemConfig \<Rightarrow> SSTable \<Rightarrow> bool" where
  "levels_ok cfg ss \<longleftrightarrow> sorted_wrt (\<ge>) (levels ss) \<and>
     (\<forall>i. 1 \<le> i \<and> i < 10 \<longrightarrow> level_count i ss < MaxCompactionSize cfg)"

lemma CompactSSTable_ok:
  assumes "float_ok fm" and "order_ok order" and "mem_ok cfg m tss" and "1 \<le> MaxCompactionSize cfg"
    and "levels_ok cfg (sst m)" and "merge_fits fm order tss" and "fresh_names (SSTablePath cfg) nows 0 10 (sst m)"
  shows "\<exists>m' tss'. CompactSSTable fm order cfg nows ios rms 0 m = Some m' \<and> mem_ok cfg m' tss' \<and>
           raw_view m' tss' = raw_view m tss \<and> ((\<forall>i. merge_io (ios i)) \<longrightarrow> levels_ok cfg (sst m'))"
proof -
  have st: "store_ok (sst m) tss" using assms(3) by (simp add: mem_ok_def)
  have inv: "10 = (0::nat) \<or> compact_inv cfg 0 10 (sst m)" "sorted_wrt (\<ge>) (levels (sst m))"
    using assms(5) by (auto simp: compact_inv_def levels_ok_def)
  obtain ss' tss' where r: "compact_levels fm order cfg nows ios rms 0 10 (sst m) = Some ss'" "store_ok ss' tss'"
      "tables_view tss' = tables_view tss" "sorted_wrt (\<ge>) (levels ss')"
      "(\<forall>i. merge_io (ios i)) \<longrightarrow> (\<forall>i. 1 \<le> i \<and> i < 10 \<longrightarrow> level_count i ss' < MaxCompactionSize cfg)"
    using compact_levels_ok [OF assms(1,2) st assms(4) inv assms(6,7), of ios rms] by auto
  show ?thesis
    using r assms(3) by (intro exI [of _ "m\<lparr>sst := ss'\<rparr>"] exI [of _ tss'])
      (simp add: CompactSSTable_def mem_ok_def raw_view_def levels_ok_def)
qed

end
