(* ===== verification/Examples.thy ===== *)
theory Examples
  imports MemSystem Compaction
begin

text \<open>
  Concrete parameters for the storage engine, used to evaluate the operations on small inputs: a
  floating-point oracle that sizes every filter at 640 bits with seven hashes, the ascending iteration
  order of the partitions, a small configuration, and the size bound that makes a table file fit.
\<close>

definition fm0 :: FloatMath where
  "fm0 = \<lparr>ceil_bits = (\<lambda>n p. 640), round_hashes = (\<lambda>m n. 7)\<rparr>"

definition order0 :: "PartitionedBloom \<Rightarrow> bytes list" where
  "order0 pb = sorted_list_of_set (dom (partitions pb))"

definition cfg0 :: MemConfig where
  "cfg0 = \<lparr>MaxMemTableLevel = 4, MaxMemTableSize = 100, MaxCompactionSize = 2,
           MemTableMaxInflightBytes = 10, SSTablePath = ascii ''d''\<rparr>"

lemma float_ok_fm0: "float_ok fm0"
  by (simp add: float_ok_def fm0_def)

lemma order_ok_order0: "order_ok order0"
  by (simp add: order_ok_def order0_def map_order_def)

lemma bits_fm0: "length (bits (NewBloomFilter fm0 n p)) = 10"
proof -
  have "unat ((640 + 63) div 64 :: 64 word) = 10" by simp
  then show ?thesis by (simp add: NewBloomFilter_def fm0_def bloomMinBits_def)
qed

lemma splitNamespace_length: "length (fst (splitNamespace k sep)) \<le> length k"
  by (auto simp: splitNamespace_def split: option.splits)

lemma build_fm0:
  assumes "BuildPartitionedBloom fm0 keys sep p = Some pb"
  shows "dom (partitions pb) = (\<lambda>k. fst (splitNamespace k sep)) ` set keys"
    and "partitions pb ns = Some bf \<Longrightarrow> length (bits bf) = 10"
proof -
  let ?counts = "count_namespaces sep keys Map.empty"
  let ?pb = "\<lparr>pb_sep = sep, pb_n = int (length keys), pb_p = p,
            partitions = (\<lambda>ns. map_option (\<lambda>c. NewBloomFilter fm0 c p) (?counts ns))\<rparr>"
  have a: "add_all keys ?pb = Some pb" using assms by (simp add: BuildPartitionedBloom_def Let_def)
  have dom0: "dom (partitions ?pb) = (\<lambda>k. fst (splitNamespace k sep)) ` set keys"
    using dom_count_namespaces [of sep keys Map.empty] by (auto simp: dom_def)
  then show dom: "dom (partitions pb) = (\<lambda>k. fst (splitNamespace k sep)) ` set keys"
    using add_all_dom [OF a] by simp
  have "pb_wf ?pb"
    using NewBloomFilter_wf float_ok_fm0 by (auto simp: pb_wf_def float_ok_def)
  then have g: "pb_grows ?pb pb" using add_all_correct [of ?pb keys] dom0 a by auto
  assume ns: "partitions pb ns = Some bf"
  then have "ns \<in> dom (partitions ?pb)" using dom dom0 by blast
  then obtain bf0 where "partitions ?pb ns = Some bf0" "length (bits bf0) = 10" by (auto simp: bits_fm0)
  moreover from this g obtain bf' where "partitions pb ns = Some bf'" "grows bf0 bf'"
    unfolding pb_grows_def by blast
  ultimately show "length (bits bf) = 10" using ns by (simp add: grows_def)
qed

text \<open>Tables of at most \<open>n\<close> entries with keys and values of at most \<open>n\<close> bytes.\<close>

definition small :: "nat \<Rightarrow> LogEntry list \<Rightarrow> bool" where
  "small n es \<longleftrightarrow> length es \<le> n \<and> (\<forall>e \<in> set es. length (fst e) \<le> n \<and> vlen (snd e) \<le> int n)"

lemma length_concat_bound: "\<forall>x \<in> set xs. length (f x) \<le> b \<Longrightarrow> length (concat (map f xs)) \<le> length xs * b"
  by (induction xs) auto

lemma block_count_le: "block_count es \<le> length es"
proof -
  have "length es + 63 < 64 * Suc (length es)" by simp
  then have "(length es + 63) div 64 < Suc (length es)" by (simp add: div_less_iff_less_mult)
  then show ?thesis by (simp add: block_count_def SSTableBlockSize_def)
qed

lemma file_fits_small:
  assumes "small (2 ^ 20) es" and "entries_ok es"
  shows "file_fits fm0 order0 es"
proof -
  let ?n = "2 ^ 20 :: nat"
  have len: "length es \<le> ?n" and e: "\<And>x. x \<in> set es \<Longrightarrow> length (fst x) \<le> ?n \<and> vlen (snd x) \<le> int ?n"
    using assms(1) by (simp_all add: small_def)
  have "length (enc_entry x) \<le> 8 + 2 * ?n" if "x \<in> set es" for x
    using e [OF that] by (auto simp: enc_entry_def vlen_def split: option.splits)
  then have data: "length (enc_entries es) \<le> length es * (8 + 2 * ?n)"
    unfolding enc_entries_def by (intro length_concat_bound) simp
  have "length (LastKey b) \<le> ?n" if b: "b \<in> set (block_index es)" for b
  proof -
    obtain i where i: "i < block_count es" "b = block_entry es i" using b unfolding block_index_def by auto
    let ?c = "take SSTableBlockSize (drop (i * SSTableBlockSize) es)"
    have "?c \<noteq> []" using i(1) by (simp add: block_count_less SSTableBlockSize_def)
    then have "last ?c \<in> set es" by (metis in_set_dropD in_set_takeD last_in_set)
    then show ?thesis using e by (simp add: i(2) block_entry_def)
  qed
  then have "length (enc_index_entry b) \<le> 12 + ?n" if "b \<in> set (block_index es)" for b
    using that by (simp add: enc_index_entry_def)
  then have index: "length (enc_index (block_index es)) \<le> block_count es * (12 + ?n)"
    unfolding enc_index_def using length_concat_bound [of "block_index es" enc_index_entry] by simp
  obtain pb where pb: "BuildPartitionedBloom fm0 (map fst es) DefaultNamespaceSep defaultBloomFPRate = Some pb"
    using BuildPartitionedBloom_correct [OF float_ok_fm0] by blast
  have dom: "dom (partitions pb) = (\<lambda>k. fst (splitNamespace k DefaultNamespaceSep)) ` fst ` set es"
    using build_fm0(1) [OF pb] by simp
  have "card (dom (partitions pb)) \<le> length es"
    unfolding dom image_image using card_image_le [of "set es"] card_length [of es] by (meson finite_set le_trans)
  moreover have "\<forall>ns \<in> set (order0 pb). length (enc_partition (partitions pb) ns) \<le> 104 + ?n"
  proof
    fix ns assume "ns \<in> set (order0 pb)"
    then have ns: "ns \<in> dom (partitions pb)" using dom by (simp add: order0_def)
    then obtain bf where bf: "partitions pb ns = Some bf" by blast
    obtain x where x: "x \<in> set es" "ns = fst (splitNamespace (fst x) DefaultNamespaceSep)" using ns dom by auto
    then have "length ns \<le> ?n" using e splitNamespace_length le_trans by blast
    then show "length (enc_partition (partitions pb) ns) \<le> 104 + ?n"
      using bf build_fm0(2) [OF pb bf] by (simp add: enc_partition_def length_bloom_Encode)
  qed
  then have "length (concat (map (enc_partition (partitions pb)) (order0 pb))) \<le> card (dom (partitions pb)) * (104 + ?n)"
    using length_concat_bound [of "order0 pb"] by (simp add: order0_def)
  ultimately have "length (pb_Encode (order0 pb) pb) \<le> 5 + length es * (104 + ?n)"
    by (simp add: pb_Encode_def)
  then have "length (image_of fm0 order0 es) \<le> length es * (8 + 2 * ?n) + block_count es * (12 + ?n) + (5 + length es * (104 + ?n)) + 28"
    using data index sst_image_segs(3) [OF refl, of "enc_entries es" "block_index es" "pb_Encode (order0 pb) pb"]
    by (simp add: image_of_def pb)
  moreover have "length es * (8 + 2 * ?n) \<le> ?n * (8 + 2 * ?n)" "block_count es * (12 + ?n) \<le> ?n * (12 + ?n)"
      "length es * (104 + ?n) \<le> ?n * (104 + ?n)"
    using len block_count_le [of es] by (intro mult_le_mono1; linarith)+
  ultimately show ?thesis using block_count_le [of es] len by (simp add: file_fits_def)
qed

end
