(* ===== verification/MemScan.thy ===== *)
theory MemScan
  imports MemCorrect
begin

text \<open>
  \<open>ScanRange\<close> and \<open>FlushToSSTable\<close>: the two-cursor scan is a pass over the union of both memory tables, the
  active one winning, from the lower bound up to the upper one; a snapshot replay adds one table below
  the memory tables.
\<close>

section \<open>Scanning\<close>

text \<open>What the callback sees of an ascending list of entries.\<close>

fun feed :: "bytes \<Rightarrow> (bytes \<Rightarrow> bytes \<Rightarrow> 's \<Rightarrow> bool \<times> 's) \<Rightarrow> LogEntry list \<Rightarrow> 's \<Rightarrow> 's" where
  "feed hi fn [] s = s"
| "feed hi fn ((k, v) # es) s =
     (if hi \<noteq> [] \<and> hi < k then s
      else case v of
        None \<Rightarrow> feed hi fn es s
      | Some w \<Rightarrow> (let (go, s') = fn k w s in if go then feed hi fn es s' else s'))"

fun union2 :: "LogEntry list \<Rightarrow> LogEntry list \<Rightarrow> LogEntry list" where
  "union2 A [] = A"
| "union2 [] D = D"
| "union2 ((a, v) # A) ((d, w) # D) =
     (if a < d then (a, v) # union2 A ((d, w) # D)
      else if d < a then (d, w) # union2 ((a, v) # A) D
      else (a, v) # union2 A D)"

lemma keys_union2: "fst ` set (union2 A D) = fst ` set A \<union> fst ` set D"
  by (induction A D rule: union2.induct) auto

lemma sorted_union2: "sorted_keys A \<Longrightarrow> sorted_keys D \<Longrightarrow> sorted_keys (union2 A D)"
proof (induction A D rule: union2.induct)
  case (3 a v A d w D)
  have k: "x \<in> set (union2 B E) \<Longrightarrow> fst x \<in> fst ` set B \<union> fst ` set E" for x B E
    using keys_union2 [of B E] by (metis imageI)
  show ?case
  proof (cases rule: linorder_cases [of a d])
    case less
    then show ?thesis using 3 k [of _ A "(d, w) # D"] by (fastforce intro: less_trans)
  next
    case equal
    then show ?thesis using 3 k [of _ A D] by fastforce
  next
    case greater
    then have "\<not> a < d" by simp
    then show ?thesis using greater 3 k [of _ "(a, v) # A" D] by (fastforce intro: less_trans)
  qed
qed auto

lemma map_of_union2: "sorted_keys A \<Longrightarrow> sorted_keys D \<Longrightarrow> map_of (union2 A D) = map_of D ++ map_of A"
proof (induction A D rule: union2.induct)
  case (1 A)
  then show ?case by simp
next
  case (2 d D)
  then show ?case by simp
next
  case (3 a v A d w D)
  show ?case
  proof (cases rule: linorder_cases [of a d])
    case less
    then show ?thesis using 3 by (auto simp: fun_eq_iff map_add_def)
  next
    case equal
    then show ?thesis using 3 by (auto simp: fun_eq_iff map_add_def)
  next
    case greater
    then have g: "\<not> a < d" "d \<noteq> a" by auto
    have "\<forall>x \<in> fst ` set A. d < x" using 3(4) greater by (auto intro: less_trans)
    then have "map_of A d = None" using map_of_None_bounds [of "[]" d A] by simp
    then show ?thesis using greater g 3 by (auto simp: fun_eq_iff map_add_def)
  qed
qed

text \<open>A cursor stands at a suffix of the bottom level.\<close>

definition cursor_at :: "cursor \<Rightarrow> LogEntry list \<Rightarrow> bool" where
  "cursor_at c es \<longleftrightarrow> snd c = None \<and> es = [] \<or>
     (\<exists>M head lvl as ps qs. chain M (fst c) head lvl as \<and> head # as = ps @ qs \<and> ps \<noteq> [] \<and>
        snd c = hd_ptr qs \<and> es = entries (fst c) qs)"

lemma cursor_at_Nil: "cursor_at c [] \<Longrightarrow> snd c = None"
  by (auto simp: cursor_at_def entries_def hd_ptr_def split: list.splits)

lemma cursor_at_Cons:
  assumes "cursor_at c ((k, v) # es)"
  shows "snd c \<noteq> None" and "cursor_key c = k" and "cursor_val c = v"
    and "\<exists>c'. cursor_next c = Some c' \<and> cursor_at c' es"
proof -
  let ?h = "fst c"
  obtain M head lvl as ps qs where ch: "chain M ?h head lvl as" "head # as = ps @ qs" "ps \<noteq> []"
      "snd c = hd_ptr qs" "(k, v) # es = entries ?h qs"
    using assms by (auto simp: cursor_at_def)
  then obtain q qs' where q: "qs = q # qs'" "k = Key (?h ! q)" "v = Value (?h ! q)" "es = entries ?h qs'"
    by (cases qs) (auto simp: entries_def)
  show "snd c \<noteq> None" "cursor_key c = k" "cursor_val c = v"
    using ch(4) q by (simp_all add: cursor_key_def cursor_val_def)
  have "q \<in> set (head # as)" using ch(2) q(1) by simp
  then have "next_at ?h q 0 = Some (hd_ptr (at_level ?h 0 qs'))"
    using chain_next [OF ch(1)] chain_height_pos [OF ch(1)] ch(2) q(1) by simp
  moreover have "set qs' \<subseteq> set (head # as)"
    using ch(2) q(1) by (metis Un_iff list.set_intros(2) set_append subsetI)
  then have "at_level ?h 0 qs' = qs'" by (rule at_level_0 [OF ch(1)])
  ultimately have "cursor_next c = Some (?h, hd_ptr qs')" using ch(4) q(1) by (simp add: cursor_next_def)
  moreover have "head # as = (ps @ [q]) @ qs'" using ch(2) q(1) by simp
  then have "cursor_at (?h, hd_ptr qs') es"
    unfolding cursor_at_def using ch(1) q(4) by (metis append_is_Nil_conv fst_conv list.distinct(1) snd_conv)
  ultimately show "\<exists>c'. cursor_next c = Some c' \<and> cursor_at c' es" by blast
qed

lemma cursor_at_None: "cursor_at c es \<Longrightarrow> snd c = None \<Longrightarrow> es = []"
  using cursor_at_Cons(1) [of c] by (cases es) auto

lemma scan_pick_ok:
  assumes "cursor_at a A" and "cursor_at d D" and "union2 A D = (k, v) # es"
  obtains a' d' A' D' where "scan_pick a d = Some (k, v, a', d')" and "cursor_at a' A'" and "cursor_at d' D'"
    and "es = union2 A' D'" and "length A' + length D' < length A + length D"
proof (cases A)
  case Nil
  then have D: "D = (k, v) # es" using assms(3) by (cases D) auto
  obtain d' where d': "cursor_next d = Some d'" "cursor_at d' es"
    using cursor_at_Cons(4) assms(2) unfolding D by blast
  have "scan_pick a d = Some (k, v, a, d')"
    using cursor_at_Nil assms(1) cursor_at_Cons(1-3) [OF assms(2) [unfolded D]] d'(1) Nil
    by (auto simp: scan_pick_def)
  then show thesis using that d'(2) assms(1) Nil D by (cases es) auto
next
  case (Cons e A1)
  obtain k1 v1 where e: "e = (k1, v1)" by fastforce
  note ca = cursor_at_Cons [OF assms(1) [unfolded Cons e]]
  obtain a' where a': "cursor_next a = Some a'" "cursor_at a' A1" using ca(4) by blast
  show thesis
  proof (cases D)
    case Nil
    have "scan_pick a d = Some (k1, v1, a', d)"
      using cursor_at_Nil assms(2) Nil ca a'(1) by (simp add: scan_pick_def)
    moreover have "(k, v) # es = (k1, v1) # A1" using assms(3) Cons e Nil by simp
    ultimately show thesis using that [of a' d A1 "[]"] a'(2) assms(2) Nil Cons by simp
  next
    case D: (Cons g D1)
    obtain k2 v2 where g: "g = (k2, v2)" by fastforce
    note cd = cursor_at_Cons [OF assms(2) [unfolded D g]]
    obtain d' where d': "cursor_next d = Some d'" "cursor_at d' D1" using cd(4) by blast
    show thesis
    proof (cases rule: linorder_cases [of k1 k2])
      case less
      then have "scan_pick a d = Some (k1, v1, a', d)" using ca cd a'(1) by (simp add: scan_pick_def)
      moreover have "(k, v) # es = (k1, v1) # union2 A1 D" using assms(3) Cons e D g less by simp
      ultimately show thesis using that [of a' d A1 D] a'(2) assms(2) Cons by simp
    next
      case equal
      then have "scan_pick a d = Some (k1, v1, a', d')" using ca cd a'(1) d'(1) by (auto simp: scan_pick_def)
      moreover have "(k, v) # es = (k1, v1) # union2 A1 D1" using assms(3) Cons e D g equal by simp
      ultimately show thesis using that [of a' d' A1 D1] a'(2) d'(2) Cons D by simp
    next
      case greater
      then have "scan_pick a d = Some (k2, v2, a, d')" using ca cd d'(1) by (auto simp: scan_pick_def)
      moreover have "(k, v) # es = (k2, v2) # union2 A D1"
        using assms(3) Cons e D g greater by (auto split: if_splits)
      ultimately show thesis using that [of a d' A D1] assms(1) d'(2) D by simp
    qed
  qed
qed

lemma union2_Nil: "union2 A D = [] \<Longrightarrow> A = [] \<and> D = []"
  by (induction A D rule: union2.induct) (auto split: if_splits)

lemma scan_loop_ok:
  "cursor_at a A \<Longrightarrow> cursor_at d D \<Longrightarrow> scan_loop hi fn a d s = Some (feed hi fn (union2 A D) s)"
proof (induction "length A + length D" arbitrary: a d A D s rule: less_induct)
  case less
  show ?case
  proof (cases "union2 A D")
    case Nil
    then have "A = []" "D = []" using union2_Nil by blast+
    then show ?thesis using less.prems cursor_at_Nil by (subst scan_loop.simps) (simp add: Nil)
  next
    case (Cons e es)
    obtain k v where e: "e = (k, v)" by fastforce
    obtain a' d' A' D' where p: "scan_pick a d = Some (k, v, a', d')" "cursor_at a' A'" "cursor_at d' D'"
        "es = union2 A' D'" "length A' + length D' < length A + length D"
      using scan_pick_ok [OF less.prems Cons [unfolded e]] by blast
    note IH = less.hyps [OF p(5,2,3)]
    have "snd a \<noteq> None \<or> snd d \<noteq> None"
      using cursor_at_None [OF less.prems(1)] cursor_at_None [OF less.prems(2)] Cons
      by (metis list.distinct(1) union2.simps(1))
    then show ?thesis
      using p(1) IH unfolding Cons e p(4)
      by (subst scan_loop.simps) (auto split: option.splits prod.splits)
  qed
qed

lemma open_cursor_ok:
  assumes "\<forall>l. sl = Some l \<longrightarrow> list_ok cfg l"
  shows "\<exists>c. open_cursor sl lo = Some c \<and>
           cursor_at c (filter (\<lambda>e. lo \<le> fst e) (case sl of None \<Rightarrow> [] | Some l \<Rightarrow> contents l))"
proof (cases sl)
  case (Some l)
  let ?h = "sl_nodes l"
  obtain as where ch: "chain (MaxMemTableLevel cfg) ?h (sl_head l) (sl_level l) as" "contents l = entries ?h as"
    using assms Some skip_invE by (metis list_ok_def)
  have e: "filter (\<lambda>e. lo \<le> fst e) (entries ?h as) = entries ?h (succs ?h lo as)"
  proof -
    have "sorted_wrt (<) (map (\<lambda>a. Key (?h ! a)) as)" using ch(1) by (simp add: chain_def)
    then show ?thesis
    proof (induction as)
      case (Cons a as)
      show ?case
      proof (cases "Key (?h ! a) < lo")
        case True
        then show ?thesis using Cons by (auto simp: entries_def succs_def)
      next
        case False
        then have "\<forall>b \<in> set as. lo \<le> Key (?h ! b)" using Cons.prems by auto
        then show ?thesis using False by (simp add: entries_def succs_def filter_map comp_def)
      qed
    qed (simp add: entries_def succs_def)
  qed
  have "cursor_at (?h, hd_ptr (succs ?h lo as)) (entries ?h (succs ?h lo as))"
    unfolding cursor_at_def using ch(1) preds_succs [of "sl_head l" as ?h lo]
    by (intro disjI2 exI conjI) (auto simp: preds_def)
  then show ?thesis using Some ch(2) e firstGTE_chain [OF ch(1)] by (simp add: open_cursor_def)
qed (simp add: open_cursor_def cursor_at_def)

abbreviation sl_entries :: "SkipList option \<Rightarrow> LogEntry list" where
  "sl_entries sl \<equiv> (case sl of None \<Rightarrow> [] | Some l \<Rightarrow> contents l)"

lemma map_of_filter_key: "map_of (filter (\<lambda>e. P (fst e)) es) k = (if P k then map_of es k else None)"
  by (induction es) auto

lemma filter_union2:
  assumes "sorted_keys A" and "sorted_keys D"
  shows "union2 (filter (\<lambda>e. P (fst e)) A) (filter (\<lambda>e. P (fst e)) D) = filter (\<lambda>e. P (fst e)) (merge_entries [D, A])"
proof (rule sorted_keys_ext)
  have s: "sorted_keys (filter (\<lambda>e. P (fst e)) es)" if "sorted_keys es" for es :: "LogEntry list"
    using that by (induction es) auto
  show "sorted_keys (union2 (filter (\<lambda>e. P (fst e)) A) (filter (\<lambda>e. P (fst e)) D))"
    using s assms by (intro sorted_union2) blast+
  show "sorted_keys (filter (\<lambda>e. P (fst e)) (merge_entries [D, A]))" by (rule s [OF sorted_merge_entries])
  have m: "map_of (merge_entries [D, A]) = map_of D ++ map_of A"
    using map_of_merge_entries [of "[D, A]"] assms by (simp add: tables_view_def)
  show "map_of (union2 (filter (\<lambda>e. P (fst e)) A) (filter (\<lambda>e. P (fst e)) D)) =
      map_of (filter (\<lambda>e. P (fst e)) (merge_entries [D, A]))"
    using s assms by (auto simp: map_of_union2 m fun_eq_iff map_of_filter_key map_add_def split: option.splits)
qed

lemma ScanRange_ok:
  assumes "mem_ok cfg m tss"
  shows "ScanRange lo hi fn m s =
     Some (feed hi fn (filter (\<lambda>e. lo \<le> fst e) (merge_entries [sl_entries (dirty m), sl_entries (active m)])) s)"
proof -
  have ok: "\<forall>l. active m = Some l \<longrightarrow> list_ok cfg l" "\<forall>l. dirty m = Some l \<longrightarrow> list_ok cfg l"
    using assms by (auto simp: mem_ok_def)
  obtain a where a: "open_cursor (active m) lo = Some a"
      "cursor_at a (filter (\<lambda>e. lo \<le> fst e) (sl_entries (active m)))"
    using open_cursor_ok [OF ok(1)] by blast
  obtain d where d: "open_cursor (dirty m) lo = Some d"
      "cursor_at d (filter (\<lambda>e. lo \<le> fst e) (sl_entries (dirty m)))"
    using open_cursor_ok [OF ok(2)] by blast
  have "sorted_keys (sl_entries (active m))" "sorted_keys (sl_entries (dirty m))"
    using ok contents_sorted by (auto simp: list_ok_def split: option.splits)
  then show ?thesis
    using a(1) d(1) scan_loop_ok [OF a(2) d(2)] filter_union2 by (simp add: ScanRange_def)
qed

section \<open>Replaying a snapshot into a table\<close>

lemma FlushToSSTable_ok:
  assumes "float_ok fm" and "order_ok order" and "mem_ok cfg m tss" and "ents \<noteq> []" and "\<forall>e \<in> set ents. entry_fits e"
    and "file_fits fm order (merge_entries (map (\<lambda>e. [e]) ents))"
    and "sstable_path (SSTablePath cfg) now \<notin> Filepath ` set (mata (sst m))"
  defines "es \<equiv> merge_entries (map (\<lambda>e. [e]) ents)"
  shows "\<exists>r m'. FlushToSSTable fm order cfg coins now io ents m = Some (r, m') \<and>
           (if io_all io then r = Inr () \<and> mem_ok cfg m' (tss @ [es]) \<and> compactCh m'
            else (\<exists>e. r = Inl (WriteErr e)) \<and> mem_ok cfg m' tss) \<and>
           active m' = active m \<and> dirty m' = dirty m \<and> credits m' = credits m \<and>
           grown (sst m) tss (sst m') (if io_all io then tss @ [es] else tss)"
proof -
  obtain M where M: "MaxMemTableLevel cfg = Suc M" using assms(3) by (auto simp: mem_ok_def Suc_le_D dest!: Suc_le_D)
  have conc: "concat (map (\<lambda>e. [e]) ents) = ents" by (induction ents) auto
  obtain tmp where t: "insert_entries (insert_sl (Suc M)) coins (newSkipList (Suc M)) ents = Some tmp"
      "skip_inv (Suc M) tmp" "contents tmp = es"
    using skip.insert_entries_view [OF skip.new_inv, of M coins ents] skip.new_view [of M]
    by (auto simp: es_def merge_entries_def conc)
  have "entries_ok [e]" if "e \<in> set ents" for e using assms(5) that by (simp add: entries_ok_def)
  then have ok: "entries_ok es" unfolding es_def using assms(4) by (intro merge_entries_ok) auto
  then have ne: "es \<noteq> []" by (simp add: entries_ok_def)
  have st: "store_ok (sst m) tss" using assms(3) by (simp add: mem_ok_def)
  obtain r ss' where w: "WriteToSSTable fm order (SSTablePath cfg) now io es (sst m) = Some (r, ss')"
    "if io_all io then r = Inr () \<and> store_ok ss' (tss @ [es]) else (\<exists>e. r = Inl e) \<and> store_ok ss' tss"
    "grown (sst m) tss ss' (if io_all io then tss @ [es] else tss)"
    using write_table [OF assms(1,2) st ok _ assms(7), folded es_def] assms(6) by (metis es_def)
  have col: "collectAllEntry tmp = Some es" using collectAllEntry_contents [OF t(2)] t(3) by simp
  show ?thesis
  proof (cases "io_all io")
    case True
    then have "r = Inr ()" "store_ok ss' (tss @ [es])" using w(2) by simp_all
    then show ?thesis using w(1,3) True t(1) M assms(3,4) col ne by (simp add: FlushToSSTable_def mem_ok_def)
  next
    case False
    then obtain e where "r = Inl e" "store_ok ss' tss" using w(2) by (auto simp only: if_False)
    then show ?thesis using w(1,3) False t(1) M assms(3,4) col ne
      by (simp only: if_False) (simp add: FlushToSSTable_def mem_ok_def)
  qed
qed

end
