(* ===== verification/Restart.thy ===== *)
theory Restart
  imports MemCorrect
begin

text \<open>
  What a restart makes of the table files: \<open>LoadSSTableMetaList\<close> knows only the first key of a file, and
  \<open>EnsureMeta\<close> finds the last one by parsing entries to the end of the file, over the block index and the
  bloom filter. The lemmas follow that scan over a file written by the current writer.
\<close>

lemma ReadBE_seg_get: "seg f pos bs \<Longrightarrow> n = length bs \<Longrightarrow> ReadBE n f pos = Inr (get_be bs, pos + n)"
  using ReadFull_seg [of f pos bs n] by (simp add: ReadBE_def)

text \<open>Over entries without tombstones the scan steps from entry to entry.\<close>

lemma ensure_loop_step:
  assumes "seg f pos (put_be 4 (length k))" and "seg f (pos + 4) k" and "length k < 2 ^ 32"
    and "seg f (pos + 4 + length k) bs" and "length bs = 4"
  shows "ensure_loop f pos mk = ensure_loop f (pos + 8 + length k + get_be bs) k"
  using ReadBE_seg [OF assms(1)] ReadFull_seg [OF assms(2) refl] ReadBE_seg_get [OF assms(4)] assms(3,5)
  by (subst ensure_loop.simps) (simp add: add.commute add.left_commute)

lemma ensure_loop_entry:
  assumes "seg f pos (enc_entry (k, Some v))" and "entry_fits (k, Some v)"
  shows "ensure_loop f pos mk = ensure_loop f (pos + length (enc_entry (k, Some v))) k"
proof -
  have v: "length v < 256 ^ 4" and k: "length k < 2 ^ 32"
    using assms(2) by (simp_all add: entry_fits_def tombstoneValLen_def)
  have "ensure_loop f pos mk = ensure_loop f (pos + 8 + length k + get_be (put_be 4 (length v))) k"
    using assms(1) k by (intro ensure_loop_step) (simp_all add: enc_entry_def seg_append add.assoc)
  also have "pos + 8 + length k + get_be (put_be 4 (length v)) = pos + length (enc_entry (k, Some v))"
    using v by (simp add: enc_entry_def get_put_be)
  finally show ?thesis .
qed

lemma ensure_loop_entries:
  assumes "seg f pos (enc_entries es)" and "\<forall>e \<in> set es. entry_fits e \<and> snd e \<noteq> None"
  shows "ensure_loop f pos mk = ensure_loop f (pos + length (enc_entries es)) (if es = [] then mk else fst (last es))"
  using assms
proof (induction es arbitrary: pos mk)
  case (Cons e es)
  obtain k v where e: "e = (k, Some v)" using Cons.prems(2) by (cases e) auto
  have s: "seg f pos (enc_entry (k, Some v))" "seg f (pos + length (enc_entry (k, Some v))) (enc_entries es)"
    using Cons.prems(1) by (simp_all add: enc_entries_Cons seg_append e)
  have "ensure_loop f pos mk = ensure_loop f (pos + length (enc_entry (k, Some v))) k"
    using Cons.prems(2) by (intro ensure_loop_entry [OF s(1)]) (simp add: e)
  also have "\<dots> = ensure_loop f (pos + length (enc_entry (k, Some v)) + length (enc_entries es))
      (if es = [] then k else fst (last es))"
    using Cons.prems(2) by (intro Cons.IH [OF s(2)]) simp
  finally show ?case by (simp add: e enc_entries_Cons add.assoc)
qed simp

lemma ensure_loop_EOF: "length f \<le> pos \<Longrightarrow> ensure_loop f pos mk = mk"
  by (subst ensure_loop.simps) (simp add: ReadBE_EOF)

lemma get_be_4: "get_be [a, b, c, d] = ((unat a * 256 + unat b) * 256 + unat c) * 256 + unat d"
  by (simp add: get_be_def)

lemma put_be_0: "put_be n 0 = replicate n 0"
  by (induction n) (auto simp: replicate_append_same)

text \<open>
  On a file with a single block the scan continues over the index entry and takes the separator byte and
  the partition count of the filter for a value length, which leads past the end of the file.
\<close>

lemma ensure_loop_single_block:
  assumes "f = sst_image (enc_entries es) (block_index es) (58 # blob)" and "3 \<le> length blob"
    and "entries_ok es" and "\<forall>e \<in> set es. snd e \<noteq> None" and "length es \<le> SSTableBlockSize"
    and "length f \<le> 58 * 2 ^ 24"
  shows "ensure_loop f 0 [] = []"
proof -
  let ?n = "length (enc_entries es)"
  have ne: "es \<noteq> []" and fits: "\<forall>e \<in> set es. entry_fits e" using assms(3) by (simp_all add: entries_ok_def)
  have "block_count es = 1" using assms(5) ne
    by (cases es) (auto simp: block_count_def SSTableBlockSize_def)
  then have idx: "block_index es = [\<lparr>LastKey = fst (last es), BlockOffset = 0\<rparr>]"
    using assms(5) by (simp add: block_index_def block_entry_def)
  let ?k = "fst (last es)"
  obtain a b c blob' where blob: "blob = a # b # c # blob'"
    using assms(2) by (metis Suc_le_length_iff numeral_3_eq_3)
  have zeros: "replicate 8 (0 :: byte) = replicate 4 0 @ replicate 4 0" by (simp flip: replicate_add)
  have s0: "seg f 0 (enc_entries es)" by (rule sst_image_segs(1) [OF assms(1)])
  have f: "f = enc_entries es @ (put_be 4 (length ?k) @ ?k @ replicate 4 0) @ replicate 4 0 @ [58, a, b, c] @
      (blob' @ put_be 8 (length (58 # blob)) @ put_be 4 bloomTrailerMagic @ index_footer 1 ?n)"
    unfolding assms(1) sst_image_def idx enc_index_def enc_index_entry_def bloom_section_def blob
    by (simp add: put_be_0 zeros)
  let ?m = "?n + 8 + length ?k"
  have s1: "seg f ?n (put_be 4 (length ?k) @ ?k @ replicate 4 0)"
    by (rule segI [of _ "enc_entries es"]) (simp_all add: f)
  have s2: "seg f ?m (replicate 4 0 @ [58, a, b, c])"
    by (rule segI [of _ "enc_entries es @ put_be 4 (length ?k) @ ?k @ replicate 4 0"]) (simp_all add: f)
  have k: "length ?k < 2 ^ 32" using fits ne by (simp add: entry_fits_def)
  have "ensure_loop f 0 [] = ensure_loop f ?n ?k"
    using ensure_loop_entries [OF s0] fits assms(4) ne by simp
  also have "\<dots> = ensure_loop f (?n + 8 + length ?k + get_be (replicate 4 0)) ?k"
    using s1 k by (intro ensure_loop_step) (simp_all add: seg_append add.assoc)
  also have "?n + 8 + length ?k + get_be (replicate 4 0) = ?m"
    by (simp add: get_be_def numeral_eq_Suc)
  also have "ensure_loop f ?m ?k = ensure_loop f (?m + 8 + length ([] :: bytes) + get_be [58, a, b, c]) []"
    using s2 seg_length [OF s2] by (intro ensure_loop_step) (simp_all add: seg_append put_be_0 add.assoc)
  also have "\<dots> = []"
    using assms(6) by (intro ensure_loop_EOF) (simp add: get_be_4)
  finally show ?thesis .
qed

lemma EnsureMeta_single_block:
  assumes "fs (Filepath meta) = Some f" and "\<not> metaOnce meta" and "\<not> MaxKeyLoaded meta"
    and "ensure_loop f 0 [] = []"
  shows "MaxKey (EnsureMeta fs meta) = []"
  using assms by (simp add: EnsureMeta_def)

text \<open>With the empty key for a maximum, a lookup never opens the file.\<close>

lemma bytes_gt_Nil: "key \<noteq> [] \<Longrightarrow> 0 < bytes_Compare key ([] :: bytes)"
  by (cases key) simp_all

lemma get_loop_skips:
  assumes "\<forall>m \<in> set ms. MaxKey (EnsureMeta fs m) = []" and "key \<noteq> []" and "sst_fs ss = fs"
  shows "\<exists>ss'. get_loop ms key ss = Some ((None, False), ss')"
  using assms
proof (induction ms arbitrary: ss)
  case (Cons m ms)
  let ?meta = "EnsureMeta fs m"
  let ?ss = "ss\<lparr>mata := map (\<lambda>x. if ptr x = ptr m then ?meta else x) (mata ss)\<rparr>"
  have "get_loop (m # ms) key ss = get_loop ms key ?ss"
    using Cons.prems bytes_gt_Nil [of key] by (simp add: Let_def del: bytes_Compare_greater)
  then show ?case using Cons.IH [of ?ss] Cons.prems by simp
qed simp

lemma map_filter_single: "f x = Some y \<Longrightarrow> List.map_filter f [x] = [y]"
  by (simp add: List.map_filter_def)

lemma load_single:
  assumes "fs (dir @ ascii ''/'' @ name) = Some f" and "sst_file f es"
    and "drop (length name - 4) name = ascii ''.sst''"
  shows "load_meta dir fs (name, False) =
     Some \<lparr>Level = 0, Filepath = dir @ ascii ''/'' @ name, MinKey = fst (hd es), MaxKey = [],
           Size = length f, MaxKeyLoaded = False, metaOnce = False, ptr = 0\<rparr>"
proof -
  obtain e es' where es: "es = e # es'"
    using sst_file_shape(8) [OF assms(2)] by (cases es) (auto simp: entries_ok_def)
  have k: "length (fst e) < 256 ^ 4"
    using sst_file_shape(8) [OF assms(2)] by (simp add: es entries_ok_def entry_fits_def)
  have "seg f 0 (enc_entry e)" using sst_file_shape(5) [OF assms(2)] by (simp add: es enc_entries_Cons seg_append)
  then have "seg f 0 (put_be 4 (length (fst e)))" "seg f 4 (fst e)" by (simp_all add: enc_entry_def seg_append)
  from ReadBE_seg [OF this(1) k] ReadFull_seg [OF this(2) refl] show ?thesis
    using assms by (simp add: load_meta_def Let_def es)
qed

end
