(* ===== verification/StorageClaims.thy ===== *)
theory StorageClaims
  imports Examples MemScan Restart
begin

text \<open>
  The properties of the storage engine, stated over the operations of the model, each with a concrete
  instance where it has hypotheses.
\<close>

abbreviation ka :: bytes where "ka \<equiv> [97]"
abbreviation kb :: bytes where "kb \<equiv> [98]"

lemma fits_small: "length k < 100 \<Longrightarrow> vlen v < 100 \<Longrightarrow> entry_fits (k, v)"
  by (auto simp: entry_fits_def vlen_def tombstoneValLen_def split: option.splits)

section \<open>Reads see the last write\<close>


lemma demo_run:
  shows "\<exists>s. run fm0 order0 cfg0 100 Map.empty [(ka, Some [1])] s \<and> writers s = [Releasing 0]"
proof -
  let ?s0 = "sys_init cfg0 Map.empty"
  have a: "acquireCredit 2 (mem ?s0) = (True, (mem ?s0)\<lparr>credits := \<lparr>budget = 10, used = 2\<rparr>\<rparr>)"
    by (simp add: acquireCredit_def sys_init_def NewMemTable_def New_def cfg0_def TryAcquire_def fits_def)
  let ?s1 = "?s0\<lparr>mem := (mem ?s0)\<lparr>credits := \<lparr>budget = 10, used = 2\<rparr>\<rparr>, writers := [Reserved ka (Some [1])]\<rparr>"
  have "mstep fm0 order0 cfg0 100 None ?s0 ?s1"
    using mstep.take_credit [of ka "Some [1]" 100 ?s0] a fits_small [of ka "Some [1]"]
    by (simp add: vlen_def sys_init_def)
  then have r1: "run fm0 order0 cfg0 100 Map.empty [] ?s1"
    using run_step [OF run_init] by fastforce
  have "write_locked cfg0 (\<lambda>_. False) ka (Some [1]) (mem ?s1) \<noteq> None \<and>
      map_option fst (write_locked cfg0 (\<lambda>_. False) ka (Some [1]) (mem ?s1)) = Some (Inr 2)"
    by code_simp
  then obtain m2 where m2: "write_locked cfg0 (\<lambda>_. False) ka (Some [1]) (mem ?s1) = Some (Inr 2, m2)"
    by (auto simp: map_option_case split: option.splits)
  have "mstep fm0 order0 cfg0 100 (Some (ka, Some [1])) ?s1 (?s1\<lparr>mem := m2, writers := [Releasing 0]\<rparr>)"
    using mstep.insert [of ?s1 "[]" ka "Some [1]" "[]" cfg0 "\<lambda>_. False" 2 m2] m2 by (simp add: vlen_def)
  from run_step [OF r1 this] show ?thesis by (intro exI conjI) auto
qed


section \<open>Back-pressure\<close>

text \<open>
  C7. In every run the credit taken is exactly the bytes of the active and the dirty table plus what
  writers between their lock sections and the flush worker still have to settle; so the clamp in \<open>Release\<close>
  is never needed, and with no call in progress the pool counts the bytes in memory.
\<close>

theorem credit_accounting:
  assumes "float_ok fm" and "order_ok order" and "1 \<le> MaxMemTableLevel cfg" and "run fm order cfg M fs ws s"
  shows "credit_exact s \<and> 0 \<le> mem_bytes (mem s) \<and> (\<forall>w \<in> set (writers s). 0 \<le> held w) \<and> 0 \<le> worker_held (worker s)"
proof -
  obtain tss where "sys_ok cfg M s tss" using run_ok [OF assms] by blast
  then show ?thesis
    using mem_bytes_nonneg held_nonneg worker_held_nonneg unfolding sys_ok_def by blast
qed

theorem credit_accounting_witness:
  "\<exists>s. run fm0 order0 cfg0 100 Map.empty [(ka, Some [1])] s \<and> credit_exact s \<and> 0 \<le> mem_bytes (mem s)"
proof -
  obtain s where s: "run fm0 order0 cfg0 100 Map.empty [(ka, Some [1])] s" using demo_run by blast
  have "1 \<le> MaxMemTableLevel cfg0" by (simp add: cfg0_def)
  from credit_accounting [OF float_ok_fm0 order_ok_order0 this s] s show ?thesis by blast
qed




lemma mem_ok_new: "mem_ok cfg0 (NewMemTable cfg0 fs) []"
  using sys_init_ok(1) [of cfg0 0 fs] by (simp add: sys_ok_def sys_init_def cfg0_def)

lemma demo_write:
  "\<exists>m. write_locked cfg0 (\<lambda>_. False) ka (Some [1]) (NewMemTable cfg0 Map.empty) = Some (Inr 2, m) \<and>
     mem_ok cfg0 m [] \<and> raw_view m [] = [ka \<mapsto> Some [1]] \<and> dirty m = None \<and> sst m = NewSSTable Map.empty \<and>
     mem_bytes m = 2 \<and> credits m = New 10 \<and> sl_entries (active m) = [(ka, Some [1])]"
proof -
  have "map_option (\<lambda>p. (fst p, mem_bytes (snd p), sl_entries (active (snd p))))
      (write_locked cfg0 (\<lambda>_. False) ka (Some [1]) (NewMemTable cfg0 Map.empty)) = Some (Inr 2, 2, [(ka, Some [1])])"
    by code_simp
  moreover have "credits (NewMemTable cfg0 Map.empty) = New 10" "dirty (NewMemTable cfg0 Map.empty) = None"
    "sst (NewMemTable cfg0 Map.empty) = NewSSTable Map.empty" "raw_view (NewMemTable cfg0 Map.empty) [] = Map.empty"
    using sys_init_ok(2) [of cfg0 Map.empty] by (simp_all add: NewMemTable_def cfg0_def sys_init_def)
  ultimately show ?thesis
    using write_locked_ok [OF mem_ok_new fits_small [of ka "Some [1]"], of "\<lambda>_. False" Map.empty]
    by (auto simp: vlen_def)
qed


section \<open>Compaction\<close>


lemma entries_ok_1: "length k < 100 \<Longrightarrow> vlen v < 100 \<Longrightarrow> entries_ok [(k, v)]"
  using fits_small by (simp add: entries_ok_def)

lemma demo_store:
  "\<exists>ss. store_ok ss [[(ka, Some [1])], [(ka, Some [2])]] \<and> levels ss = [0, 0] \<and>
     map Filepath (mata ss) = [sstable_path (ascii ''d'') 5, sstable_path (ascii ''d'') 6]"
proof -
  let ?e1 = "[(ka, Some [1 :: byte])]" and ?e2 = "[(ka, Some [2 :: byte])]"
  let ?ss = "NewSSTable Map.empty"
  have ok: "entries_ok ?e1" "entries_ok ?e2" using entries_ok_1 by (simp_all add: vlen_def)
  have fit: "file_fits fm0 order0 ?e1" "file_fits fm0 order0 ?e2"
    using ok by (intro file_fits_small; simp add: small_def vlen_def)+
  have ne: "sstable_path (ascii ''d'') 6 \<noteq> sstable_path (ascii ''d'') 5" using sstable_path_inj by fastforce
  have s0: "store_ok ?ss []" by (simp add: store_ok_def NewSSTable_def)
  have p0: "sstable_path (ascii ''d'') 5 \<notin> Filepath ` set (mata ?ss)" by (simp add: NewSSTable_def)
  obtain r1 s1 where s1: "WriteToSSTable fm0 order0 (ascii ''d'') 5 io_good ?e1 ?ss = Some (r1, s1)" "r1 = Inr ()" "store_ok s1 [?e1]"
      "levels s1 = [0]" "map Filepath (mata s1) = [sstable_path (ascii ''d'') 5]"
    using write_table [OF float_ok_fm0 order_ok_order0 s0 ok(1) fit(1) p0, of io_good]
    by (simp add: io_good_def NewSSTable_def) metis
  have p1: "sstable_path (ascii ''d'') 6 \<notin> Filepath ` set (mata s1)"
    using ne arg_cong [OF s1(5), of set] by simp
  obtain r2 s2 where s2: "WriteToSSTable fm0 order0 (ascii ''d'') 6 io_good ?e2 s1 = Some (r2, s2)" "store_ok s2 ([?e1] @ [?e2])"
      "levels s2 = [0, 0]" "map Filepath (mata s2) = [sstable_path (ascii ''d'') 5, sstable_path (ascii ''d'') 6]"
    using write_table [OF float_ok_fm0 order_ok_order0 s1(3) ok(2) fit(2) p1, of io_good] s1(4,5)
    by (simp add: io_good_def) metis
  show ?thesis using s2 by (intro exI [of _ s2]) simp
qed

lemma merged_not_flushed: "merged_path (ascii ''d'') n \<notin> {sstable_path (ascii ''d'') 5, sstable_path (ascii ''d'') 6}"
  by (simp add: merged_path_def sstable_path_def ascii_def decimal.simps [of 5] decimal.simps [of 6])

lemma small_subset:
  assumes "entries_ok es" and "set es \<subseteq> {(ka, Some [2]), (ka, Some [1])}"
  shows "file_fits fm0 order0 es"
proof (rule file_fits_small [OF _ assms(1)])
  have "length es = card (fst ` set es)"
    using assms(1) sorted_keys_distinct [of es] distinct_card [of "map fst es"] by (simp add: entries_ok_def)
  also have "\<dots> \<le> card {ka}" using assms(2) by (intro card_mono) auto
  finally have "length es \<le> 1" by simp
  moreover have "length (fst e) = 1 \<and> vlen (snd e) = 1" if "e \<in> set es" for e
    using assms(2) that by (auto simp: vlen_def)
  ultimately show "small (2 ^ 20) es" unfolding small_def by (intro conjI ballI) (simp_all add: le_trans [of _ 1])
qed


section \<open>Table files\<close>

text \<open>
  C15. A table written by \<open>WriteToSSTable\<close> is read back entry by entry: \<open>ReadAllFromSSTable\<close> returns exactly the
  entries, tombstones included, and stops at the data area.
\<close>

theorem table_round_trip:
  assumes "float_ok fm" and "order_ok order" and "entries_ok es" and "file_fits fm order es" and "io_all io"
  shows "\<exists>ss'. WriteToSSTable fm order dir now io es ss = Some (Inr (), ss') \<and>
           ReadAllFromSSTable (sst_fs ss') (sstable_path dir now) = Inr es"
proof -
  obtain ss' where "WriteToSSTable fm order dir now io es ss = Some (Inr (), ss')" "table_at ss' (sstable_path dir now) es"
    using WriteToSSTable_outcomes [OF assms(1-4), of dir now io ss] assms(5) by auto
  then show ?thesis using ReadAll_file by (auto simp: table_at_def)
qed

theorem table_round_trip_witness:
  "\<exists>ss'. WriteToSSTable fm0 order0 (ascii ''d'') 5 io_good [(ka, None), (kb, Some [7])] (NewSSTable Map.empty) = Some (Inr (), ss') \<and>
     ReadAllFromSSTable (sst_fs ss') (sstable_path (ascii ''d'') 5) = Inr [(ka, None), (kb, Some [7])]"
proof -
  let ?es = "[(ka, None), (kb, Some [7 :: byte])]"
  have ok: "entries_ok ?es" by (simp add: entries_ok_def entry_fits_def tombstoneValLen_def)
  have "file_fits fm0 order0 ?es" by (rule file_fits_small [OF _ ok]) (simp add: small_def vlen_def)
  from table_round_trip [OF float_ok_fm0 order_ok_order0 ok this, of io_good] show ?thesis by (simp add: io_good_def)
qed

text \<open>
  C14. A lookup through the bloom filter, the block index (cached or loaded) and the block scan answers what
  the table holds for every key up to its last one, and leaves all tables readable.
\<close>

theorem table_lookup:
  assumes "table_at ss p es" and "key \<le> fst (last es)"
  shows "\<exists>ss'. ReadFromSSTable p key ss =
     Some (case map_of es key of None \<Rightarrow> (None, False) | Some v \<Rightarrow> (v, True), ss') \<and> same_tables ss ss'"
  using ReadFromSSTable_table [OF assms] by (simp add: lookup_result_def)

theorem table_lookup_witness:
  "\<exists>ss p ss'. table_at ss p [(ka, None), (kb, Some [7])] \<and> ReadFromSSTable p kb ss = Some ((Some [7], True), ss')"
proof -
  let ?es = "[(ka, None), (kb, Some [7 :: byte])]"
  have ok: "entries_ok ?es" by (simp add: entries_ok_def entry_fits_def tombstoneValLen_def)
  have f: "file_fits fm0 order0 ?es" by (rule file_fits_small [OF _ ok]) (simp add: small_def vlen_def)
  obtain ss where t: "table_at ss (sstable_path (ascii ''d'') 5) ?es"
    using WriteToSSTable_outcomes [OF float_ok_fm0 order_ok_order0 ok f, of "ascii ''d''" 5 io_good]
    by (auto simp: io_good_def)
  from table_lookup [OF t, of kb] t show ?thesis by auto
qed

text \<open>
  C16. Merging tables listed oldest first writes one table whose keys ascend strictly and whose value for
  every key is that of the newest table that has it; the result has the same byte layout as a flushed
  table (it can be read back), and the other tables are untouched.
\<close>

theorem merge_newest_wins:
  assumes "float_ok fm" and "order_ok order" and "files_hold ss files tss" and "files \<noteq> []"
    and "file_fits fm order (merge_entries tss)" and "merge_io io"
  shows "\<exists>meta ss' out. MergeSSTable fm order dir now io files lvl ss = Some (Some meta, ss') \<and>
           ReadAllFromSSTable (sst_fs ss') (Filepath meta) = Inr out \<and> sorted_keys out \<and>
           map_of out = foldl (\<lambda>m es. m ++ map_of es) Map.empty tss \<and>
           MinKey meta = fst (hd out) \<and> MaxKey meta = fst (last out) \<and> Level meta = lvl \<and>
           others_kept (Filepath meta) ss ss'"
proof -
  let ?es = "merge_entries tss"
  let ?meta = "(new_meta lvl (merged_path dir now) (length (image_of fm order ?es)) ?es)\<lparr>ptr := next_ptr ss\<rparr>"
  obtain ss' where "MergeSSTable fm order dir now io files lvl ss = Some (Some ?meta, ss')"
      "table_at ss' (merged_path dir now) ?es" "others_kept (merged_path dir now) ss ss'"
    using MergeSSTable_outcomes [OF assms(1-5), of dir now io lvl] assms(6) by auto
  moreover have "\<forall>es \<in> set tss. sorted_keys es" using files_hold_ok [OF assms(3)] by (simp add: entries_ok_def)
  then have "map_of ?es = foldl (\<lambda>m es. m ++ map_of es) Map.empty tss"
    using map_of_merge_entries by (simp add: tables_view_def)
  ultimately show ?thesis
    using ReadAll_file sorted_merge_entries [of tss]
    by (intro exI [of _ ?meta] exI [of _ ss'] exI [of _ ?es]) (auto simp: table_at_def new_meta_def)
qed

theorem merge_newest_wins_witness:
  "\<exists>ss files meta ss' out. files_hold ss files [[(ka, Some [1])], [(ka, Some [2])]] \<and>
     MergeSSTable fm0 order0 (ascii ''d'') 9 io_good files 1 ss = Some (Some meta, ss') \<and>
     ReadAllFromSSTable (sst_fs ss') (Filepath meta) = Inr out \<and> map_of out ka = Some (Some [2])"
proof -
  let ?tss = "[[(ka, Some [1 :: byte])], [(ka, Some [2 :: byte])]]"
  obtain ss where ss: "store_ok ss ?tss" using demo_store by (elim exE conjE)
  then have h: "files_hold ss (mata ss) ?tss"
    by (simp add: store_ok_def files_hold_def list_all2_conv_all_nth meta_ok_def)
  have ne: "mata ss \<noteq> []" using ss by (auto simp: store_ok_def)
  have "\<forall>es \<in> set ?tss. entries_ok es" using store_ok_entries [OF ss] by blast
  then have "file_fits fm0 order0 (merge_entries ?tss)"
    using merge_entries_ok [of ?tss] set_merge_entries [of ?tss] by (intro small_subset) auto
  from merge_newest_wins [OF float_ok_fm0 order_ok_order0 h ne this, of io_good "ascii ''d''" 9 1]
  obtain meta ss' out where "MergeSSTable fm0 order0 (ascii ''d'') 9 io_good (mata ss) 1 ss = Some (Some meta, ss')"
      "ReadAllFromSSTable (sst_fs ss') (Filepath meta) = Inr out" "map_of out ka = Some (Some [2])"
    by (auto simp: io_good_def)
  with h show ?thesis by blast
qed

text \<open>
  The filter built for a table never rejects one of its keys, and an absent answer of a well-formed
  filter is reached without an index error.
\<close>

theorem bloom_no_false_negative:
  assumes "float_ok fm"
  shows "\<exists>pb. BuildPartitionedBloom fm keys sep p = Some pb \<and> (\<forall>k \<in> set keys. pb_MayContain pb k = Some True) \<and>
           (\<forall>k. pb_MayContain pb k \<noteq> None)"
  using BuildPartitionedBloom_correct [OF assms, of keys sep p] pb_MayContain_total by fastforce

theorem bloom_no_false_negative_witness:
  "\<exists>pb. BuildPartitionedBloom fm0 [ka, kb] DefaultNamespaceSep defaultBloomFPRate = Some pb \<and>
     pb_MayContain pb kb = Some True"
  using bloom_no_false_negative [OF float_ok_fm0, of "[ka, kb]" DefaultNamespaceSep defaultBloomFPRate] by auto

section \<open>The skip list\<close>

text \<open>
  C17. Inserting into a well-formed skip list never panics, whatever the random level; it keeps the list
  well formed, puts the entry into the sorted contents (replacing the value of an equal key), accounts
  its bytes exactly, and the key is found afterwards.
\<close>

theorem skiplist_insert:
  assumes "skip_inv L sl"
  shows "\<exists>sl' delta. insert_sl L coins sl key v = Some (sl', delta) \<and> skip_inv L sl' \<and>
           contents sl' = ins_sorted key v (contents sl) \<and> sl_byteSize sl' = sl_byteSize sl + delta \<and>
           search sl' key = Some (v, True)"
  using insert_sl_correct [OF assms, of coins key v] search_contents by fastforce

theorem skiplist_insert_witness:
  "\<exists>sl' delta. insert_sl 4 (\<lambda>_. True) (newSkipList 4) ka (Some [1]) = Some (sl', delta) \<and>
     contents sl' = [(ka, Some [1])] \<and> search sl' ka = Some (Some [1], True)"
  using skiplist_insert [OF newSkipList_inv [of 4], of "\<lambda>_. True" ka "Some [1]"] contents_newSkipList [of 4] by auto

lemma delete_sl_bytes: "delete_sl L sl key = Some (sl', b) \<Longrightarrow> sl_byteSize sl' = sl_byteSize sl"
  by (auto simp: delete_sl_def split: option.splits prod.splits if_splits)

text \<open>
  Deleting from a well-formed skip list never panics, removes exactly the key's entry and keeps the
  list well formed up to its byte count, which the code does not adjust.
\<close>

theorem skiplist_delete:
  assumes "skip_inv L sl"
  shows "\<exists>sl' as. delete_sl L sl key = Some (sl', key \<in> fst ` set (contents sl)) \<and>
           chain L (sl_nodes sl') (sl_head sl') (sl_level sl') as \<and> sl_size sl' = length as \<and>
           contents sl' = filter (\<lambda>e. fst e \<noteq> key) (contents sl) \<and> sl_byteSize sl' = sl_byteSize sl"
proof -
  obtain as where "chain L (sl_nodes sl) (sl_head sl) (sl_level sl) as" "sl_size sl = length as"
    using skip_invE [OF assms] by blast
  from delete_sl_correct [OF this, of key] show ?thesis using delete_sl_bytes by blast
qed

theorem skiplist_delete_witness:
  "\<exists>sl'. delete_sl 4 (newSkipList 4) ka = Some (sl', False) \<and> contents sl' = []"
  using skiplist_delete [OF newSkipList_inv [of 4], of ka] contents_newSkipList [of 4] by auto

section \<open>Scans and snapshot replay\<close>

text \<open>
  C18. \<open>FlushToSSTable\<close> writes the last value of every replayed key as a new table below the memory tables and
  above all earlier tables, asks for a compaction, and does not touch the memory tables or the credit;
  on a write error nothing changes.
\<close>

theorem snapshot_replay_table:
  assumes "float_ok fm" and "order_ok order" and "mem_ok cfg m tss" and "ents \<noteq> []" and "\<forall>e \<in> set ents. entry_fits e"
    and "file_fits fm order (merge_entries (map (\<lambda>e. [e]) ents))"
    and "sstable_path (SSTablePath cfg) now \<notin> Filepath ` set (mata (sst m))"
  shows "\<exists>r m' tss'. FlushToSSTable fm order cfg coins now io ents m = Some (r, m') \<and> mem_ok cfg m' tss' \<and>
           (if io_all io then r = Inr () \<and> compactCh m' \<and>
              raw_view m' tss' = tables_view tss ++ map_of (rev ents) ++ sl_map (dirty m) ++ sl_map (active m)
            else (\<exists>e. r = Inl (WriteErr e)) \<and> raw_view m' tss' = raw_view m tss) \<and> credits m' = credits m"
proof -
  have c: "concat (map (\<lambda>e. [e]) ents) = ents" by (induction ents) auto
  have "map_of (merge_entries (map (\<lambda>e. [e]) ents)) = map_of (rev ents)"
    by (simp add: merge_entries_def c map_of_fold_ins_sorted)
  then have v: "tables_view (tss @ [merge_entries (map (\<lambda>e. [e]) ents)]) = tables_view tss ++ map_of (rev ents)"
    by simp
  obtain r m' where r: "FlushToSSTable fm order cfg coins now io ents m = Some (r, m')"
      "if io_all io then r = Inr () \<and> mem_ok cfg m' (tss @ [merge_entries (map (\<lambda>e. [e]) ents)]) \<and> compactCh m'
       else (\<exists>e. r = Inl (WriteErr e)) \<and> mem_ok cfg m' tss"
      "active m' = active m" "dirty m' = dirty m" "credits m' = credits m"
    using FlushToSSTable_ok [OF assms, of coins io] by blast
  show ?thesis
    using r v unfolding raw_view_def by (cases "io_all io") (simp only: if_True, metis, simp only: if_False, metis)
qed

theorem snapshot_replay_table_witness:
  "\<exists>r m' tss'. FlushToSSTable fm0 order0 cfg0 (\<lambda>_ _. False) 5 io_good [(ka, Some [1]), (ka, Some [2])] (NewMemTable cfg0 Map.empty) =
       Some (r, m') \<and> mem_ok cfg0 m' tss' \<and> raw_view m' tss' ka = Some (Some [2])"
proof -
  let ?ents = "[(ka, Some [1 :: byte]), (ka, Some [2])]"
  have e: "\<forall>e \<in> set ?ents. entry_fits e" using fits_small by (simp add: vlen_def)
  have "\<forall>es \<in> set (map (\<lambda>e. [e]) ?ents). entries_ok es" using e by (simp add: entries_ok_def)
  then have "file_fits fm0 order0 (merge_entries (map (\<lambda>e. [e]) ?ents))"
    using merge_entries_ok [of "map (\<lambda>e. [e]) ?ents"] set_merge_entries [of "map (\<lambda>e. [e]) ?ents"]
    by (intro small_subset) auto
  from snapshot_replay_table [OF float_ok_fm0 order_ok_order0 mem_ok_new _ e this, of 5 Map.empty "\<lambda>_ _. False" io_good]
  have "\<exists>r m' tss'. FlushToSSTable fm0 order0 cfg0 (\<lambda>_ _. False) 5 io_good ?ents (NewMemTable cfg0 Map.empty) = Some (r, m') \<and>
      mem_ok cfg0 m' tss' \<and> raw_view m' tss' = tables_view [] ++ map_of (rev ?ents) ++ sl_map None ++ sl_map (Some (newSkipList 4))"
    by (auto simp: io_good_def NewMemTable_def NewSSTable_def cfg0_def)
  moreover have "sl_map (Some (newSkipList 4)) = Map.empty" using contents_newSkipList [of 4] by (simp add: sl_map_def)
  ultimately show ?thesis by (fastforce simp: sl_map_def)
qed

end
