(* ===== verification/Compactor.thy ===== *)
theory Compactor
  imports MemSystem Compaction MemScan
begin

text \<open>
  The goroutine \<open>ListenCompactCh\<close> of \<open>memtable.go\<close> beside the writers, the readers and the flush worker, and the
  snapshot replay that wakes it. \<open>CompactSSTable\<close> is cut where it gives up the lock of the table list: taking the
  files of a level, writing and publishing the merged table, removing each old table.

  While a pass is under way, the table list must not grow: a table that is published in between is older, for the
  readers, than the merged one. The runs here are those in which this does not happen and no merge fails; in them
  every read is the one of the abstract map.
\<close>

datatype compactor = CIdle | AtLevel nat | Merging nat "SSTableMata list" | Dropping nat "SSTableMata list"

record CSystem =
  base :: System
  compacting :: compactor

abbreviation tables :: "CSystem \<Rightarrow> SSTable" where
  "tables s \<equiv> sst (mem (base s))"

definition set_tables :: "SSTable \<Rightarrow> CSystem \<Rightarrow> CSystem" where
  "set_tables ss s = s\<lparr>base := (base s)\<lparr>mem := (mem (base s))\<lparr>sst := ss\<rparr>\<rparr>\<rparr>"

text \<open>
  One iteration of the loop of \<open>CompactSSTable\<close> takes several steps. \<open>now\<close> and \<open>io\<close> are the clock and the outcome of
  the system calls of the step, \<open>rms\<close> says which files can be removed.
\<close>

inductive lstep ::
    "FloatMath \<Rightarrow> (PartitionedBloom \<Rightarrow> bytes list) \<Rightarrow> MemConfig \<Rightarrow> (path \<Rightarrow> bool) \<Rightarrow> nat \<Rightarrow> IOEnv \<Rightarrow>
     compactor \<times> SSTable \<Rightarrow> compactor \<times> SSTable \<Rightarrow> bool"
  for fm order cfg rms now io where
  skip_level: "\<lbrakk>l < 10; length (GetLevelFiles l ss) < MaxCompactionSize cfg\<rbrakk> \<Longrightarrow>
     lstep fm order cfg rms now io (AtLevel l, ss) (AtLevel (l + 1), ss)"
| take_files: "\<lbrakk>l < 10; MaxCompactionSize cfg \<le> length (GetLevelFiles l ss)\<rbrakk> \<Longrightarrow>
     lstep fm order cfg rms now io (AtLevel l, ss) (Merging l (GetLevelFiles l ss), ss)"
| merge_failed: "MergeSSTable fm order (SSTablePath cfg) now io files (l + 1) ss = Some (None, ss') \<Longrightarrow>
     lstep fm order cfg rms now io (Merging l files, ss) (AtLevel (l + 1), ss')"
| merge_files: "MergeSSTable fm order (SSTablePath cfg) now io files (l + 1) ss = Some (Some m, ss') \<Longrightarrow>
     lstep fm order cfg rms now io (Merging l files, ss) (Dropping l files, ss')"
| drop_file: "lstep fm order cfg rms now io (Dropping l (f # files), ss)
     (Dropping l files, RemoveMata f (DeleteSSTable (rms (Filepath f)) f ss))"
| dropped: "lstep fm order cfg rms now io (Dropping l [], ss) (AtLevel (l + 1), ss)"
| pass_done: "lstep fm order cfg rms now io (AtLevel 10, ss) (CIdle, ss)"

text \<open>The merge of a step succeeds, under a new name and with a file that fits.\<close>

fun merge_ready :: "FloatMath \<Rightarrow> (PartitionedBloom \<Rightarrow> bytes list) \<Rightarrow> MemConfig \<Rightarrow> nat \<Rightarrow> IOEnv \<Rightarrow> compactor \<Rightarrow> SSTable \<Rightarrow> bool" where
  "merge_ready fm order cfg now io (Merging l files) ss \<longleftrightarrow> merge_io io \<and>
     merged_path (SSTablePath cfg) now \<notin> Filepath ` set (mata ss) \<and>
     (\<forall>tss. files_hold ss files tss \<longrightarrow> file_fits fm order (merge_entries tss))"
| "merge_ready fm order cfg now io c ss \<longleftrightarrow> True"

text \<open>
  Runs, with the map that the operations define. A write overrides its key. A replayed snapshot overrides the tables
  but not what is in memory. The compactor changes nothing.
\<close>

definition mem_view :: "MemTable \<Rightarrow> bytes \<rightharpoonup> bytes option" where
  "mem_view m = sl_map (dirty m) ++ sl_map (active m)"

inductive krun ::
    "FloatMath \<Rightarrow> (PartitionedBloom \<Rightarrow> bytes list) \<Rightarrow> MemConfig \<Rightarrow> int \<Rightarrow> (path \<rightharpoonup> bytes) \<Rightarrow>
     (bytes \<rightharpoonup> bytes option) \<Rightarrow> CSystem \<Rightarrow> bool"
  for fm order cfg M fs where
  k_init: "krun fm order cfg M fs Map.empty \<lparr>base = sys_init cfg fs, compacting = CIdle\<rparr>"
| k_step: "\<lbrakk>krun fm order cfg M fs V s; mstep fm order cfg M l (base s) b;
      compacting s = CIdle \<or> sigs (sst (mem b)) = sigs (tables s)\<rbrakk> \<Longrightarrow>
     krun fm order cfg M fs (step_view l V) (s\<lparr>base := b\<rparr>)"
| k_replay: "\<lbrakk>krun fm order cfg M fs V s; compacting s = CIdle; \<forall>d. worker (base s) \<noteq> Clearing d;
      ents \<noteq> []; \<forall>e \<in> set ents. entry_fits e; file_fits fm order (merge_entries (map (\<lambda>e. [e]) ents));
      sstable_path (SSTablePath cfg) now \<notin> Filepath ` set (mata (tables s));
      FlushToSSTable fm order cfg coins now io ents (mem (base s)) = Some (r, m')\<rbrakk> \<Longrightarrow>
     krun fm order cfg M fs (case r of Inl _ \<Rightarrow> V | Inr _ \<Rightarrow> V ++ written ents ++ mem_view (mem (base s)))
       (s\<lparr>base := (base s)\<lparr>mem := m'\<rparr>\<rparr>)"
| k_start: "\<lbrakk>krun fm order cfg M fs V s; compacting s = CIdle; compactCh (mem (base s))\<rbrakk> \<Longrightarrow>
     krun fm order cfg M fs V
       (s\<lparr>base := (base s)\<lparr>mem := (mem (base s))\<lparr>compactCh := False\<rparr>\<rparr>, compacting := AtLevel 0\<rparr>)"
| k_compact: "\<lbrakk>krun fm order cfg M fs V s; merge_ready fm order cfg now io (compacting s) (tables s);
      lstep fm order cfg rms now io (compacting s, tables s) (c, ss)\<rbrakk> \<Longrightarrow>
     krun fm order cfg M fs V ((set_tables ss s)\<lparr>compacting := c\<rparr>)"

section \<open>The invariant of the compactor\<close>

text \<open>The levels of a list of tables; levels from \<open>lo\<close> to nine are below the threshold.\<close>

definition below :: "MemConfig \<Rightarrow> (nat \<Rightarrow> bool) \<Rightarrow> nat list \<Rightarrow> bool" where
  "below cfg P ls \<longleftrightarrow> (\<forall>i. P i \<and> 1 \<le> i \<and> i < 10 \<longrightarrow> count_list ls i < MaxCompactionSize cfg)"

abbreviation slevels :: "(nat \<times> path \<times> nat) list \<Rightarrow> nat list" where
  "slevels xs \<equiv> map (\<lambda>x. snd (snd x)) xs"

text \<open>
  At level \<open>l\<close> the other levels are below the threshold, and level \<open>l\<close> is too unless it is the lowest. While the
  files of a level are removed they stand before the merged table, which holds every key of theirs.
\<close>

fun comp_ok :: "MemConfig \<Rightarrow> (nat \<times> path \<times> nat) list \<Rightarrow> LogEntry list list \<Rightarrow> compactor \<Rightarrow> bool" where
  "comp_ok cfg xs tss CIdle = (sorted_wrt (\<ge>) (slevels xs) \<and> below cfg (\<lambda>_. True) (slevels xs))"
| "comp_ok cfg xs tss (AtLevel l) =
     (l \<le> 10 \<and> sorted_wrt (\<ge>) (slevels xs) \<and> below cfg (\<lambda>i. i \<noteq> l) (slevels xs) \<and>
      (l < 10 \<longrightarrow> below cfg (\<lambda>i. i = l) (slevels xs) \<or> (\<forall>y \<in> set (slevels xs). l \<le> y)))"
| "comp_ok cfg xs tss (Merging l files) =
     (l < 10 \<and> sorted_wrt (\<ge>) (slevels xs) \<and> below cfg (\<lambda>i. i \<noteq> l) (slevels xs) \<and>
      (\<forall>y \<in> set (slevels xs). l \<le> y) \<and> files \<noteq> [] \<and>
      map msig files = filter (\<lambda>x. snd (snd x) = l) xs)"
| "comp_ok cfg xs tss (Dropping l files) =
     (l < 10 \<and> (\<exists>hs m us vs es. xs = hs @ map msig files @ [m] \<and> tss = us @ vs @ [es] \<and>
        length hs = length us \<and> length files = length vs \<and> sorted_wrt (\<ge>) (slevels (hs @ [m])) \<and>
        below cfg (\<lambda>i. i \<noteq> l + 1) (slevels (hs @ [m])) \<and> (\<forall>y \<in> set (slevels (hs @ [m])). l + 1 \<le> y) \<and>
        dom (tables_view vs) \<subseteq> dom (map_of es)))"


lemma level_msig [simp]: "snd (snd (msig x)) = Level x" "(\<lambda>x. snd (snd x)) \<circ> msig = Level"
  by (simp_all add: msig_def fun_eq_iff)

lemma level_count_sigs: "length (GetLevelFiles l ss) = count_list (levels ss) l"
  unfolding level_count_levels count_list_eq_length_filter by (metis (lifting))

lemma msig_GetLevelFiles: "map msig (GetLevelFiles l ss) = filter (\<lambda>x. snd (snd x) = l) (sigs ss)"
  by (simp add: GetLevelFiles_def filter_map comp_def msig_def)

lemma files_hold_msig: "map msig fs = map msig gs \<Longrightarrow> files_hold ss fs vs = files_hold ss gs vs"
  unfolding files_hold_def list_all2_conv_all_nth
  by (smt (verit) fst_conv length_map msig_def nth_map snd_conv)

lemma drop_files_msig: "msig f = msig g \<Longrightarrow> drop_files rms [f] ss = drop_files rms [g] ss"
  by (simp add: drop_files_def msig_def RemoveMata_def DeleteSSTable_def)

lemma tables_view_Cons: "tables_view (v # vs) = map_of v ++ tables_view vs"
  using tables_view_append [of "[v]" vs] tables_view_snoc [of "[]" v] by simp

text \<open>Once the merged table is published, its sources say nothing that it does not say.\<close>

lemma tables_view_covered:
  assumes "dom (tables_view (v # vs)) \<subseteq> dom (map_of es)"
  shows "tables_view (us @ vs @ [es]) = tables_view (us @ (v # vs) @ [es])" and "dom (tables_view vs) \<subseteq> dom (map_of es)"
proof -
  note c = tables_view_Cons
  show "dom (tables_view vs) \<subseteq> dom (map_of es)" using assms by (auto simp: c)
  have "map_of v k = None" if "map_of es k = None" for k
    using assms that by (auto simp: c dom_def subset_iff)
  then show "tables_view (us @ vs @ [es]) = tables_view (us @ (v # vs) @ [es])"
    by (auto simp: fun_eq_iff tables_view_append c map_add_def split: option.splits)
qed

section \<open>Steps of the compactor\<close>

lemma count_list_le_filter: "count_list (map f (filter P xs)) i \<le> count_list (map f xs) i"
  by (induction xs) auto

lemma merge_files_ok:
  assumes "float_ok fm" and "order_ok order" and "store_ok ss tss" and "comp_ok cfg (sigs ss) tss (Merging l files)" and "1 \<le> MaxCompactionSize cfg"
    and m: "MergeSSTable fm order (SSTablePath cfg) now io files (l + 1) ss = Some (r, ss')"
    and "merge_ready fm order cfg now io (Merging l files) ss"
  shows "r \<noteq> None \<and> (\<exists>tss'. store_ok ss' tss' \<and> tables_view tss' = tables_view tss \<and> comp_ok cfg (sigs ss') tss' (Dropping l files))"
proof -
  let ?F = "GetLevelFiles l ss" and ?hs = "filter (\<lambda>m. Level m \<noteq> l) (mata ss)" and ?p = "merged_path (SSTablePath cfg) now"
  have inv: "l < 10" "sorted_wrt (\<ge>) (levels ss)" "below cfg (\<lambda>i. i \<noteq> l) (levels ss)" "\<forall>x \<in> set (mata ss). l \<le> Level x"
      "files \<noteq> []" "map msig files = map msig ?F"
    using assms(4) by (simp_all add: msig_GetLevelFiles)
  then have ne: "?F \<noteq> []" by auto
  obtain us vs where sp: "mata ss = ?hs @ ?F" and uv: "tss = us @ vs" "length ?hs = length us" "length ?F = length vs"
    and hold: "files_hold ss ?F vs" and vok: "\<forall>es \<in> set vs. entries_ok es"
    using level_tables [OF assms(3) inv(2,4) ne] by blast
  let ?es = "merge_entries vs"
  have h: "files_hold ss files vs" using hold files_hold_msig [OF inv(6)] by blast
  then have "file_fits fm order ?es" and fresh: "?p \<notin> Filepath ` set (mata ss)" using assms(7) by auto
  from MergeSSTable_outcomes [OF assms(1,2) h inv(5) this(1), of "SSTablePath cfg" now io "l + 1"] m assms(7)
  obtain m where r: "others_kept ?p ss ss'" "r = Some m" and
    c: "m = (new_meta (l + 1) ?p (length (image_of fm order ?es)) ?es)\<lparr>ptr := next_ptr ss\<rparr>" "table_at ss' ?p ?es"
       "mata ss' = mata ss @ [m]" "next_ptr ss' = next_ptr ss + 1"
    by auto
  have "store_ok ss' (tss @ [?es])" by (rule store_append [OF assms(3) r(1) fresh c(3)[unfolded c(1)] c(4,2)])
  moreover have V: "map_of ?es = tables_view vs" using map_of_merge_entries [of vs] vok by (simp add: entries_ok_def)
  then have "tables_view (tss @ [?es]) = tables_view tss"
    by (simp add: uv(1) tables_view_append tables_view_Cons) (simp add: map_add_absorb del: map_add_assoc)
  moreover have "comp_ok cfg (sigs ss') (tss @ [?es]) (Dropping l files)"
  proof -
    have lm: "Level m = l + 1" by (simp add: c(1) new_meta_def)
    have x: "sigs ss' = map msig ?hs @ map msig files @ [msig m]"
      unfolding c(3) inv(6) by (subst sp) simp
    have ge: "\<forall>x \<in> set ?hs. l + 1 \<le> Level x" using inv(4) by fastforce
    have "sorted_wrt (\<ge>) (map Level ?hs)" using inv(2) sp by (metis map_append sorted_wrt_append)
    then have s: "sorted_wrt (\<ge>) (slevels (map msig ?hs @ [msig m]))"
      using ge lm by (auto simp: sorted_wrt_append)
    have "count_list (map Level ?hs) i < MaxCompactionSize cfg" if "1 \<le> i" "i < 10" for i
    proof (cases "i = l")
      case True
      then have "i \<notin> set (map Level ?hs)" by auto
      then show ?thesis using assms(5) count_notin [of i "map Level ?hs"] by simp
    next
      case False
      then show ?thesis
        using inv(3) that count_list_le_filter [of Level "\<lambda>m. Level m \<noteq> l" "mata ss" i] by (fastforce simp: below_def)
    qed
    then have b: "below cfg (\<lambda>i. i \<noteq> l + 1) (slevels (map msig ?hs @ [msig m]))"
      using lm by (simp add: below_def)
    have g: "\<forall>y \<in> set (slevels (map msig ?hs @ [msig m])). l + 1 \<le> y" using ge lm by auto
    have n: "length (map msig ?hs) = length us" "length files = length vs"
      using uv(2,3) arg_cong [OF inv(6), of length] by simp_all
    show ?thesis
      unfolding comp_ok.simps
      by (intro conjI exI [of _ "map msig ?hs"] exI [of _ "msig m"] exI [of _ us] exI [of _ vs] exI [of _ ?es])
        (use inv(1) x s b g n V uv(1) in simp_all)
  qed
  ultimately show ?thesis using r(2) by blast
qed


lemma drop_file_ok:
  assumes "store_ok ss tss" and "comp_ok cfg (sigs ss) tss (Dropping l (f # files))"
  shows "\<exists>tss'. store_ok (drop_files rms [f] ss) tss' \<and> tables_view tss' = tables_view tss \<and>
           comp_ok cfg (sigs (drop_files rms [f] ss)) tss' (Dropping l files)"
proof -
  obtain hs m us ws es where h: "sigs ss = hs @ map msig (f # files) @ [m]" "tss = us @ ws @ [es]"
      "length hs = length us" "length (f # files) = length ws" "dom (tables_view ws) \<subseteq> dom (map_of es)"
    and inv: "l < 10" "sorted_wrt (\<ge>) (slevels (hs @ [m]))" "below cfg (\<lambda>i. i \<noteq> l + 1) (slevels (hs @ [m]))"
      "\<forall>y \<in> set (slevels (hs @ [m])). l + 1 \<le> y"
    using assms(2) unfolding comp_ok.simps by blast
  obtain v vs where ws: "ws = v # vs" "length files = length vs" using h(4) by (cases ws) simp_all
  note x = h(1) [unfolded list.map append_Cons] h(2,3) [unfolded ws(1)] ws(2) h(5) [unfolded ws(1)]
  obtain hs' g gs where g: "mata ss = hs' @ [g] @ gs" "map msig hs' = hs" "msig g = msig f" "map msig gs = map msig files @ [m]"
  proof -
    obtain hs' rest where r: "mata ss = hs' @ rest" "map msig hs' = hs" "map msig rest = msig f # map msig files @ [m]"
      using x(1) by (auto simp: map_eq_append_conv)
    then show thesis using that by (cases rest) auto
  qed
  have d: "store_ok (drop_files rms [f] ss) (us @ vs @ [es])" "mata (drop_files rms [f] ss) = hs' @ gs"
    using drop_files_store [of ss us "[v]" "vs @ [es]" hs' "[g]" gs rms] assms(1) g(1,2) x(2,3)
      drop_files_msig [OF g(3), of rms ss] by auto
  note c = tables_view_covered [OF x(5)]
  have "comp_ok cfg (sigs (drop_files rms [f] ss)) (us @ vs @ [es]) (Dropping l files)"
    unfolding comp_ok.simps d(2)
    by (intro conjI exI [of _ hs] exI [of _ m] exI [of _ us] exI [of _ vs] exI [of _ es])
      (use inv x(3,4) g(2,4) c(2) in simp_all)
  then show ?thesis using d(1) c(1) x(2) by metis
qed

lemma lstep_ok:
  assumes "float_ok fm" and "order_ok order" and "1 \<le> MaxCompactionSize cfg" and "store_ok ss tss"
    and "comp_ok cfg (sigs ss) tss c" and "lstep fm order cfg rms now io (c, ss) (c', ss')"
    and "merge_ready fm order cfg now io c ss"
  shows "\<exists>tss'. store_ok ss' tss' \<and> tables_view tss' = tables_view tss \<and> comp_ok cfg (sigs ss') tss' c'"
  using assms(6)
proof cases
  case (skip_level l)
  have "below cfg (\<lambda>i. i \<noteq> l + 1) (levels ss) \<and> below cfg (\<lambda>i. i = l + 1) (levels ss)"
    using assms(5) skip_level by (auto simp: below_def level_count_sigs)
  then show ?thesis using assms(4,5) skip_level by (intro exI [of _ tss]) simp
next
  case (take_files l)
  have "\<forall>y \<in> set (levels ss). l \<le> y"
    using assms(5) take_files by (cases "l = 0") (auto simp: below_def level_count_sigs)
  then show ?thesis using assms(3-5) take_files by (intro exI [of _ tss]) (auto simp: msig_GetLevelFiles)
next
  case (merge_failed files l)
  then show ?thesis using merge_files_ok [OF assms(1,2,4) _ assms(3)] assms(5,7) by blast
next
  case (merge_files files l m)
  then show ?thesis using merge_files_ok [OF assms(1,2,4) _ assms(3)] assms(5,7) by blast
next
  case (drop_file l f files)
  then show ?thesis using drop_file_ok [OF assms(4), of cfg l f files rms] assms(5) by (simp add: drop_files_def)
next
  case (dropped l)
  then obtain hs m where "sigs ss = hs @ [m]" and inv: "l < 10" "sorted_wrt (\<ge>) (slevels (hs @ [m]))"
      "below cfg (\<lambda>i. i \<noteq> l + 1) (slevels (hs @ [m]))" "\<forall>y \<in> set (slevels (hs @ [m])). l + 1 \<le> y"
    using assms(5) by auto
  then have "slevels (sigs ss) = slevels (hs @ [m])" by metis
  with inv show ?thesis using dropped assms(4) by (intro exI [of _ tss]) simp
next
  case pass_done
  then show ?thesis using assms(4,5) by (intro exI [of _ tss]) (auto simp: below_def)
qed

section \<open>Runs\<close>

lemma comp_ok_grown:
  assumes "grown ss tss ss' tss'" and "comp_ok cfg (sigs ss) tss c" and "c = CIdle \<or> sigs ss' = sigs ss"
  shows "comp_ok cfg (sigs ss') tss' c"
proof (cases "sigs ss' = sigs ss")
  case True
  then have "tss' = tss" using assms(1) by (auto simp: grown_def)
  with True assms(2) show ?thesis by simp
next
  case False
  then obtain i p where "sigs ss' = sigs ss @ [(i, p, 0)]" using assms(1) by (auto simp: grown_def)
  then show ?thesis using False assms(2,3) by (auto simp: sorted_wrt_append below_def)
qed

lemma raw_view_mem: "raw_view m tss = tables_view tss ++ mem_view m"
  by (simp add: raw_view_def mem_view_def)

lemma map_of_rev_written: "map_of (rev es) = written es"
proof (induction es rule: rev_induct)
  case (snoc e es)
  then show ?case by (cases e) (simp add: written_snoc)
qed (simp add: written_def)

lemma replay_ok:
  assumes "float_ok fm" and "order_ok order" and "sys_ok cfg M s tss" and "\<forall>d. worker s \<noteq> Clearing d" and "ents \<noteq> []"
    and "\<forall>e \<in> set ents. entry_fits e" and "file_fits fm order (merge_entries (map (\<lambda>e. [e]) ents))"
    and "sstable_path (SSTablePath cfg) now \<notin> Filepath ` set (mata (sst (mem s)))"
    and "FlushToSSTable fm order cfg coins now io ents (mem s) = Some (r, m')"
  shows "\<exists>tss'. sys_ok cfg M (s\<lparr>mem := m'\<rparr>) tss' \<and> grown (sst (mem s)) tss (sst m') tss' \<and>
     raw_view m' tss' = (case r of Inl _ \<Rightarrow> raw_view (mem s) tss | Inr _ \<Rightarrow> raw_view (mem s) tss ++ written ents ++ mem_view (mem s))"
proof -
  note ok = sys_okD [OF assms(3)]
  let ?es = "merge_entries (map (\<lambda>e. [e]) ents)"
  have f: "if io_all io then r = Inr () \<and> mem_ok cfg m' (tss @ [?es]) else (\<exists>e. r = Inl (WriteErr e)) \<and> mem_ok cfg m' tss"
      "active m' = active (mem s)" "dirty m' = dirty (mem s)" "credits m' = credits (mem s)"
      "grown (sst (mem s)) tss (sst m') (if io_all io then tss @ [?es] else tss)"
    using FlushToSSTable_ok [OF assms(1,2) ok(1) assms(5-8), of coins io] assms(9) by (auto split: if_splits)
  have mv: "mem_view m' = mem_view (mem s)" and mb: "mem_bytes m' = mem_bytes (mem s)"
    using f(2,3) by (simp_all add: mem_view_def mem_bytes_def)
  have w: "worker_ok m' tss' (worker s)" for tss' using ok(4) f(3) assms(4) by (cases "worker s") auto
  have "concat (map (\<lambda>e. [e]) ents) = ents" by (induction ents) auto
  then have e: "map_of ?es = written ents" by (simp add: merge_entries_def map_of_fold_ins_sorted map_of_rev_written)
  have "tables_view tss ++ written ents ++ mem_view (mem s) = tables_view tss ++ mem_view (mem s) ++ written ents ++ mem_view (mem s)"
    by (auto simp: fun_eq_iff map_add_def split: option.splits)
  then show ?thesis
  proof (cases "io_all io")
    case True
    then show ?thesis using f ok w mv mb e
      by (intro exI [of _ "tss @ [?es]"]) (auto simp: sys_defs raw_view_mem map_add_def fun_eq_iff split: option.splits)
  next
    case False
    then have "mem_ok cfg m' tss" "\<exists>e. r = Inl (WriteErr e)" "grown (sst (mem s)) tss (sst m') tss"
      using f(1,5) by (simp_all only: if_False)
    then show ?thesis using f(2-4) ok w mv mb by (intro exI [of _ tss]) (auto simp: sys_defs raw_view_mem)
  qed
qed

lemma krun_ok:
  assumes "float_ok fm" and "order_ok order" and "1 \<le> MaxMemTableLevel cfg" and "1 \<le> MaxCompactionSize cfg"
    and "krun fm order cfg M fs V s"
  shows "\<exists>tss. sys_ok cfg M (base s) tss \<and> comp_ok cfg (sigs (tables s)) tss (compacting s) \<and> raw_view (mem (base s)) tss = V"
  using assms(5)
proof (induction rule: krun.induct)
  case k_init
  then show ?case using sys_init_ok(1) [OF assms(3), of M fs] sys_init_ok(2) [OF assms(3), of fs] assms(4)
    by (intro exI [of _ "[]"]) (auto simp: sys_init_def NewMemTable_def NewSSTable_def below_def)
next
  case (k_step V s l b)
  then obtain tss where t: "sys_ok cfg M (base s) tss" "comp_ok cfg (sigs (tables s)) tss (compacting s)" "raw_view (mem (base s)) tss = V"
    by blast
  obtain tss' where "sys_ok cfg M b tss'" "raw_view (mem b) tss' = step_view l V" "grown (tables s) tss (sst (mem b)) tss'"
    using mstep_ok [OF assms(1,2) t(1) k_step.hyps(2)] t(3) by (auto simp: steps_to_def)
  then show ?case using comp_ok_grown [OF _ t(2) k_step.hyps(3)] by auto
next
  case (k_replay V s ents now coins io r m')
  then obtain tss where t: "sys_ok cfg M (base s) tss" "comp_ok cfg (sigs (tables s)) tss (compacting s)" "raw_view (mem (base s)) tss = V"
    by blast
  obtain tss' where "sys_ok cfg M ((base s)\<lparr>mem := m'\<rparr>) tss'" "grown (tables s) tss (sst m') tss'"
      "raw_view m' tss' = (case r of Inl _ \<Rightarrow> V | Inr _ \<Rightarrow> V ++ written ents ++ mem_view (mem (base s)))"
    using replay_ok [OF assms(1,2) t(1) k_replay.hyps(3-8)] unfolding t(3) by blast
  then show ?case using comp_ok_grown [OF _ t(2)] k_replay.hyps(2) by (intro exI [of _ tss']) auto
next
  case (k_start V s)
  then obtain tss where t: "sys_ok cfg M (base s) tss" "comp_ok cfg (sigs (tables s)) tss CIdle" "raw_view (mem (base s)) tss = V"
    by auto
  then show ?case using mem_fields_ok [of "(mem (base s))\<lparr>compactCh := False\<rparr>" "mem (base s)"]
    by (intro exI [of _ tss]) (auto simp: sys_defs below_def)
next
  case (k_compact V s now io rms c ss)
  then obtain tss where t: "sys_ok cfg M (base s) tss" "comp_ok cfg (sigs (tables s)) tss (compacting s)" "raw_view (mem (base s)) tss = V"
    by blast
  note ok = sys_okD [OF t(1)]
  obtain tss' where "store_ok ss tss'" "tables_view tss' = tables_view tss" "comp_ok cfg (sigs ss) tss' c"
    using lstep_ok [OF assms(1,2,4) _ t(2) k_compact.hyps(3,2)] ok(1) by (auto simp: mem_ok_def)
  moreover have "worker_ok ((mem (base s))\<lparr>sst := ss\<rparr>) tss' (worker (base s))"
    using ok(4) calculation(2) by (cases "worker (base s)") auto
  ultimately show ?case using t ok
    by (intro exI [of _ tss']) (auto simp: set_tables_def sys_defs mem_ok_def mem_bytes_def raw_view_def)
qed

section \<open>The steps are those of the loop\<close>

abbreviation lsteps ::
    "FloatMath \<Rightarrow> (PartitionedBloom \<Rightarrow> bytes list) \<Rightarrow> MemConfig \<Rightarrow> (path \<Rightarrow> bool) \<Rightarrow> compactor \<times> SSTable \<Rightarrow> compactor \<times> SSTable \<Rightarrow> bool" where
  "lsteps fm order cfg rms \<equiv> (\<lambda>x y. \<exists>now io. lstep fm order cfg rms now io x y)\<^sup>*\<^sup>*"

lemma lsteps_drop: "lsteps fm order cfg rms (Dropping l files, ss) (AtLevel (l + 1), drop_files rms files ss)"
proof (induction files arbitrary: ss)
  case Nil
  show ?case using lstep.dropped [of fm order cfg rms _ _ l ss] by (auto simp: drop_files_def intro!: r_into_rtranclp)
next
  case (Cons f files)
  let ?ss = "RemoveMata f (DeleteSSTable (rms (Filepath f)) f ss)"
  have "lsteps fm order cfg rms (Dropping l (f # files), ss) (Dropping l files, ?ss)"
    using lstep.drop_file by (blast intro: r_into_rtranclp)
  then show ?case using Cons [of ?ss] by (simp add: drop_files_def)
qed

lemma lsteps_level:
  assumes "l < 10" and "MergeSSTable fm order (SSTablePath cfg) now io (GetLevelFiles l ss) (l + 1) ss = Some (r, ss1)"
    and "MaxCompactionSize cfg \<le> length (GetLevelFiles l ss)"
  shows "lsteps fm order cfg rms (AtLevel l, ss)
           (AtLevel (l + 1), case r of None \<Rightarrow> ss1 | Some _ \<Rightarrow> drop_files rms (GetLevelFiles l ss) ss1)"
proof -
  have t: "lsteps fm order cfg rms (AtLevel l, ss) (Merging l (GetLevelFiles l ss), ss)"
    using lstep.take_files [OF assms(1,3)] by (blast intro: r_into_rtranclp)
  show ?thesis
  proof (cases r)
    case None
    then show ?thesis using lstep.merge_failed assms(2) by (fastforce intro: rtranclp.rtrancl_into_rtrancl [OF t])
  next
    case (Some m)
    then have "lsteps fm order cfg rms (AtLevel l, ss) (Dropping l (GetLevelFiles l ss), ss1)"
      using lstep.merge_files assms(2) by (blast intro: rtranclp.rtrancl_into_rtrancl [OF t])
    then show ?thesis using lsteps_drop Some by (fastforce intro: rtranclp_trans)
  qed
qed

lemma compact_levels_lsteps:
  "compact_levels fm order cfg nows ios rms l n ss = Some ss' \<Longrightarrow> l + n = 10 \<Longrightarrow>
   lsteps fm order cfg rms (AtLevel l, ss) (AtLevel 10, ss')"
proof (induction n arbitrary: l ss)
  case (Suc n)
  show ?case
  proof (cases "length (GetLevelFiles l ss) < MaxCompactionSize cfg")
    case True
    then have "lsteps fm order cfg rms (AtLevel l, ss) (AtLevel (l + 1), ss)"
      using lstep.skip_level Suc.prems(2) by (fastforce intro: r_into_rtranclp)
    then show ?thesis using Suc True by (fastforce simp: Let_def intro: rtranclp_trans)
  next
    case False
    then obtain r ss1 where m: "MergeSSTable fm order (SSTablePath cfg) (nows l) (ios l) (GetLevelFiles l ss) (l + 1) ss = Some (r, ss1)"
      using Suc.prems(1) by (auto simp: Let_def split: option.splits)
    let ?ss = "case r of None \<Rightarrow> ss1 | Some _ \<Rightarrow> drop_files rms (GetLevelFiles l ss) ss1"
    have "compact_levels fm order cfg nows ios rms (l + 1) n ?ss = Some ss'"
      using Suc.prems(1) False m by (auto simp: Let_def split: option.splits)
    then have "lsteps fm order cfg rms (AtLevel (l + 1), ?ss) (AtLevel 10, ss')" using Suc.IH Suc.prems(2) by simp
    moreover have "lsteps fm order cfg rms (AtLevel l, ss) (AtLevel (l + 1), ?ss)"
      using lsteps_level [OF _ m] False Suc.prems(2) by simp
    ultimately show ?thesis by (rule rtranclp_trans [rotated])
  qed
qed simp

lemma CompactSSTable_lsteps:
  assumes "CompactSSTable fm order cfg nows ios rms 0 m = Some m'"
  shows "lsteps fm order cfg rms (AtLevel 0, sst m) (CIdle, sst m')"
proof -
  obtain ss where "compact_levels fm order cfg nows ios rms 0 10 (sst m) = Some ss" "m' = m\<lparr>sst := ss\<rparr>"
    using assms by (auto simp: CompactSSTable_def)
  then have "lsteps fm order cfg rms (AtLevel 0, sst m) (AtLevel 10, sst m')" using compact_levels_lsteps by simp
  then show ?thesis using lstep.pass_done by (blast intro: rtranclp.rtrancl_into_rtrancl)
qed

section \<open>When the table list changes under a pass or a read\<close>

text \<open>
  A merge whose files are no longer the newest ones: the merged table is appended behind the newer tables, and
  \<open>Get\<close>, which takes the last table first, answers from it.
\<close>

lemma merge_behind:
  assumes "float_ok fm" and "order_ok order" and "store_ok ss (us @ vs @ ws)" and "mata ss = hs @ fs @ gs"
    and "length hs = length us" and "length fs = length vs" and "fs \<noteq> []" and "merge_io io"
    and "merged_path dir now \<notin> Filepath ` set (mata ss)" and "file_fits fm order (merge_entries vs)"
  shows "\<exists>r ss1. MergeSSTable fm order dir now io fs lvl ss = Some (Some r, ss1) \<and>
           store_ok (drop_files rms fs ss1) (us @ ws @ [merge_entries vs])"
proof -
  let ?p = "merged_path dir now" and ?es = "merge_entries vs"
  have "list_all2 (meta_ok ss) fs vs" using assms(3-6) by (simp add: store_ok_def list_all2_append)
  then have hold: "files_hold ss fs vs" by (simp add: files_hold_def list_all2_conv_all_nth meta_ok_def)
  obtain ss1 where m: "MergeSSTable fm order dir now io fs lvl ss =
        Some (Some ((new_meta lvl ?p (length (image_of fm order ?es)) ?es)\<lparr>ptr := next_ptr ss\<rparr>), ss1)"
      "others_kept ?p ss ss1" "table_at ss1 ?p ?es"
      "mata ss1 = mata ss @ [(new_meta lvl ?p (length (image_of fm order ?es)) ?es)\<lparr>ptr := next_ptr ss\<rparr>]"
      "next_ptr ss1 = next_ptr ss + 1"
    using MergeSSTable_outcomes [OF assms(1,2) hold assms(7,10), of dir now io lvl] assms(8) by auto
  have "store_ok ss1 ((us @ vs @ ws) @ [?es])" by (rule store_append [OF assms(3) m(2) assms(9) m(4,5,3)])
  then have "store_ok (drop_files rms fs ss1) (us @ ws @ [?es])"
    using drop_files_store(1) [of ss1 us vs "ws @ [?es]" hs fs] m(4) assms(4-6) by simp
  with m(1) show ?thesis by blast
qed

text \<open>A table whose file and caches are gone.\<close>

definition gone :: "SSTable \<Rightarrow> path \<Rightarrow> bool" where
  "gone ss p \<longleftrightarrow> sst_fs ss p = None \<and> indexCache ss p = None \<and> (case bloomCache ss p of None \<Rightarrow> True | Some b \<Rightarrow> b = None)"

lemma read_gone:
  assumes "gone ss p"
  shows "\<exists>ss'. ReadFromSSTable p key ss = Some ((None, False), ss') \<and> (\<forall>q. gone ss q \<longrightarrow> gone ss' q)"
proof -
  have l: "loadBloomFromFile (sst_fs ss) p = None" "loadBlockIndexFromFile (sst_fs ss) p = None" "readFromSSTableFull (sst_fs ss) p key = (None, False)"
    using assms by (simp_all add: gone_def loadBloomFromFile_def loadBlockIndexFromFile_def readFromSSTableFull_def ReadAllFromSSTable_def)
  show ?thesis
    using assms l by (auto simp: gone_def ReadFromSSTable_def getBloom_def getBlockIndex_def Let_def split: option.splits)
qed

lemma get_loop_gone: "\<forall>m \<in> set ms. gone ss (Filepath m) \<Longrightarrow> \<exists>ss'. get_loop ms key ss = Some ((None, False), ss')"
proof (induction ms arbitrary: ss)
  case (Cons m ms)
  let ?meta = "EnsureMeta (sst_fs ss) m"
  let ?ss = "ss\<lparr>mata := map (\<lambda>x. if ptr x = ptr m then ?meta else x) (mata ss)\<rparr>"
  have f: "Filepath ?meta = Filepath m" using Cons.prems by (simp add: EnsureMeta_def gone_def)
  have g: "gone ?ss q = gone ss q" for q by (simp add: gone_def)
  obtain ss2 where "ReadFromSSTable (Filepath m) key ?ss = Some ((None, False), ss2)" "\<forall>q. gone ?ss q \<longrightarrow> gone ss2 q"
    using read_gone [of ?ss "Filepath m" key] g Cons.prems by auto
  then show ?case using Cons.IH [of ?ss] Cons.IH [of ss2] Cons.prems g by (simp add: Let_def f)
qed simp

lemma drop_files_gone:
  "f \<in> set fs \<or> gone ss (Filepath f) \<Longrightarrow> gone (drop_files (\<lambda>_. True) fs ss) (Filepath f)"
proof (induction fs arbitrary: ss)
  case (Cons g fs)
  have "gone (RemoveMata g (DeleteSSTable True g ss)) (Filepath f)" if "f = g \<or> gone ss (Filepath f)"
    using that by (auto simp: gone_def RemoveMata_def DeleteSSTable_def)
  then show ?case using Cons by (auto simp: drop_files_def)
qed (simp add: drop_files_def)

text \<open>
  A read that took the list of tables before a pass merged all of them and removed the files finds nothing, although
  every key is in the merged table.
\<close>

theorem read_overtaken:
  assumes "float_ok fm" and "order_ok order" and "store_ok ss tss" and "tss \<noteq> []" and "merge_io io"
    and "merged_path dir now \<notin> Filepath ` set (mata ss)" and "file_fits fm order (merge_entries tss)"
  shows "\<exists>r ss1 ss2 ss3. MergeSSTable fm order dir now io (mata ss) lvl ss = Some (Some r, ss1) \<and>
           ss2 = drop_files (\<lambda>_. True) (mata ss) ss1 \<and> getFromSSTables key ss2 = Some (table_result tss key, ss3) \<and>
           (\<exists>ss4. get_loop (rev (GetAllMata ss)) key ss2 = Some ((None, False), ss4))"
proof -
  have ne: "mata ss \<noteq> []" and n: "length (mata ss) = length tss"
    using assms(3,4) by (auto simp: store_ok_def dest: list_all2_lengthD)
  have ok: "\<forall>es \<in> set tss. entries_ok es" using store_ok_entries [OF assms(3)] by blast
  obtain r ss1 where m: "MergeSSTable fm order dir now io (mata ss) lvl ss = Some (Some r, ss1)"
      "store_ok (drop_files (\<lambda>_. True) (mata ss) ss1) [merge_entries tss]"
    using merge_behind [OF assms(1,2), of ss "[]" tss "[]" "[]" "mata ss" "[]" io dir now lvl "\<lambda>_. True"] assms ne n by auto
  let ?ss2 = "drop_files (\<lambda>_. True) (mata ss) ss1"
  have "table_result [merge_entries tss] key = table_result tss key"
    using map_of_merge_entries [of tss] ok by (simp add: table_result_def entries_ok_def tables_view_Cons)
  moreover obtain ss3 where "getFromSSTables key ?ss2 = Some (table_result [merge_entries tss] key, ss3)"
    using getFromSSTables_ok [OF m(2)] by blast
  moreover have "\<exists>ss4. get_loop (rev (GetAllMata ss)) key ?ss2 = Some ((None, False), ss4)"
    by (rule get_loop_gone) (simp add: GetAllMata_def drop_files_gone)
  ultimately show ?thesis using m(1) by auto
qed

section \<open>Flushes do not ask for compaction\<close>

lemma mstep_compactCh:
  assumes "mstep fm order cfg M l s s'"
  shows "compactCh (mem s') = compactCh (mem s)"
  using assms
proof cases
  case (read k r m')
  then show ?thesis by (auto simp: mt_Get_def split: option.splits bool.splits prod.splits)
qed (auto simp: acquireCredit_def StartFlush_def write_locked_def release_credit_def flush_swap_def flush_write_def flush_clear_def Let_def
    split: option.splits if_splits sum.splits prod.splits)

theorem flushes_never_compact: "run fm order cfg M fs ws s \<Longrightarrow> \<not> compactCh (mem s)"
  by (induction rule: run.induct) (simp_all add: sys_init_def NewMemTable_def mstep_compactCh)

end
