(* ===== verification/CompactClaims.thy ===== *)
theory CompactClaims
  imports StorageClaims Compactor
begin

text \<open>
  The properties of the store with its compaction goroutine, each with a concrete instance where it has hypotheses.
\<close>

section \<open>Reads beside a running compaction\<close>


lemma replay_fits:
  assumes "length k < 100" and "vlen v < 100"
  shows "\<forall>e \<in> set [(k, v)]. entry_fits e" and "file_fits fm0 order0 (merge_entries (map (\<lambda>e. [e]) [(k, v)]))"
proof -
  show "\<forall>e \<in> set [(k, v)]. entry_fits e" using fits_small [OF assms] by simp
  have m: "merge_entries (map (\<lambda>e. [e]) [(k, v)]) = [(k, v)]" by (simp add: merge_entries_def)
  show "file_fits fm0 order0 (merge_entries (map (\<lambda>e. [e]) [(k, v)]))"
    unfolding m by (rule file_fits_small) (use assms entries_ok_1 [OF assms] in \<open>auto simp: small_def\<close>)
qed

text \<open>A snapshot is replayed into an empty store; its table reaches the threshold of one and a pass begins to merge it.\<close>

definition cfg1 :: MemConfig where
  "cfg1 = cfg0\<lparr>MaxCompactionSize := 1\<rparr>"

lemma demo_krun:
  "\<exists>s. krun fm0 order0 cfg1 100 Map.empty [ka \<mapsto> Some [1]] s \<and> compacting s = Merging 0 (mata (tables s)) \<and> length (mata (tables s)) = 1"
proof -
  let ?i = "\<lparr>base = sys_init cfg1 Map.empty, compacting = CIdle\<rparr>" and ?e = "[(ka, Some [1 :: byte])]"
  have c: "1 \<le> MaxMemTableLevel cfg1" "SSTablePath cfg1 = ascii ''d''" "MaxMemTableLevel cfg1 = 4" by (simp_all add: cfg1_def cfg0_def)
  note k0 = k_init [of fm0 order0 cfg1 100 Map.empty]
  have i: "mem_ok cfg1 (mem (base ?i)) []" "compacting ?i = CIdle" "\<forall>d. worker (base ?i) \<noteq> Clearing d" "mata (tables ?i) = []"
      "mem_view (mem (base ?i)) = Map.empty"
    using sys_init_ok(1) [OF c(1), of 100 Map.empty] contents_newSkipList [of 4]
    by (simp_all add: sys_ok_def sys_init_def NewMemTable_def NewSSTable_def mem_view_def sl_map_def c(3))
  have e: "?e \<noteq> []" "\<forall>e \<in> set ?e. entry_fits e" "file_fits fm0 order0 (merge_entries (map (\<lambda>e. [e]) ?e))"
    using replay_fits [of ka "Some [1]"] by (simp_all add: vlen_def)
  have p: "sstable_path (SSTablePath cfg1) 5 \<notin> Filepath ` set (mata (tables ?i))" using i(4) by simp
  obtain m where m: "FlushToSSTable fm0 order0 cfg1 (\<lambda>_ _. False) 5 io_good ?e (mem (base ?i)) = Some (Inr (), m)" "compactCh m"
      "grown (tables ?i) [] (sst m) [merge_entries (map (\<lambda>e. [e]) ?e)]"
    using FlushToSSTable_ok [OF float_ok_fm0 order_ok_order0 i(1) e p, of "\<lambda>_ _. False" io_good] by (auto simp: io_good_def)
  let ?s = "?i\<lparr>base := (base ?i)\<lparr>mem := m\<rparr>\<rparr>"
  have "Map.empty ++ written ?e ++ mem_view (mem (base ?i)) = [ka \<mapsto> Some [1]]" unfolding i(5) by (simp add: written_def)
  then have k1: "krun fm0 order0 cfg1 100 Map.empty [ka \<mapsto> Some [1]] ?s"
    using k_replay [OF k0 i(2,3) e p m(1)] by simp
  let ?s2 = "?s\<lparr>base := (base ?s)\<lparr>mem := (mem (base ?s))\<lparr>compactCh := False\<rparr>\<rparr>, compacting := AtLevel 0\<rparr>"
  have k2: "krun fm0 order0 cfg1 100 Map.empty [ka \<mapsto> Some [1]] ?s2" using k_start [OF k1] m(2) by simp
  obtain x where x: "mata (sst m) = [x]" "Level x = 0" using m(3) i(4) by (auto simp: grown_def msig_def map_eq_Cons_conv)
  have l: "GetLevelFiles 0 (sst m) = mata (sst m)" using x by (simp add: GetLevelFiles_def)
  have "lstep fm0 order0 cfg1 (\<lambda>_. True) 6 io_good (AtLevel 0, sst m) (Merging 0 (mata (sst m)), sst m)"
    using lstep.take_files [of 0 cfg1 "sst m" fm0 order0 "\<lambda>_. True" 6 io_good] l x by (simp add: cfg1_def)
  then have "krun fm0 order0 cfg1 100 Map.empty [ka \<mapsto> Some [1]] ((set_tables (sst m) ?s2)\<lparr>compacting := Merging 0 (mata (sst m))\<rparr>)"
    using k_compact [OF k2, of 6 io_good "\<lambda>_. True" "Merging 0 (mata (sst m))" "sst m"] by simp
  then show ?thesis using x by (intro exI conjI) (auto simp: set_tables_def)
qed


section \<open>A table published during a merge\<close>

text \<open>
  C34. The merge of a level appends the merged table at the end of the list. When newer tables have been published
  since its files were taken, a key that is in both reads as the old value afterwards.
\<close>

theorem merge_shadows_newer:
  assumes "float_ok fm" and "order_ok order" and "mem_ok cfg m (us @ vs @ ws)" and "mata (sst m) = hs @ fs @ gs"
    and "length hs = length us" and "length fs = length vs" and "fs \<noteq> []" and "merge_io io"
    and "merged_path dir now \<notin> Filepath ` set (mata (sst m))" and "file_fits fm order (merge_entries vs)"
    and "mem_view m key = None" and "tables_view vs key = Some old" and "tables_view ws key = Some new"
  shows "(\<exists>m1. mt_Get key m = Some (found_value new, m1)) \<and>
    (\<exists>r ss m2. MergeSSTable fm order dir now io fs lvl (sst m) = Some (Some r, ss) \<and>
       mt_Get key (m\<lparr>sst := drop_files rms fs ss\<rparr>) = Some (found_value old, m2))"
proof -
  have st: "store_ok (sst m) (us @ vs @ ws)" using assms(3) by (simp add: mem_ok_def)
  have get: "\<exists>m1. mt_Get key m0 = Some (found_value v, m1)" if "mem_ok cfg m0 tss" "mem_view m0 key = None" "tables_view tss key = Some v" for m0 tss v
    using mt_Get_ok [OF that(1), of key] that(2,3) by (auto simp: visible_def raw_view_mem map_add_def found_value_def)
  have before: "\<exists>m1. mt_Get key m = Some (found_value new, m1)"
    using get [OF assms(3,11)] assms(13) by (simp add: tables_view_append map_add_def)
  obtain r ss where r: "MergeSSTable fm order dir now io fs lvl (sst m) = Some (Some r, ss)"
      "store_ok (drop_files rms fs ss) (us @ ws @ [merge_entries vs])"
    using merge_behind [OF assms(1,2) st assms(4-10)] by blast
  have "map_of (merge_entries vs) = tables_view vs"
    using map_of_merge_entries [of vs] store_ok_entries [OF st] by (simp add: entries_ok_def)
  then have "tables_view (us @ ws @ [merge_entries vs]) key = Some old"
    using assms(12) by (simp add: tables_view_append tables_view_Cons map_add_def)
  moreover have "mem_ok cfg (m\<lparr>sst := drop_files rms fs ss\<rparr>) (us @ ws @ [merge_entries vs])"
    using assms(3) r(2) by (simp add: mem_ok_def)
  moreover have "mem_view (m\<lparr>sst := drop_files rms fs ss\<rparr>) key = None" using assms(11) by (simp add: mem_view_def)
  ultimately show ?thesis using get r(1) before by blast
qed

theorem merge_shadows_newer_witness:
  "\<exists>m f ss r m1 m2. mt_Get ka m = Some (Inr [2], m1) \<and>
     MergeSSTable fm0 order0 (ascii ''d'') 7 io_good [f] 1 (sst m) = Some (Some r, ss) \<and>
     mt_Get ka (m\<lparr>sst := drop_files (\<lambda>_. True) [f] ss\<rparr>) = Some (Inr [1], m2)"
proof -
  obtain ss where ss: "store_ok ss [[(ka, Some [1])], [(ka, Some [2])]]"
      "map Filepath (mata ss) = [sstable_path (ascii ''d'') 5, sstable_path (ascii ''d'') 6]"
    using demo_store by (elim exE conjE)
  then obtain f g where fg: "mata ss = [f, g]" by (auto simp: map_eq_Cons_conv)
  let ?m = "(NewMemTable cfg0 Map.empty)\<lparr>sst := ss\<rparr>"
  have m: "mem_ok cfg0 ?m ([] @ [[(ka, Some [1])]] @ [[(ka, Some [2])]])" using mem_ok_new [of Map.empty] ss(1) by (simp add: mem_ok_def)
  have v: "mem_view ?m ka = None" using contents_newSkipList [of 4] by (simp add: mem_view_def NewMemTable_def sl_map_def cfg0_def)
  have p: "merged_path (ascii ''d'') 7 \<notin> Filepath ` set (mata (sst ?m))"
    using merged_not_flushed [of 7] arg_cong [OF ss(2), of set] by simp
  have "merge_entries [[(ka, Some [1 :: byte])]] = [(ka, Some [1])]" by (simp add: merge_entries_def)
  then have ff: "file_fits fm0 order0 (merge_entries [[(ka, Some [1])]])"
    using small_subset [OF entries_ok_1 [of ka "Some [1]"]] by (simp add: vlen_def)
  from merge_shadows_newer [OF float_ok_fm0 order_ok_order0 m, of "[]" "[f]" "[g]" io_good "ascii ''d''" 7 ka "Some [1]" "Some [2]" 1 "\<lambda>_. True"]
  have "(\<exists>m1. mt_Get ka ?m = Some (Inr [2], m1)) \<and>
      (\<exists>r ss' m2. MergeSSTable fm0 order0 (ascii ''d'') 7 io_good [f] 1 (sst ?m) = Some (Some r, ss') \<and>
         mt_Get ka (?m\<lparr>sst := drop_files (\<lambda>_. True) [f] ss'\<rparr>) = Some (Inr [1], m2))"
    using fg p ff v by (simp add: io_good_def tables_view_Cons found_value_def)
  then show ?thesis by blast
qed

end
