(* ===== verification/WAL.thy ===== *)
theory WAL
  imports Prelude
begin

text \<open>
  \<open>storage/wal.go\<close>, the write-ahead log of the standalone mode: records
  \<open>[op][klen][vlen][key][value]\<close> appended to one file and replayed from its start. A write can stop after any
  number of bytes (a crash or a full disk); \<open>wal_io\<close> says how far it got. Reading stops at the first record that
  is not complete.
\<close>

definition WALOpPut :: byte where "WALOpPut = 1"
definition WALOpDelete :: byte where "WALOpDelete = 2"

record WAL =
  wal_file :: "bytes option"

datatype wal_io = WalOk | WalWriteFails nat | WalSyncFails

datatype wal_error = WalWriteErr | WalSyncErr

text \<open>\<open>NewWAL\<close>: \<open>O_CREATE\<close> makes the file when it is missing and keeps what it holds.\<close>

definition NewWAL :: "bytes option \<Rightarrow> WAL" where
  "NewWAL f = \<lparr>wal_file = Some (case f of None \<Rightarrow> [] | Some bs \<Rightarrow> bs)\<rparr>"

definition nil_bytes :: "bytes option \<Rightarrow> bytes" where
  "nil_bytes v = (case v of None \<Rightarrow> [] | Some bs \<Rightarrow> bs)"

definition enc_record :: "byte \<Rightarrow> bytes \<Rightarrow> bytes option \<Rightarrow> bytes" where
  "enc_record op key value =
     op # put_be 4 (length key) @ put_be 4 (length (nil_bytes value)) @ key @ nil_bytes value"

definition wal_Append :: "wal_io \<Rightarrow> byte \<Rightarrow> bytes \<Rightarrow> bytes option \<Rightarrow> WAL \<Rightarrow> (wal_error + unit) \<times> WAL" where
  "wal_Append io op key value w =
     (let old = nil_bytes (wal_file w); buf = enc_record op key value
      in case io of
           WalOk \<Rightarrow> (Inr (), w\<lparr>wal_file := Some (old @ buf)\<rparr>)
         | WalWriteFails n \<Rightarrow> (Inl WalWriteErr, w\<lparr>wal_file := Some (old @ take n buf)\<rparr>)
         | WalSyncFails \<Rightarrow> (Inl WalSyncErr, w\<lparr>wal_file := Some (old @ buf)\<rparr>))"

text \<open>
  \<open>Replay\<close> over the state of its callback. \<open>fn\<close> yields \<open>None\<close> when it panics, and an error stops the replay. An
  empty value is handed over as \<open>nil\<close>.
\<close>

type_synonym ('e, 's) replay_fn = "byte \<Rightarrow> bytes \<Rightarrow> bytes option \<Rightarrow> 's \<Rightarrow> (('e + unit) \<times> 's) option"

definition read_value :: "bytes \<Rightarrow> nat \<Rightarrow> nat \<Rightarrow> io_error + bytes option \<times> nat" where
  "read_value f pos n =
     (if 0 < n then (case ReadFull f pos n of Inl e \<Rightarrow> Inl e | Inr (v, p) \<Rightarrow> Inr (Some v, p))
      else Inr (None, pos))"

lemma read_value_progress: "read_value f pos n = Inr (v, p) \<Longrightarrow> pos \<le> p"
  by (auto simp: read_value_def dest: ReadFull_Inr split: if_splits sum.splits)

lemma replay_progress:
  assumes "ReadFull f pos 9 = Inr (hdr, p1)" and "ReadFull f p1 n = Inr (key, p2)" and "read_value f p2 l = Inr (v, p3)"
  shows "length f - p3 < length f - pos"
  using ReadFull_progress [OF assms(1)] ReadFull_Inr [OF assms(2)] read_value_progress [OF assms(3)] by (simp, arith)

function replay_loop :: "('e, 's) replay_fn \<Rightarrow> bytes \<Rightarrow> nat \<Rightarrow> 's \<Rightarrow> (('e + unit) \<times> 's) option" where
  "replay_loop fn f pos s =
     (case ReadFull f pos 9 of
        Inl _ \<Rightarrow> Some (Inr (), s)
      | Inr (hdr, p1) \<Rightarrow>
         (let klen = get_be (take 4 (drop 1 hdr)); vlen = get_be (drop 5 hdr)
          in case ReadFull f p1 klen of
               Inl _ \<Rightarrow> Some (Inr (), s)
             | Inr (key, p2) \<Rightarrow>
                (case read_value f p2 vlen of
                   Inl _ \<Rightarrow> Some (Inr (), s)
                 | Inr (value, p3) \<Rightarrow>
                    (case fn (hdr ! 0) key value s of
                       None \<Rightarrow> None
                     | Some (Inl e, s') \<Rightarrow> Some (Inl e, s')
                     | Some (Inr _, s') \<Rightarrow> replay_loop fn f p3 s'))))"
  by pat_completeness auto
termination
  by (relation "measure (\<lambda>(fn, f, pos, s). length f - pos)") (auto intro: replay_progress)

declare replay_loop.simps [simp del]

definition Replay :: "('e, 's) replay_fn \<Rightarrow> WAL \<Rightarrow> 's \<Rightarrow> (('e + unit) \<times> 's) option" where
  "Replay fn w s = (case wal_file w of None \<Rightarrow> Some (Inr (), s) | Some f \<Rightarrow> replay_loop fn f 0 s)"

section \<open>What a log replays to\<close>

type_synonym wal_record = "byte \<times> bytes \<times> bytes option"

definition enc_rec :: "wal_record \<Rightarrow> bytes" where
  "enc_rec r = (case r of (op, k, v) \<Rightarrow> enc_record op k v)"

lemma enc_rec_simps [simp]: "enc_rec (op, k, v) = enc_record op k v"
  by (simp add: enc_rec_def)

definition rec_fits :: "wal_record \<Rightarrow> bool" where
  "rec_fits r \<longleftrightarrow> (case r of (op, k, v) \<Rightarrow> length k < 2 ^ 32 \<and> length (nil_bytes v) < 2 ^ 32)"

text \<open>An empty value comes back as \<open>nil\<close>.\<close>

definition as_read :: "bytes option \<Rightarrow> bytes option" where
  "as_read v = (if nil_bytes v = [] then None else v)"

fun replay_ops :: "('e, 's) replay_fn \<Rightarrow> wal_record list \<Rightarrow> 's \<Rightarrow> (('e + unit) \<times> 's) option" where
  "replay_ops fn [] s = Some (Inr (), s)"
| "replay_ops fn ((op, k, v) # rs) s =
     (case fn op k (as_read v) s of
        None \<Rightarrow> None
      | Some (Inl e, s') \<Rightarrow> Some (Inl e, s')
      | Some (Inr _, s') \<Rightarrow> replay_ops fn rs s')"

lemma length_enc_record: "length (enc_record op k v) = 9 + length k + length (nil_bytes v)"
  by (simp add: enc_record_def)

lemma read_value_seg:
  assumes "seg f pos (nil_bytes v)"
  shows "read_value f pos (length (nil_bytes v)) = Inr (as_read v, pos + length (nil_bytes v))"
proof (cases "nil_bytes v = []")
  case False
  then have "as_read v = Some (nil_bytes v)" by (cases v) (simp_all add: as_read_def nil_bytes_def)
  then show ?thesis using ReadFull_seg [OF assms refl] False by (simp add: read_value_def)
qed (simp add: read_value_def as_read_def)

text \<open>The header fields of a record, read from its first nine bytes.\<close>

lemma header_fields:
  assumes "rec_fits (op, k, v)"
  defines "hdr \<equiv> op # put_be 4 (length k) @ put_be 4 (length (nil_bytes v))"
  shows "hdr ! 0 = op" and "get_be (take 4 (drop 1 hdr)) = length k" and "get_be (drop 5 hdr) = length (nil_bytes v)"
    and "length hdr = 9"
  using assms(1) by (simp_all add: hdr_def rec_fits_def get_put_be)

lemma replay_record:
  assumes "seg f pos (enc_record op k v)" and "rec_fits (op, k, v)"
  shows "replay_loop fn f pos s =
    (case fn op k (as_read v) s of
       None \<Rightarrow> None
     | Some (Inl e, s') \<Rightarrow> Some (Inl e, s')
     | Some (Inr _, s') \<Rightarrow> replay_loop fn f (pos + length (enc_record op k v)) s')"
proof -
  let ?hdr = "op # put_be 4 (length k) @ put_be 4 (length (nil_bytes v))"
  note h = header_fields [OF assms(2)]
  have "seg f pos (?hdr @ k @ nil_bytes v)" using assms(1) by (simp add: enc_record_def)
  then have s: "seg f pos ?hdr" "seg f (pos + 9) k" "seg f (pos + 9 + length k) (nil_bytes v)"
    unfolding seg_append by (simp_all add: add.assoc)
  have "ReadFull f pos 9 = Inr (?hdr, pos + 9)" using ReadFull_seg [OF s(1), of 9] by simp
  moreover have "ReadFull f (pos + 9) (length k) = Inr (k, pos + 9 + length k)" by (rule ReadFull_seg [OF s(2) refl])
  moreover note read_value_seg [OF s(3)]
  ultimately show ?thesis
    by (subst replay_loop.simps) (simp only: sum.case prod.case Let_def h length_enc_record add.assoc)
qed

text \<open>A record that is cut short ends the replay.\<close>

lemma replay_torn:
  assumes "drop pos f = take n (enc_record op k v)" and "n < length (enc_record op k v)" and "rec_fits (op, k, v)"
  shows "replay_loop fn f pos s = Some (Inr (), s)"
proof -
  let ?hdr = "op # put_be 4 (length k) @ put_be 4 (length (nil_bytes v))"
  note h = header_fields [OF assms(3)]
  have len: "length f - pos = n" using arg_cong [OF assms(1), of length] assms(2) by simp
  show ?thesis
  proof (cases "n < 9")
    case True
    then show ?thesis using len by (subst replay_loop.simps) (auto simp: ReadFull_def)
  next
    case False
    then have l: "length f = pos + n" using len by simp
    have "take 9 (drop pos f) = take 9 (enc_record op k v)" using False assms(1) by (simp add: min_def)
    also have "\<dots> = ?hdr" by (simp add: enc_record_def)
    finally have r: "ReadFull f pos 9 = Inr (?hdr, pos + 9)" using False l by (simp add: ReadFull_def)
    have short: "n < 9 + length k + length (nil_bytes v)" using assms(2) by (simp add: length_enc_record)
    show ?thesis
    proof (cases "ReadFull f (pos + 9) (length k)")
      case (Inl e)
      then show ?thesis by (subst replay_loop.simps) (simp only: r sum.case prod.case Let_def h)
    next
      case (Inr kp)
      then have kp: "snd kp = pos + 9 + length k" using ReadFull_Inr [of f "pos + 9" "length k"] by (cases kp) simp
      have v: "0 < length (nil_bytes v)"
        using Inr short l \<open>\<not> n < 9\<close> by (auto simp: ReadFull_def split: if_splits)
      moreover have "\<exists>e. ReadFull f (pos + 9 + length k) (length (nil_bytes v)) = Inl e"
        using short l v by (auto simp: ReadFull_def)
      ultimately obtain e where "read_value f (pos + 9 + length k) (length (nil_bytes v)) = Inl e"
        by (auto simp: read_value_def)
      then show ?thesis using Inr kp
        by (cases kp) (subst replay_loop.simps, simp only: r sum.case prod.case Let_def h snd_conv)
    qed
  qed
qed

text \<open>A log is its complete records and perhaps the beginning of one more.\<close>

definition torn :: "bytes \<Rightarrow> bool" where
  "torn t \<longleftrightarrow> (\<exists>r n. rec_fits r \<and> n < length (enc_rec r) \<and> t = take n (enc_rec r))"

lemma torn_Nil [simp]: "torn []"
  unfolding torn_def
  by (intro exI [of _ "(1, [], None)"] exI [of _ 0]) (simp add: rec_fits_def nil_bytes_def length_enc_record)

lemma replay_log:
  assumes "f = a @ concat (map enc_rec rs) @ t" and "\<forall>r \<in> set rs. rec_fits r" and "torn t"
  shows "replay_loop fn f (length a) s = replay_ops fn rs s"
  using assms(1,2)
proof (induction rs arbitrary: a s)
  case Nil
  obtain r n where r: "rec_fits r" "n < length (enc_rec r)" "t = take n (enc_rec r)" using assms(3) by (auto simp: torn_def)
  obtain op k v where "r = (op, k, v)" by (cases r)
  with r Nil replay_torn [of "length a" f n op k v fn s] show ?case by simp
next
  case (Cons r rs)
  obtain op k v where r: "r = (op, k, v)" by (cases r)
  have f: "f = (a @ enc_record op k v) @ concat (map enc_rec rs) @ t" using Cons.prems by (simp add: r)
  have "seg f (length a) (enc_record op k v)" by (rule segI [of _ a _ "concat (map enc_rec rs) @ t"]) (simp_all add: f)
  moreover have "rec_fits (op, k, v)" using Cons.prems by (simp add: r)
  moreover have "replay_loop fn f (length a + length (enc_record op k v)) s' = replay_ops fn rs s'" for s'
    using Cons.IH [OF f] Cons.prems by simp
  ultimately show ?case by (simp add: r replay_record split: option.splits sum.splits)
qed

lemma Replay_log:
  assumes "wal_file w = Some (concat (map enc_rec rs) @ t)" and "\<forall>r \<in> set rs. rec_fits r" and "torn t"
  shows "Replay fn w s = replay_ops fn rs s"
  using replay_log [of _ "[]" rs t fn s] assms by (simp add: Replay_def)

text \<open>
  Appending behind a torn byte: the header of the first new record is read one byte off, its key length has
  the operation code as the highest byte, and the replay stops there.
\<close>

lemma replay_behind_torn_byte:
  assumes "f = a @ op # enc_record op' k v @ rest" and "op' \<noteq> 0" and "length f < 2 ^ 24"
  shows "replay_loop fn f (length a) s = Some (Inr (), s)"
proof -
  obtain x1 x2 x3 x4 where x: "put_be 4 (length k) = [x1, x2, x3, x4]"
    using length_put_be [of 4 "length k"] by (auto simp: length_Suc_conv eval_nat_numeral simp del: length_put_be put_be.simps)
  obtain y1 y2 y3 y4 where y: "put_be 4 (length (nil_bytes v)) = [y1, y2, y3, y4]"
    using length_put_be [of 4 "length (nil_bytes v)"]
    by (auto simp: length_Suc_conv eval_nat_numeral simp del: length_put_be put_be.simps)
  let ?hdr = "[op, op', x1, x2, x3, x4, y1, y2, y3]"
  have "f = a @ ?hdr @ (y4 # k @ nil_bytes v @ rest)" by (simp add: assms(1) enc_record_def x y)
  then have "ReadFull f (length a) 9 = Inr (?hdr, length a + 9)"
    by (intro ReadFull_seg segI [of _ a _ "y4 # k @ nil_bytes v @ rest"]) simp_all
  moreover have "2 ^ 24 \<le> get_be (take 4 (drop 1 ?hdr))"
  proof -
    have "1 \<le> unat op'" using assms(2) by (simp add: Suc_le_eq unat_gt_0)
    then show ?thesis by (simp add: get_be_def)
  qed
  then have "\<exists>e. ReadFull f (length a + 9) (get_be (take 4 (drop 1 ?hdr))) = Inl e"
    using assms(3) by (auto simp: ReadFull_def)
  ultimately show ?thesis
    by (subst replay_loop.simps) (auto simp only: sum.case prod.case Let_def)
qed

end
