(* ===== verification/RaftWAL.thy ===== *)
theory RaftWAL
  imports WAL
begin

text \<open>
  \<open>Raft/raft_wal.go\<close>, the files of a Raft node: the term and vote (\<open>raft_state.dat\<close>, overwritten in place), the
  log (\<open>raft_log.dat\<close>, appended to or recreated) and the directory of snapshots. \<open>file_io\<close> says how a file
  operation ends: a failing write stops after some number of bytes. Opening and reading files that exist is
  taken to work.
\<close>

section \<open>Data\<close>

record RaftEntry =
  Index :: int
  EntryTerm :: int
  Command :: bytes
  IsSnapshot :: bool

definition MagicNumber :: nat where "MagicNumber = 0x52415654"
definition Version :: nat where "Version = 1"

record RaftWAL =
  logFile :: "bytes option"
  log_open :: bool
  stateFile :: "bytes option"
  snapshots :: "(bytes \<times> bytes) list option"

record PersistData =
  CurrentTerm :: int
  VotedFor :: int
  Log :: "RaftEntry list"
  pd_LastIncludedIndex :: int
  pd_LastIncludedTerm :: int

datatype file_io = FileOk | OpenFails | WriteStops nat | SyncFails

datatype file_error = FileOpenErr | FileWriteErr | FileSyncErr | FileReadErr io_error | BadSnapshot

definition put_i64 :: "int \<Rightarrow> bytes" where
  "put_i64 i = put_be 8 (nat_of_int64 i)"

lemma length_put_i64 [simp]: "length (put_i64 i) = 8"
  by (simp add: put_i64_def)

lemma ReadBE_i64: "seg f pos (put_i64 i) \<Longrightarrow> ReadBE 8 f pos = Inr (nat_of_int64 i, pos + 8)"
  using ReadBE_seg [of f pos 8 "nat_of_int64 i"] nat_of_int64_bound by (simp add: put_i64_def)

definition NewRaftWAL :: "file_io \<Rightarrow> RaftWAL \<Rightarrow> file_error + RaftWAL" where
  "NewRaftWAL io w =
     (if io = OpenFails then Inl FileOpenErr
      else Inr (w\<lparr>logFile := Some (nil_bytes (logFile w)), log_open := True\<rparr>))"

section \<open>Term and vote\<close>

definition enc_state :: "int \<Rightarrow> int \<Rightarrow> bytes" where
  "enc_state term votedFor = put_be 4 MagicNumber @ put_be 4 Version @ put_i64 term @ put_i64 votedFor"

text \<open>The state file is opened without truncation and written from its start.\<close>

definition overwrite :: "bytes \<Rightarrow> bytes \<Rightarrow> bytes" where
  "overwrite new old = new @ drop (length new) old"

definition SaveState :: "file_io \<Rightarrow> int \<Rightarrow> int \<Rightarrow> RaftWAL \<Rightarrow> (file_error + unit) \<times> RaftWAL" where
  "SaveState io term votedFor w =
     (let buf = enc_state term votedFor; old = nil_bytes (stateFile w)
      in case io of
           OpenFails \<Rightarrow> (Inl FileOpenErr, w)
         | WriteStops n \<Rightarrow> (Inl FileWriteErr, w\<lparr>stateFile := Some (overwrite (take n buf) old)\<rparr>)
         | SyncFails \<Rightarrow> (Inl FileSyncErr, w\<lparr>stateFile := Some (overwrite buf old)\<rparr>)
         | FileOk \<Rightarrow> (Inr (), w\<lparr>stateFile := Some (overwrite buf old)\<rparr>))"

definition LoadState :: "RaftWAL \<Rightarrow> file_error + int \<times> int" where
  "LoadState w =
     (case stateFile w of
        None \<Rightarrow> Inr (0, -1)
      | Some f \<Rightarrow>
         (case ReadBE 4 f 0 of
            Inl e \<Rightarrow> Inl (FileReadErr e)
          | Inr (magic, p1) \<Rightarrow>
             (if magic \<noteq> MagicNumber then Inr (0, -1)
              else case ReadBE 4 f p1 of
                Inl e \<Rightarrow> Inl (FileReadErr e)
              | Inr (_, p2) \<Rightarrow>
                 (case ReadBE 8 f p2 of
                    Inl e \<Rightarrow> Inl (FileReadErr e)
                  | Inr (term, p3) \<Rightarrow>
                     (case ReadBE 8 f p3 of
                        Inl e \<Rightarrow> Inl (FileReadErr e)
                      | Inr (votedFor, _) \<Rightarrow> Inr (int64_of term, int64_of votedFor))))))"

section \<open>The log file\<close>

definition enc_log :: "RaftEntry \<Rightarrow> bytes" where
  "enc_log e = put_i64 (Index e) @ put_i64 (EntryTerm e) @ put_i64 (int (length (Command e))) @ Command e"

text \<open>\<open>writeEntry\<close> and the sync of \<open>AppendLog\<close>: the bytes \<open>buf\<close> go to the end of the file.\<close>

definition append_file :: "file_io \<Rightarrow> bytes \<Rightarrow> RaftWAL \<Rightarrow> (file_error + unit) \<times> RaftWAL" where
  "append_file io buf w =
     (let old = nil_bytes (logFile w)
      in if \<not> log_open w then (Inl FileWriteErr, w)
         else case io of
           OpenFails \<Rightarrow> (Inl FileWriteErr, w)
         | WriteStops n \<Rightarrow> (Inl FileWriteErr, w\<lparr>logFile := Some (old @ take n buf)\<rparr>)
         | SyncFails \<Rightarrow> (Inl FileSyncErr, w\<lparr>logFile := Some (old @ buf)\<rparr>)
         | FileOk \<Rightarrow> (Inr (), w\<lparr>logFile := Some (old @ buf)\<rparr>))"

definition AppendLog :: "file_io \<Rightarrow> RaftEntry \<Rightarrow> RaftWAL \<Rightarrow> (file_error + unit) \<times> RaftWAL" where
  "AppendLog io e w = append_file io (enc_log e) w"

definition AppendLogs :: "file_io \<Rightarrow> RaftEntry list \<Rightarrow> RaftWAL \<Rightarrow> (file_error + unit) \<times> RaftWAL" where
  "AppendLogs io es w = (if es = [] then (Inr (), w) else append_file io (concat (map enc_log es)) w)"

text \<open>\<open>LoadLogs\<close>; a negative length makes \<open>make\<close> panic.\<close>

lemma load_progress:
  assumes "ReadBE 8 f pos = Inr (i, p1)" and "ReadBE 8 f p1 = Inr (t, p2)" and "ReadBE 8 f p2 = Inr (n, p3)"
    and "ReadFull f p3 l = Inr (cmd, p4)"
  shows "length f - p4 < length f - pos"
proof -
  have "p1 = pos + 8" "p1 \<le> length f" "p1 \<le> p4"
    using ReadBE_progress [OF assms(1)] ReadBE_progress [OF assms(2)] ReadBE_progress [OF assms(3)] ReadFull_Inr [OF assms(4)]
    by simp_all
  then show ?thesis by arith
qed

function load_logs :: "bytes \<Rightarrow> nat \<Rightarrow> RaftEntry list option" where
  "load_logs f pos =
     (case ReadBE 8 f pos of
        Inl _ \<Rightarrow> Some []
      | Inr (i, p1) \<Rightarrow>
         (case ReadBE 8 f p1 of
            Inl _ \<Rightarrow> Some []
          | Inr (t, p2) \<Rightarrow>
             (case ReadBE 8 f p2 of
                Inl _ \<Rightarrow> Some []
              | Inr (n, p3) \<Rightarrow>
                 (if int64_of n < 0 then None
                  else case ReadFull f p3 n of
                    Inl _ \<Rightarrow> Some []
                  | Inr (cmd, p4) \<Rightarrow>
                     map_option (Cons \<lparr>Index = int64_of i, EntryTerm = int64_of t, Command = cmd, IsSnapshot = False\<rparr>)
                       (load_logs f p4)))))"
  by pat_completeness auto
termination
  by (relation "measure (\<lambda>(f, pos). length f - pos)") (auto intro: load_progress)

declare load_logs.simps [simp del]

definition LoadLogs :: "RaftWAL \<Rightarrow> RaftEntry list option" where
  "LoadLogs w = (case logFile w of None \<Rightarrow> Some [] | Some f \<Rightarrow> load_logs f 0)"

text \<open>\<open>os.Create\<close> empties the file before the entries are written again.\<close>

definition RebuildLogFile :: "file_io \<Rightarrow> RaftEntry list \<Rightarrow> RaftWAL \<Rightarrow> (file_error + unit) \<times> RaftWAL" where
  "RebuildLogFile io es w =
     (if io = OpenFails then (Inl FileOpenErr, w\<lparr>log_open := False\<rparr>)
      else AppendLogs io es (w\<lparr>logFile := Some [], log_open := True\<rparr>))"

definition TruncateLogs :: "file_io \<Rightarrow> int \<Rightarrow> RaftWAL \<Rightarrow> ((file_error + unit) \<times> RaftWAL) option" where
  "TruncateLogs io lastIncludedIndex w =
     (case LoadLogs w of
        None \<Rightarrow> None
      | Some logs \<Rightarrow>
          Some (if io = OpenFails then (Inl FileOpenErr, w\<lparr>log_open := False\<rparr>)
                else AppendLogs io (filter (\<lambda>l. lastIncludedIndex < Index l) logs)
                       (w\<lparr>logFile := Some [], log_open := True\<rparr>)))"

text \<open>\<open>Clear\<close>, with the outcomes of closing, of both removals and of \<open>os.Create\<close>.\<close>

definition wal_Clear :: "bool \<Rightarrow> bool \<Rightarrow> bool \<Rightarrow> bool \<Rightarrow> RaftWAL \<Rightarrow> (file_error + unit) \<times> RaftWAL" where
  "wal_Clear closes rm_log rm_meta creates w =
     (if \<not> closes then (Inl FileWriteErr, w)
      else let w1 = w\<lparr>log_open := False\<rparr>
        in if \<not> rm_log then (Inl FileWriteErr, w1)
           else let w2 = w1\<lparr>logFile := None\<rparr>
             in if \<not> rm_meta then (Inl FileWriteErr, w2)
                else let w3 = w2\<lparr>stateFile := None\<rparr>
                  in if \<not> creates then (Inl FileOpenErr, w3)
                     else (Inr (), w3\<lparr>logFile := Some [], log_open := True\<rparr>))"

section \<open>Snapshots\<close>

definition decimal_int :: "int \<Rightarrow> bytes" where
  "decimal_int i = (if i < 0 then 45 # decimal (nat (- i)) else decimal (nat i))"

definition snap_name :: "int \<Rightarrow> int \<Rightarrow> bytes" where
  "snap_name lastIndex lastTerm = decimal_int lastIndex @ [95] @ decimal_int lastTerm @ ascii ''.snap''"

definition enc_snapshot :: "bytes \<Rightarrow> int \<Rightarrow> int \<Rightarrow> bytes" where
  "enc_snapshot data lastIndex lastTerm =
     put_be 4 MagicNumber @ put_be 4 Version @ put_i64 lastIndex @ put_i64 lastTerm @
     put_i64 (int (length data)) @ data"

definition SaveSnapshot :: "file_io \<Rightarrow> bytes \<Rightarrow> int \<Rightarrow> int \<Rightarrow> RaftWAL \<Rightarrow> (file_error + unit) \<times> RaftWAL" where
  "SaveSnapshot io data lastIndex lastTerm w =
     (let buf = enc_snapshot data lastIndex lastTerm;
          files = (case snapshots w of None \<Rightarrow> [] | Some fs \<Rightarrow> fs);
          put = (\<lambda>c. w\<lparr>snapshots := Some (ins_sorted (snap_name lastIndex lastTerm) c files)\<rparr>)
      in case io of
           OpenFails \<Rightarrow> (Inl FileOpenErr, w\<lparr>snapshots := Some files\<rparr>)
         | WriteStops n \<Rightarrow> (Inl FileWriteErr, put (take n buf))
         | SyncFails \<Rightarrow> (Inl FileSyncErr, put buf)
         | FileOk \<Rightarrow> (Inr (), put buf))"

text \<open>\<open>strings.Split(name, "_")\<close> and \<open>strconv.ParseInt(s, 10, 64)\<close>.\<close>

fun split_on :: "byte \<Rightarrow> bytes \<Rightarrow> bytes list" where
  "split_on c [] = [[]]"
| "split_on c (b # bs) =
     (if b = c then [] # split_on c bs
      else case split_on c bs of [] \<Rightarrow> [[b]] | x # xs \<Rightarrow> (b # x) # xs)"

definition is_digit :: "byte \<Rightarrow> bool" where
  "is_digit b \<longleftrightarrow> 48 \<le> unat b \<and> unat b \<le> 57"

definition ParseInt :: "bytes \<Rightarrow> int option" where
  "ParseInt s =
     (let (neg, ds) = (case s of [] \<Rightarrow> (False, []) | b # bs \<Rightarrow>
            (if b = 45 then (True, bs) else if b = 43 then (False, bs) else (False, b # bs)));
          v = (if neg then - int (dec_value ds) else int (dec_value ds))
      in if ds \<noteq> [] \<and> list_all is_digit ds \<and> in_int64 v then Some v else None)"

definition snap_index :: "bytes \<Rightarrow> int option" where
  "snap_index name =
     (if 5 \<le> length name \<and> drop (length name - 5) name = ascii ''.snap''
      then (case split_on 95 (take (length name - 5) name) of [a, b] \<Rightarrow> ParseInt a | _ \<Rightarrow> None)
      else None)"

fun latest_snap :: "(bytes \<times> bytes) list \<Rightarrow> int \<times> bytes option \<Rightarrow> int \<times> bytes option" where
  "latest_snap [] best = best"
| "latest_snap ((name, content) # files) (i, f) =
     latest_snap files (case snap_index name of
        Some j \<Rightarrow> if i < j then (j, Some content) else (i, f)
      | None \<Rightarrow> (i, f))"

text \<open>\<open>f.Read(data)\<close>: one read into a zeroed buffer, which may come back short.\<close>

definition read_short :: "bytes \<Rightarrow> nat \<Rightarrow> nat \<Rightarrow> io_error + bytes" where
  "read_short f pos n =
     (if n = 0 then Inr []
      else if length f \<le> pos then Inl EOF
      else let got = take n (drop pos f) in Inr (got @ replicate (n - length got) 0))"

definition read_snapshot :: "bytes \<Rightarrow> (file_error + bytes \<times> int \<times> int) option" where
  "read_snapshot f =
     (case ReadBE 4 f 0 of
        Inl e \<Rightarrow> Some (Inl (FileReadErr e))
      | Inr (magic, p1) \<Rightarrow>
         (if magic \<noteq> MagicNumber then Some (Inl BadSnapshot)
          else case ReadBE 4 f p1 of
            Inl e \<Rightarrow> Some (Inl (FileReadErr e))
          | Inr (_, p2) \<Rightarrow>
             (case ReadBE 8 f p2 of
                Inl e \<Rightarrow> Some (Inl (FileReadErr e))
              | Inr (i, p3) \<Rightarrow>
                 (case ReadBE 8 f p3 of
                    Inl e \<Rightarrow> Some (Inl (FileReadErr e))
                  | Inr (t, p4) \<Rightarrow>
                     (case ReadBE 8 f p4 of
                        Inl e \<Rightarrow> Some (Inl (FileReadErr e))
                      | Inr (n, p5) \<Rightarrow>
                         (if int64_of n < 0 then None
                          else case read_short f p5 n of
                            Inl e \<Rightarrow> Some (Inl (FileReadErr e))
                          | Inr data \<Rightarrow> Some (Inr (data, int64_of i, int64_of t))))))))"

text \<open>The result carries \<open>None\<close> for a \<open>nil\<close> slice: there is no snapshot.\<close>

definition LoadLatestSnapshot :: "RaftWAL \<Rightarrow> (file_error + bytes option \<times> int \<times> int) option" where
  "LoadLatestSnapshot w =
     (case snapshots w of
        None \<Rightarrow> Some (Inr (None, 0, 0))
      | Some files \<Rightarrow>
         (case snd (latest_snap files (0, None)) of
            None \<Rightarrow> Some (Inr (None, 0, 0))
          | Some f \<Rightarrow>
             map_option (\<lambda>r. case r of Inl e \<Rightarrow> Inl e | Inr (d, i, t) \<Rightarrow> Inr (Some d, i, t)) (read_snapshot f)))"

definition DeleteOldSnapshots :: "(bytes \<Rightarrow> bool) \<Rightarrow> int \<Rightarrow> RaftWAL \<Rightarrow> RaftWAL" where
  "DeleteOldSnapshots rms keepIndex w =
     (case snapshots w of
        None \<Rightarrow> w
      | Some files \<Rightarrow>
          w\<lparr>snapshots := Some (filter (\<lambda>(name, _). \<not> (case snap_index name of
               Some j \<Rightarrow> j < keepIndex \<and> rms name | None \<Rightarrow> False)) files)\<rparr>)"

section \<open>Everything at once\<close>

definition SavePersist :: "file_io \<Rightarrow> file_io \<Rightarrow> PersistData \<Rightarrow> RaftWAL \<Rightarrow> (file_error + unit) \<times> RaftWAL" where
  "SavePersist io1 io2 d w =
     (case SaveState io1 (CurrentTerm d) (VotedFor d) w of
        (Inl e, w1) \<Rightarrow> (Inl e, w1)
      | (Inr _, w1) \<Rightarrow> RebuildLogFile io2 (Log d) w1)"

definition LoadPersist :: "RaftWAL \<Rightarrow> (file_error + PersistData) option" where
  "LoadPersist w =
     (case LoadState w of
        Inl e \<Rightarrow> Some (Inl e)
      | Inr (term, votedFor) \<Rightarrow>
         (case LoadLogs w of
            None \<Rightarrow> None
          | Some logs \<Rightarrow>
             (case LoadLatestSnapshot w of
                None \<Rightarrow> None
              | Some s \<Rightarrow>
                  (let (i, t) = (case s of Inr (Some _, i, t) \<Rightarrow> (i, t) | _ \<Rightarrow> (0, 0))
                   in Some (Inr \<lparr>CurrentTerm = term, VotedFor = votedFor, Log = logs,
                                 pd_LastIncludedIndex = i, pd_LastIncludedTerm = t\<rparr>)))))"

section \<open>What the files read back as\<close>

definition log_entry_ok :: "RaftEntry \<Rightarrow> bool" where
  "log_entry_ok e \<longleftrightarrow> in_int64 (Index e) \<and> in_int64 (EntryTerm e) \<and> length (Command e) < 2 ^ 63 \<and> \<not> IsSnapshot e"

lemma length_enc_log: "length (enc_log e) = 24 + length (Command e)"
  by (simp add: enc_log_def)

lemma nat_of_int64_int: "n < 2 ^ 63 \<Longrightarrow> nat_of_int64 (int n) = n"
  by (simp add: nat_of_int64_def nat_mod_as_int [symmetric])

lemma load_entry:
  assumes "seg f pos (enc_log e)" and "log_entry_ok e"
  shows "load_logs f pos = map_option (Cons e) (load_logs f (pos + length (enc_log e)))"
proof -
  have s: "seg f pos (put_i64 (Index e))" "seg f (pos + 8) (put_i64 (EntryTerm e))"
      "seg f (pos + 16) (put_i64 (int (length (Command e))))" "seg f (pos + 24) (Command e)"
    using assms(1) by (simp_all add: enc_log_def seg_append add.assoc)
  have n: "nat_of_int64 (int (length (Command e))) = length (Command e)" "\<not> int64_of (length (Command e)) < 0"
    using assms(2) nat_of_int64_int by (simp_all add: log_entry_ok_def int64_of_def)
  have i: "int64_of (nat_of_int64 (Index e)) = Index e" "int64_of (nat_of_int64 (EntryTerm e)) = EntryTerm e"
    using assms(2) int64_of_nat_of_int64 by (simp_all add: log_entry_ok_def)
  have e: "\<lparr>Index = Index e, EntryTerm = EntryTerm e, Command = Command e, IsSnapshot = False\<rparr> = e"
    using assms(2) by (simp add: log_entry_ok_def)
  show ?thesis
    using ReadBE_i64 [OF s(1)] ReadBE_i64 [OF s(2)] ReadBE_i64 [OF s(3)] ReadFull_seg [OF s(4) refl]
    by (subst load_logs.simps) (simp add: n i e length_enc_log add.assoc)
qed

lemma load_torn:
  assumes "drop pos f = take n (enc_log e)" and "n < length (enc_log e)" and "log_entry_ok e"
  shows "load_logs f pos = Some []"
proof (cases "length f \<le> pos")
  case False
  have len: "length f = pos + n" using arg_cong [OF assms(1), of length] assms(2) False by simp
  have pre: "seg f pos bs" if "enc_log e = bs @ c" "length bs \<le> n" for bs c
    using that len assms(1) by (simp add: seg_def)
  have n: "nat_of_int64 (int (length (Command e))) = length (Command e)" "\<not> int64_of (length (Command e)) < 0"
    using assms(3) nat_of_int64_int by (simp_all add: log_entry_ok_def int64_of_def)
  have short: "\<exists>x. ReadBE 8 f p = Inl x" if "length f < p + 8" for p
    using that by (auto simp: ReadBE_def ReadFull_def)
  consider "n < 8" | "8 \<le> n" "n < 16" | "16 \<le> n" "n < 24" | "24 \<le> n" by linarith
  then show ?thesis
  proof cases
    case 1
    then show ?thesis using short [of pos] len by (subst load_logs.simps) auto
  next
    case 2
    then have "seg f pos (put_i64 (Index e))" by (intro pre) (auto simp: enc_log_def)
    then show ?thesis using 2 short [of "pos + 8"] len ReadBE_i64 by (subst load_logs.simps) fastforce
  next
    case 3
    then have "seg f pos (put_i64 (Index e) @ put_i64 (EntryTerm e))" by (intro pre) (auto simp: enc_log_def)
    then have "seg f pos (put_i64 (Index e))" "seg f (pos + 8) (put_i64 (EntryTerm e))" by (simp_all add: seg_append)
    note r = this [THEN ReadBE_i64]
    show ?thesis using 3 short [of "pos + 16"] len r by (subst load_logs.simps) (auto simp: add.assoc)
  next
    case 4
    then have "seg f pos (put_i64 (Index e) @ put_i64 (EntryTerm e) @ put_i64 (int (length (Command e))))"
      by (intro pre) (auto simp: enc_log_def)
    then have "seg f pos (put_i64 (Index e))" "seg f (pos + 8) (put_i64 (EntryTerm e))"
        "seg f (pos + 16) (put_i64 (int (length (Command e))))"
      by (simp_all add: seg_append add.assoc)
    note r = this [THEN ReadBE_i64]
    have "\<exists>x. ReadFull f (pos + 24) (length (Command e)) = Inl x"
      using 4 len assms(2) by (auto simp: ReadFull_def length_enc_log)
    then show ?thesis using r n by (subst load_logs.simps) (auto simp: add.assoc)
  qed
qed (subst load_logs.simps, simp add: ReadBE_EOF)

text \<open>A log file is its complete entries and perhaps the beginning of one more.\<close>

definition torn_log :: "bytes \<Rightarrow> bool" where
  "torn_log t \<longleftrightarrow> (\<exists>e n. log_entry_ok e \<and> n < length (enc_log e) \<and> t = take n (enc_log e))"

lemma torn_log_Nil [simp]: "torn_log []"
  unfolding torn_log_def
  by (intro exI [of _ "\<lparr>Index = 0, EntryTerm = 0, Command = [], IsSnapshot = False\<rparr>"] exI [of _ 0])
     (simp add: log_entry_ok_def in_int64_def length_enc_log)

lemma load_log:
  assumes "f = a @ concat (map enc_log es) @ t" and "\<forall>e \<in> set es. log_entry_ok e" and "torn_log t"
  shows "load_logs f (length a) = Some es"
  using assms(1,2)
proof (induction es arbitrary: a)
  case Nil
  obtain e n where "log_entry_ok e" "n < length (enc_log e)" "t = take n (enc_log e)" using assms(3) by (auto simp: torn_log_def)
  with Nil load_torn [of "length a" f n e] show ?case by simp
next
  case (Cons e es)
  have f: "f = (a @ enc_log e) @ concat (map enc_log es) @ t" using Cons.prems by simp
  have "seg f (length a) (enc_log e)" by (rule segI [of _ a _ "concat (map enc_log es) @ t"]) (simp_all add: f)
  with Cons.IH [OF f] Cons.prems show ?case by (simp add: load_entry)
qed

definition log_file_holds :: "RaftWAL \<Rightarrow> RaftEntry list \<Rightarrow> bool" where
  "log_file_holds w es \<longleftrightarrow> logFile w = Some (concat (map enc_log es)) \<and> log_open w \<and> (\<forall>e \<in> set es. log_entry_ok e)"

lemma LoadLogs_holds: "log_file_holds w es \<Longrightarrow> LoadLogs w = Some es"
  using load_log [of _ "[]" es "[]"]
  by (simp add: log_file_holds_def LoadLogs_def)

lemma AppendLogs_holds:
  assumes "log_file_holds w es" and "\<forall>e \<in> set news. log_entry_ok e"
  shows "\<exists>w'. AppendLogs FileOk news w = (Inr (), w') \<and> log_file_holds w' (es @ news) \<and>
           stateFile w' = stateFile w \<and> snapshots w' = snapshots w"
  using assms by (auto simp: AppendLogs_def append_file_def log_file_holds_def nil_bytes_def Let_def)

lemma RebuildLogFile_holds:
  assumes "\<forall>e \<in> set es. log_entry_ok e"
  shows "\<exists>w'. RebuildLogFile FileOk es w = (Inr (), w') \<and> log_file_holds w' es \<and>
           stateFile w' = stateFile w \<and> snapshots w' = snapshots w"
  using assms by (auto simp: RebuildLogFile_def AppendLogs_def append_file_def log_file_holds_def nil_bytes_def Let_def)

lemma TruncateLogs_holds:
  assumes "log_file_holds w es"
  shows "\<exists>w'. TruncateLogs FileOk i w = Some (Inr (), w') \<and> log_file_holds w' (filter (\<lambda>e. i < Index e) es) \<and>
           stateFile w' = stateFile w \<and> snapshots w' = snapshots w"
proof -
  have "\<forall>e \<in> set (filter (\<lambda>e. i < Index e) es). log_entry_ok e" using assms by (auto simp: log_file_holds_def)
  from RebuildLogFile_holds [OF this, of w] show ?thesis
    by (auto simp: TruncateLogs_def LoadLogs_holds [OF assms] RebuildLogFile_def)
qed

lemma state_round_trip:
  assumes "in_int64 term" and "in_int64 votedFor" and "SaveState FileOk term votedFor w = (r, w')"
  shows "LoadState w' = Inr (term, votedFor)"
proof -
  let ?f = "overwrite (enc_state term votedFor) (nil_bytes (stateFile w))"
  have f: "stateFile w' = Some ?f" using assms(3) by (auto simp: SaveState_def Let_def)
  have "seg ?f 0 (enc_state term votedFor)" by (simp add: overwrite_def seg_def)
  then have s: "seg ?f 0 (put_be 4 MagicNumber)" "seg ?f 4 (put_be 4 Version)" "seg ?f 8 (put_i64 term)"
      "seg ?f 16 (put_i64 votedFor)"
    by (simp_all add: enc_state_def seg_append)
  have "ReadBE 4 ?f 0 = Inr (MagicNumber, 4)" "ReadBE 4 ?f 4 = Inr (Version, 8)"
    using ReadBE_seg [OF s(1)] ReadBE_seg [OF s(2)] by (simp_all add: MagicNumber_def Version_def)
  with ReadBE_i64 [OF s(3)] ReadBE_i64 [OF s(4)] show ?thesis
    using assms(1,2) by (simp add: LoadState_def f int64_of_nat_of_int64)
qed

section \<open>Snapshot files\<close>

lemma digits_decimal: "list_all is_digit (decimal n) \<and> decimal n \<noteq> []"
proof (induction n rule: decimal.induct)
  case (1 n)
  have d: "is_digit (word_of_nat (48 + r))" if "r < 10" for r
    using that by (simp only: is_digit_def unat_of_nat) simp
  show ?case using 1 d [of n] d [of "n mod 10"] by (subst (1 2) decimal.simps) (auto simp: list_all_append)
qed

lemma no_underscore: "95 \<notin> set (decimal_int i)"
proof -
  have "95 \<notin> set (decimal n)" for n using digits_decimal [of n] by (auto simp: list_all_iff is_digit_def)
  then show ?thesis by (simp add: decimal_int_def)
qed

lemma split_none: "c \<notin> set bs \<Longrightarrow> split_on c bs = [bs]"
  by (induction bs) auto

lemma split_once: "c \<notin> set a \<Longrightarrow> c \<notin> set b \<Longrightarrow> split_on c (a @ c # b) = [a, b]"
  by (induction a) (auto simp: split_none)

lemma ParseInt_decimal:
  assumes "0 \<le> i" and "in_int64 i"
  shows "ParseInt (decimal_int i) = Some i"
proof -
  obtain b bs where b: "decimal (nat i) = b # bs" "is_digit b" "list_all is_digit bs"
    using digits_decimal [of "nat i"] by (cases "decimal (nat i)") auto
  then have "b \<noteq> 45" "b \<noteq> 43" by (auto simp: is_digit_def)
  moreover have "int (dec_value (b # bs)) = i" using dec_value_decimal [of "nat i"] assms(1) by (simp add: b)
  ultimately show ?thesis using b assms by (simp add: ParseInt_def decimal_int_def)
qed

lemma snap_index_name:
  assumes "0 \<le> i" and "in_int64 i"
  shows "snap_index (snap_name i t) = Some i"
proof -
  let ?b = "decimal_int i @ 95 # decimal_int t"
  have n: "snap_name i t = ?b @ ascii ''.snap''" by (simp add: snap_name_def)
  have "length (ascii ''.snap'') = 5" by (simp add: ascii_def)
  then have "take (length (snap_name i t) - 5) (snap_name i t) = ?b"
    "drop (length (snap_name i t) - 5) (snap_name i t) = ascii ''.snap''" "5 \<le> length (snap_name i t)"
    unfolding n by simp_all
  then show ?thesis using split_once [OF no_underscore no_underscore] ParseInt_decimal [OF assms] by (simp add: snap_index_def)
qed

lemma read_snapshot_file:
  assumes "in_int64 i" and "in_int64 t" and "length data < 2 ^ 63"
  shows "read_snapshot (enc_snapshot data i t) = Some (Inr (data, i, t))"
proof -
  let ?f = "enc_snapshot data i t"
  have "seg ?f 0 ?f" by simp
  then have s: "seg ?f 0 (put_be 4 MagicNumber)" "seg ?f 4 (put_be 4 Version)" "seg ?f 8 (put_i64 i)"
      "seg ?f 16 (put_i64 t)" "seg ?f 24 (put_i64 (int (length data)))" "seg ?f 32 data"
    unfolding enc_snapshot_def seg_append by simp_all
  have "ReadBE 4 ?f 0 = Inr (MagicNumber, 4)" "ReadBE 4 ?f 4 = Inr (Version, 8)"
    using ReadBE_seg [OF s(1)] ReadBE_seg [OF s(2)] by (simp_all add: MagicNumber_def Version_def)
  moreover have "nat_of_int64 (int (length data)) = length data" "\<not> int64_of (length data) < 0"
    using assms(3) nat_of_int64_int by (simp_all add: int64_of_def)
  moreover have "read_short ?f 32 (length data) = Inr data"
    using s(6) by (auto simp: read_short_def seg_def Let_def)
  ultimately show ?thesis
    using ReadBE_i64 [OF s(3)] ReadBE_i64 [OF s(4)] ReadBE_i64 [OF s(5)] assms(1,2)
    by (simp add: read_snapshot_def int64_of_nat_of_int64)
qed

text \<open>The newest snapshot wins, wherever its file stands in the directory.\<close>

definition snap_top :: "int \<Rightarrow> (bytes \<times> bytes) list \<Rightarrow> bool" where
  "snap_top i files \<longleftrightarrow> (\<forall>(name, _) \<in> set files. \<forall>j. snap_index name = Some j \<longrightarrow> j < i)"

lemma latest_older:
  assumes "snap_top i files" and "fst best < i"
  shows "fst (latest_snap files best) < i"
  using assms by (induction files best rule: latest_snap.induct) (auto simp: snap_top_def split: option.splits)

lemma latest_kept:
  assumes "snap_top i files"
  shows "latest_snap files (i, f) = (i, f)"
  using assms
proof (induction files)
  case (Cons x files)
  then show ?case by (cases x) (fastforce simp: snap_top_def split: option.splits)
qed simp

lemma latest_append: "latest_snap (xs @ ys) best = latest_snap ys (latest_snap xs best)"
  by (induction xs best rule: latest_snap.induct) auto

lemma latest_snap_new:
  assumes "snap_top i (xs @ ys)" and "snap_index name = Some i" and "0 < i"
  shows "latest_snap (xs @ (name, c) # ys) (0, None) = (i, Some c)"
proof -
  have t: "snap_top i xs" "snap_top i ys" using assms(1) by (auto simp: snap_top_def)
  obtain j g where j: "latest_snap xs (0, None) = (j, g)" by fastforce
  have "j < i" using latest_older [OF t(1), of "(0, None)"] assms(3) j by simp
  then show ?thesis using latest_kept [OF t(2)] by (simp add: latest_append j assms(2))
qed

lemma ins_sorted_split: "\<exists>xs ys zs. es = xs @ ys \<and> ins_sorted k v es = xs @ (k, v) # zs \<and> set zs \<subseteq> set ys"
proof (induction es)
  case (Cons e es)
  obtain a b where e: "e = (a, b)" by fastforce
  from Cons obtain xs ys zs where x: "es = xs @ ys" "ins_sorted k v es = xs @ (k, v) # zs" "set zs \<subseteq> set ys" by blast
  show ?case
  proof (cases "a < k")
    case True
    then have "ins_sorted k v (e # es) = (e # xs) @ (k, v) # zs" using e x by auto
    with x show ?thesis by (metis append_Cons)
  next
    case False
    then show ?thesis using e
      by (intro exI [of _ "[]"] exI [of _ "e # es"] exI [of _ "if k = a then es else e # es"]) auto
  qed
qed simp

lemma LoadLatestSnapshot_saved:
  assumes "SaveSnapshot FileOk data i t w = (r, w')" and "0 < i" and "in_int64 i" and "in_int64 t"
    and "length data < 2 ^ 63" and "\<forall>files. snapshots w = Some files \<longrightarrow> snap_top i files"
  shows "LoadLatestSnapshot w' = Some (Inr (Some data, i, t))"
proof -
  define files where "files = (case snapshots w of None \<Rightarrow> [] | Some fs \<Rightarrow> fs)"
  have top: "snap_top i files" using assms(6) by (cases "snapshots w") (auto simp: files_def snap_top_def)
  obtain xs ys zs where x: "files = xs @ ys" "ins_sorted (snap_name i t) (enc_snapshot data i t) files =
      xs @ (snap_name i t, enc_snapshot data i t) # zs" "set zs \<subseteq> set ys"
    using ins_sorted_split [of files "snap_name i t" "enc_snapshot data i t"] by metis
  have "snap_top i (xs @ zs)" using top x(1,3) by (auto simp: snap_top_def)
  then have "latest_snap (xs @ (snap_name i t, enc_snapshot data i t) # zs) (0, None) = (i, Some (enc_snapshot data i t))"
    using snap_index_name [of i t] assms(2,3) by (intro latest_snap_new) simp_all
  moreover have "snapshots w' = Some (xs @ (snap_name i t, enc_snapshot data i t) # zs)"
    using assms(1) x(2) by (auto simp: SaveSnapshot_def Let_def files_def)
  ultimately show ?thesis by (simp add: LoadLatestSnapshot_def read_snapshot_file [OF assms(3-5)])
qed

end
