(* ===== verification/Raft.thy ===== *)
theory Raft
  imports RaftWAL
begin

text \<open>
  \<open>Raft/raft.go\<close> and \<open>Raft/rpc.go\<close>: the state of a node and every handler that changes it, each a function on
  that state. A handler runs under the node's mutex, so the goroutines of the code are sequences of these
  functions. \<open>None\<close> is a panic (an index or a slice bound out of range, a negative \<open>make\<close>). The messages a
  handler sends and the snapshot it asks for are part of its result. Timers, the ticker and logging are left out;
  \<open>int\<close> fields are unbounded, which the code approximates with 64 bits.
\<close>

datatype State = Follower | Candidate | Leader

record Raft =
  peers :: "bytes list"
  me :: nat
  state :: State
  votedFor :: int
  Term :: int
  commitIndex :: int
  lastApplied :: int
  lastSnapshotIndex :: int
  nextIndex :: "int list"
  matchIndex :: "int list"
  rlog :: "RaftEntry list"
  ApplyCh :: "RaftEntry list"
  LastIncludedIndex :: int
  LastIncludedTerm :: int
  wal :: RaftWAL

record RaftConfig =
  RaftSnapshotThreshold :: int
  RaftSnapshotKeepEntries :: int

text \<open>The outcome of the file operations of a handler, and whether \<open>ApplyCh\<close> has room for a snapshot.\<close>

record RaftIO =
  state_io :: "nat \<Rightarrow> file_io"
  log_io :: file_io
  snap_io :: file_io
  rm_snap :: "bytes \<Rightarrow> bool"
  ch_room :: bool

record RequestVoteArgs =
  rv_Term :: int
  rv_CandidateID :: nat
  rv_LastLogIndex :: int
  rv_LastLogTerm :: int

record RequestVoteReply =
  rvr_Term :: int
  VoteGranted :: bool

record AppendEntriesArgs =
  ae_Term :: int
  ae_LeaderID :: nat
  PrevLogIndex :: int
  PrevLogTerm :: int
  Entries :: "RaftEntry list"
  LeaderCommit :: int

record AppendEntriesReply =
  aer_Term :: int
  aer_Success :: bool

record InstallSnapshotArgs =
  is_Term :: int
  is_LeaderID :: nat
  is_Data :: bytes
  is_LastIncludedIndex :: int
  is_LastIncludedTerm :: int

record InstallSnapshotReply =
  isr_Term :: int
  isr_Success :: bool

datatype message = AppendMsg AppendEntriesArgs | SnapMsg InstallSnapshotArgs

section \<open>Start and persistence\<close>

definition persistStateLocked :: "file_io \<Rightarrow> Raft \<Rightarrow> Raft" where
  "persistStateLocked io r = r\<lparr>wal := snd (SaveState io (Term r) (votedFor r) (wal r))\<rparr>"

definition persistLocked :: "file_io \<Rightarrow> file_io \<Rightarrow> Raft \<Rightarrow> Raft" where
  "persistLocked io1 io2 r =
     r\<lparr>wal := snd (SavePersist io1 io2 \<lparr>CurrentTerm = Term r, VotedFor = votedFor r, Log = rlog r,
        pd_LastIncludedIndex = LastIncludedIndex r, pd_LastIncludedTerm = LastIncludedTerm r\<rparr> (wal r))\<rparr>"

definition readPersist :: "Raft \<Rightarrow> Raft option" where
  "readPersist r =
     (case LoadPersist (wal r) of
        None \<Rightarrow> None
      | Some (Inl _) \<Rightarrow> Some r
      | Some (Inr d) \<Rightarrow>
          (let r1 = r\<lparr>Term := CurrentTerm d, votedFor := VotedFor d, rlog := Log d,
                      LastIncludedIndex := pd_LastIncludedIndex d, LastIncludedTerm := pd_LastIncludedTerm d\<rparr>
           in Some (if 0 < LastIncludedIndex r1
                    then r1\<lparr>commitIndex := LastIncludedIndex r1, lastApplied := LastIncludedIndex r1,
                            lastSnapshotIndex := LastIncludedIndex r1\<rparr>
                    else r1)))"

definition new_node :: "bytes list \<Rightarrow> nat \<Rightarrow> RaftWAL \<Rightarrow> Raft" where
  "new_node ps i w =
     \<lparr>peers = ps, me = i, state = Follower, votedFor = -1, Term = 0, commitIndex = -1, lastApplied = -1,
      lastSnapshotIndex = 0, nextIndex = replicate (length ps) 0, matchIndex = replicate (length ps) 0,
      rlog = [], ApplyCh = [], LastIncludedIndex = 0, LastIncludedTerm = 0, wal = w\<rparr>"

text \<open>\<open>NewRaftWithDataDir\<close> on files \<open>w\<close> that open; the new channel has room for the snapshot.\<close>

definition NewRaftWithDataDir :: "bytes list \<Rightarrow> nat \<Rightarrow> RaftWAL \<Rightarrow> Raft option" where
  "NewRaftWithDataDir ps i w =
     (case readPersist (new_node ps i w) of
        None \<Rightarrow> None
      | Some r \<Rightarrow>
         (if 0 < LastIncludedIndex r
          then (case LoadLatestSnapshot (wal r) of
                  None \<Rightarrow> None
                | Some (Inr (Some d, _, _)) \<Rightarrow>
                    Some (r\<lparr>ApplyCh := ApplyCh r @ [\<lparr>Index = LastIncludedIndex r, EntryTerm = LastIncludedTerm r,
                              Command = d, IsSnapshot = True\<rparr>]\<rparr>)
                | Some _ \<Rightarrow> Some r)
          else Some r))"

section \<open>Looking at the log\<close>

abbreviation rel_index :: "Raft \<Rightarrow> int \<Rightarrow> int" where
  "rel_index r i \<equiv> i - LastIncludedIndex r - 1"

definition getTermAt :: "Raft \<Rightarrow> int \<Rightarrow> int" where
  "getTermAt r absIndex =
     (if absIndex < 0 then 0
      else if absIndex = LastIncludedIndex r \<and> 0 < LastIncludedIndex r then LastIncludedTerm r
      else let relativeIndex = rel_index r absIndex
        in if 0 \<le> relativeIndex \<and> relativeIndex < int (length (rlog r))
           then EntryTerm (rlog r ! nat relativeIndex) else 0)"

definition getLastLogIndex :: "Raft \<Rightarrow> int" where
  "getLastLogIndex r =
     (if rlog r \<noteq> [] then Index (last (rlog r))
      else if 0 < LastIncludedIndex r then LastIncludedIndex r else -1)"

section \<open>Applying and committing\<close>

function apply_loop :: "Raft \<Rightarrow> Raft" where
  "apply_loop r =
     (if lastApplied r < commitIndex r
      then let r1 = r\<lparr>lastApplied := lastApplied r + 1\<rparr>;
               relativeIndex = rel_index r (lastApplied r1)
           in apply_loop (if 0 \<le> relativeIndex \<and> relativeIndex < int (length (rlog r))
                          then r1\<lparr>ApplyCh := ApplyCh r @ [rlog r ! nat relativeIndex]\<rparr> else r1)
      else r)"
  by pat_completeness auto
termination
  by (relation "measure (\<lambda>r. nat (commitIndex r - lastApplied r))") auto

declare apply_loop.simps [simp del]

text \<open>The index of the snapshot that is started, if any.\<close>

definition checkSnapshotTrigger :: "RaftConfig \<Rightarrow> Raft \<Rightarrow> int option" where
  "checkSnapshotTrigger cfg r =
     (if state r \<noteq> Leader then None
      else let threshold = (if RaftSnapshotThreshold cfg \<le> 0 then 10000 else RaftSnapshotThreshold cfg);
               keepEntries = (if RaftSnapshotKeepEntries cfg \<le> 0 then 100 else RaftSnapshotKeepEntries cfg);
               snapshotIndex = commitIndex r - keepEntries
        in if threshold < int (length (rlog r)) \<and> lastSnapshotIndex r < snapshotIndex
           then Some snapshotIndex else None)"

definition applyCommittedLogs :: "RaftConfig \<Rightarrow> Raft \<Rightarrow> int option \<times> Raft" where
  "applyCommittedLogs cfg r = (let r' = apply_loop r in (checkSnapshotTrigger cfg r', r'))"

definition replicas :: "Raft \<Rightarrow> int \<Rightarrow> nat" where
  "replicas r n = 1 + length (filter (\<lambda>j. j \<noteq> me r \<and> n \<le> matchIndex r ! j) [0..<length (peers r)])"

fun commit_scan :: "Raft \<Rightarrow> RaftEntry list \<Rightarrow> int option" where
  "commit_scan r [] = None"
| "commit_scan r (e # es) =
     (if Index e \<le> commitIndex r then commit_scan r es
      else if EntryTerm e \<noteq> Term r then commit_scan r es
      else if length (peers r) div 2 < replicas r (Index e) then Some (Index e)
      else commit_scan r es)"

definition updateCommitIndex :: "RaftConfig \<Rightarrow> Raft \<Rightarrow> int option \<times> Raft" where
  "updateCommitIndex cfg r =
     (if state r \<noteq> Leader then (None, r)
      else case commit_scan r (rev (rlog r)) of
        None \<Rightarrow> (None, r)
      | Some n \<Rightarrow> applyCommittedLogs cfg (r\<lparr>commitIndex := n\<rparr>))"

section \<open>Elections\<close>

definition becomeLeader :: "Raft \<Rightarrow> Raft" where
  "becomeLeader r =
     (let nextLogIndex = (if rlog r \<noteq> [] then Index (last (rlog r)) + 1
                          else if 0 < LastIncludedIndex r then LastIncludedIndex r + 1 else 0)
      in r\<lparr>state := Leader, nextIndex := replicate (length (peers r)) nextLogIndex,
           matchIndex := replicate (length (peers r)) (LastIncludedIndex r)\<rparr>)"

text \<open>\<open>startElection\<close> up to the requests for votes.\<close>

definition election_begin :: "file_io \<Rightarrow> Raft \<Rightarrow> (RequestVoteArgs \<times> Raft) option" where
  "election_begin io r =
     (if state r = Leader then None
      else let r1 = persistStateLocked io (r\<lparr>state := Candidate, Term := Term r + 1, votedFor := int (me r)\<rparr>);
               (lastLogIndex, lastLogTerm) =
                 (if rlog r \<noteq> [] then (Index (last (rlog r)), EntryTerm (last (rlog r)))
                  else if 0 < LastIncludedIndex r then (LastIncludedIndex r, LastIncludedTerm r) else (-1, 0))
        in Some (\<lparr>rv_Term = Term r1, rv_CandidateID = me r1, rv_LastLogIndex = lastLogIndex,
                  rv_LastLogTerm = lastLogTerm\<rparr>, r1))"

text \<open>A goroutine that asked one peer: the vote it puts on the channel (\<open>None\<close> for a failed call).\<close>

definition on_vote_reply :: "RequestVoteReply option \<Rightarrow> Raft \<Rightarrow> bool \<times> Raft" where
  "on_vote_reply reply r =
     (case reply of
        None \<Rightarrow> (False, r)
      | Some a \<Rightarrow>
         (if Term r < rvr_Term a then (False, r\<lparr>Term := rvr_Term a, state := Follower, votedFor := -1\<rparr>)
          else (rvr_Term a = Term r \<and> VoteGranted a, r)))"

datatype vote_event = Vote bool | VoteTimeout

datatype election_result = Won | TimedOut | NoMajority | Undecided

text \<open>The loop that counts: \<open>j\<close> receives are left, \<open>evs\<close> is what it receives.\<close>

fun collect_votes :: "nat \<Rightarrow> nat \<Rightarrow> nat \<Rightarrow> vote_event list \<Rightarrow> election_result" where
  "collect_votes n votes 0 evs = NoMajority"
| "collect_votes n votes (Suc j) [] = Undecided"
| "collect_votes n votes (Suc j) (VoteTimeout # evs) = TimedOut"
| "collect_votes n votes (Suc j) (Vote granted # evs) =
     (if granted
      then if n div 2 < votes + 1 then Won else collect_votes n (votes + 1) j evs
      else collect_votes n votes j evs)"

definition election_end :: "election_result \<Rightarrow> Raft \<Rightarrow> Raft" where
  "election_end res r =
     (case res of
        Won \<Rightarrow> if state r = Candidate then becomeLeader r else r
      | TimedOut \<Rightarrow> if state r = Candidate then r\<lparr>state := Follower, votedFor := -1\<rparr> else r
      | _ \<Rightarrow> r)"

text \<open>
  \<open>startElection\<close> of a node whose peers' replies arrive as \<open>evs\<close>. The candidate counts one vote for itself and
  also puts one on the channel, which is received first.
\<close>

definition count_election :: "Raft \<Rightarrow> vote_event list \<Rightarrow> election_result" where
  "count_election r evs =
     (if length (peers r) - 1 = 0 then Won
      else collect_votes (length (peers r)) 1 (length (peers r) - 1) (Vote True # evs))"

section \<open>The leader's messages\<close>

definition snap_args :: "Raft \<Rightarrow> bytes \<Rightarrow> InstallSnapshotArgs" where
  "snap_args r d = \<lparr>is_Term = Term r, is_LeaderID = me r, is_Data = d,
     is_LastIncludedIndex = LastIncludedIndex r, is_LastIncludedTerm = LastIncludedTerm r\<rparr>"

definition append_args :: "Raft \<Rightarrow> int \<Rightarrow> RaftEntry list \<Rightarrow> AppendEntriesArgs" where
  "append_args r prevLogIndex es = \<lparr>ae_Term = Term r, ae_LeaderID = me r, PrevLogIndex = prevLogIndex,
     PrevLogTerm = getTermAt r prevLogIndex, Entries = es, LeaderCommit = commitIndex r\<rparr>"

definition needs_snapshot :: "Raft \<Rightarrow> int \<Rightarrow> bool" where
  "needs_snapshot r prevLogIndex \<longleftrightarrow> prevLogIndex < LastIncludedIndex r \<and> 0 < LastIncludedIndex r"

text \<open>\<open>SendHeartBeat\<close> to one peer; without a readable snapshot an empty \<open>AppendEntries\<close> goes out.\<close>

definition heartbeat_msg :: "Raft \<Rightarrow> nat \<Rightarrow> message option" where
  "heartbeat_msg r i =
     (let prevLogIndex = nextIndex r ! i - 1
      in if needs_snapshot r prevLogIndex
         then (case LoadLatestSnapshot (wal r) of
                 None \<Rightarrow> None
               | Some (Inr (Some d, _, _)) \<Rightarrow> Some (SnapMsg (snap_args r d))
               | Some _ \<Rightarrow> Some (AppendMsg (append_args r prevLogIndex [])))
         else Some (AppendMsg (append_args r prevLogIndex [])))"

definition SendHeartBeat :: "Raft \<Rightarrow> (nat \<times> message option) list" where
  "SendHeartBeat r =
     (if state r \<noteq> Leader then []
      else map (\<lambda>i. (i, heartbeat_msg r i)) (filter (\<lambda>i. i \<noteq> me r) [0..<length (peers r)]))"

text \<open>
  \<open>replicateLog\<close> to one peer: the outer \<open>None\<close> is a panic (\<open>r.log[relativeStart:]\<close> with a negative bound), the
  inner one means that nothing is sent.
\<close>

definition replicate_msg :: "Raft \<Rightarrow> nat \<Rightarrow> message option option" where
  "replicate_msg r i =
     (let prevLogIndex = nextIndex r ! i - 1
      in if needs_snapshot r prevLogIndex
         then (case LoadLatestSnapshot (wal r) of
                 None \<Rightarrow> None
               | Some (Inr (Some d, _, _)) \<Rightarrow> Some (Some (SnapMsg (snap_args r d)))
               | Some _ \<Rightarrow> Some None)
         else let relativeStart = rel_index r (nextIndex r ! i)
           in if int (length (rlog r)) \<le> relativeStart
              then Some (Some (AppendMsg (append_args r prevLogIndex [])))
              else if relativeStart < 0 then None
              else Some (Some (AppendMsg (append_args r prevLogIndex (drop (nat relativeStart) (rlog r))))))"

fun replicate_to :: "Raft \<Rightarrow> nat list \<Rightarrow> (nat \<times> message) list option" where
  "replicate_to r [] = Some []"
| "replicate_to r (i # js) =
     (case replicate_msg r i of
        None \<Rightarrow> None
      | Some None \<Rightarrow> replicate_to r js
      | Some (Some m) \<Rightarrow> map_option (Cons (i, m)) (replicate_to r js))"

definition replicateLog :: "Raft \<Rightarrow> (nat \<times> message) list option" where
  "replicateLog r =
     (if state r \<noteq> Leader then Some []
      else replicate_to r (filter (\<lambda>i. i \<noteq> me r) [0..<length (peers r)]))"

text \<open>The reply handlers of both senders; \<open>None\<close> is a failed call.\<close>

definition on_append_reply :: "RaftConfig \<Rightarrow> nat \<Rightarrow> AppendEntriesReply option \<Rightarrow> Raft \<Rightarrow> int option \<times> Raft" where
  "on_append_reply cfg peerID reply r =
     (case reply of
        None \<Rightarrow>
          (None, if state r = Leader then r\<lparr>nextIndex := (nextIndex r)[peerID := nextIndex r ! peerID - 1]\<rparr> else r)
      | Some a \<Rightarrow>
         (if Term r < aer_Term a then (None, r\<lparr>Term := aer_Term a, state := Follower, votedFor := -1\<rparr>)
          else if aer_Success a
          then updateCommitIndex cfg
                 (r\<lparr>nextIndex := (nextIndex r)[peerID := getLastLogIndex r + 1],
                    matchIndex := (matchIndex r)[peerID := getLastLogIndex r]\<rparr>)
          else (None, r\<lparr>nextIndex := (nextIndex r)[peerID := nextIndex r ! peerID - 1]\<rparr>)))"

definition on_install_reply :: "nat \<Rightarrow> InstallSnapshotReply option \<Rightarrow> Raft \<Rightarrow> Raft" where
  "on_install_reply peerID reply r =
     (case reply of
        None \<Rightarrow> r
      | Some a \<Rightarrow>
         (if isr_Success a
          then r\<lparr>nextIndex := (nextIndex r)[peerID := LastIncludedIndex r + 1],
                 matchIndex := (matchIndex r)[peerID := LastIncludedIndex r]\<rparr>
          else if Term r < isr_Term a then r\<lparr>Term := isr_Term a, state := Follower, votedFor := -1\<rparr>
          else r))"

text \<open>\<open>AppendEntry\<close>: the index, the messages sent and the snapshot started.\<close>

definition AppendEntry ::
    "RaftConfig \<Rightarrow> file_io \<Rightarrow> bytes \<Rightarrow> Raft \<Rightarrow> ((int \<times> (nat \<times> message) list \<times> int option) option \<times> Raft) option" where
  "AppendEntry cfg io command r =
     (if state r \<noteq> Leader then Some (None, r)
      else let lastLogIndex = (if rlog r \<noteq> [] then Index (last (rlog r))
                               else if 0 < LastIncludedIndex r then LastIncludedIndex r else -1);
               e = \<lparr>Index = lastLogIndex + 1, EntryTerm = Term r, Command = command, IsSnapshot = False\<rparr>;
               r1 = r\<lparr>rlog := rlog r @ [e], wal := snd (AppendLog io e (wal r))\<rparr>
        in if length (peers r) = 1
           then let (trig, r2) = applyCommittedLogs cfg (r1\<lparr>commitIndex := Index e\<rparr>)
                in Some (Some (Index e, [], trig), r2)
           else (case replicateLog r1 of
                   None \<Rightarrow> None
                 | Some ms \<Rightarrow> Some (Some (Index e, ms, None), r1)))"

section \<open>The handlers of the peers' calls\<close>

definition isLogUpToDate :: "int \<Rightarrow> int \<Rightarrow> Raft \<Rightarrow> bool" where
  "isLogUpToDate candidateLastIndex candidateLastTerm r =
     (if rlog r = [] \<and> LastIncludedIndex r = 0 then True
      else let (lastIndex, lastTerm) = (if rlog r \<noteq> [] then (Index (last (rlog r)), EntryTerm (last (rlog r)))
                                        else (LastIncludedIndex r, LastIncludedTerm r))
        in if lastTerm < candidateLastTerm then True
           else candidateLastTerm = lastTerm \<and> lastIndex \<le> candidateLastIndex)"

text \<open>A call from a newer term: the node follows it.\<close>

definition step_down :: "int \<Rightarrow> Raft \<Rightarrow> Raft" where
  "step_down t r = r\<lparr>Term := t, state := Follower, votedFor := -1\<rparr>"

definition RequestVote :: "RaftIO \<Rightarrow> RequestVoteArgs \<Rightarrow> Raft \<Rightarrow> RequestVoteReply \<times> Raft" where
  "RequestVote io args r =
     (if rv_Term args < Term r then (\<lparr>rvr_Term = Term r, VoteGranted = False\<rparr>, r)
      else let r1 = (if Term r < rv_Term args
                     then persistStateLocked (state_io io 0) (step_down (rv_Term args) r) else r);
               votedForMe = (votedFor r1 = -1 \<or> votedFor r1 = int (rv_CandidateID args));
               logUpToDate = isLogUpToDate (rv_LastLogIndex args) (rv_LastLogTerm args) r1
        in if votedForMe \<and> logUpToDate
           then let r2 = persistStateLocked (state_io io 1) (r1\<lparr>votedFor := int (rv_CandidateID args)\<rparr>)
                in (\<lparr>rvr_Term = Term r2, VoteGranted = True\<rparr>, r2)
           else (\<lparr>rvr_Term = Term r1, VoteGranted = False\<rparr>, r1))"

text \<open>The consistency check of \<open>AppendEntries\<close>.\<close>

definition prev_matches :: "AppendEntriesArgs \<Rightarrow> Raft \<Rightarrow> bool" where
  "prev_matches args r =
     (if PrevLogIndex args < 0 then True
      else if PrevLogIndex args = LastIncludedIndex r \<and> 0 < LastIncludedIndex r
      then PrevLogTerm args = LastIncludedTerm r
      else if LastIncludedIndex r < PrevLogIndex args
      then let relativeIndex = rel_index r (PrevLogIndex args)
           in relativeIndex < int (length (rlog r)) \<and> EntryTerm (rlog r ! nat relativeIndex) = PrevLogTerm args
      else False)"

text \<open>The loop over the new entries: the log, whether it was cut, and the entries appended.\<close>

fun append_loop ::
    "int \<Rightarrow> RaftEntry list \<Rightarrow> RaftEntry list \<times> bool \<times> RaftEntry list \<Rightarrow> (RaftEntry list \<times> bool \<times> RaftEntry list) option" where
  "append_loop lii [] s = Some s"
| "append_loop lii (e # es) (lg, needRebuild, newEntries) =
     (let relativeIndex = Index e - lii - 1
      in if relativeIndex < 0 then None
         else let conflict = (relativeIndex < int (length lg) \<and> EntryTerm (lg ! nat relativeIndex) \<noteq> EntryTerm e);
                  lg1 = (if conflict then take (nat relativeIndex) lg else lg);
                  rb = (needRebuild \<or> conflict)
           in if int (length lg1) \<le> relativeIndex
              then append_loop lii es (lg1 @ [e], rb, newEntries @ [e])
              else append_loop lii es (lg1, rb, newEntries))"

definition AppendEntries :: "RaftIO \<Rightarrow> AppendEntriesArgs \<Rightarrow> Raft \<Rightarrow> (AppendEntriesReply \<times> Raft) option" where
  "AppendEntries io args r =
     (if ae_Term args < Term r then Some (\<lparr>aer_Term = Term r, aer_Success = False\<rparr>, r)
      else let r1 = (if Term r < ae_Term args
                     then persistStateLocked (state_io io 0) (step_down (ae_Term args) r) else r)
        in if \<not> prev_matches args r1 then Some (\<lparr>aer_Term = Term r1, aer_Success = False\<rparr>, r1)
           else case append_loop (LastIncludedIndex r1) (Entries args) (rlog r1, False, []) of
             None \<Rightarrow> None
           | Some (lg, needRebuild, newEntries) \<Rightarrow>
              (let r2 = r1\<lparr>rlog := lg\<rparr>;
                   r3 = (if Entries args = [] then r2
                         else persistStateLocked (state_io io 1)
                           (r2\<lparr>wal := snd (if needRebuild then RebuildLogFile (log_io io) lg (wal r2)
                                           else AppendLogs (log_io io) newEntries (wal r2))\<rparr>));
                   r4 = (if commitIndex r3 < LeaderCommit args
                         then apply_loop (r3\<lparr>commitIndex := min (LeaderCommit args)
                                (if rlog r3 \<noteq> [] then Index (last (rlog r3)) else LastIncludedIndex r3)\<rparr>)
                         else r3)
               in Some (\<lparr>aer_Term = Term r4, aer_Success = True\<rparr>, r4)))"

section \<open>Snapshots\<close>

text \<open>Entries from \<open>start\<close> on, renumbered from \<open>first\<close>; an empty log when \<open>start\<close> is out of range.\<close>

definition cut_log :: "int \<Rightarrow> int \<Rightarrow> RaftEntry list \<Rightarrow> RaftEntry list" where
  "cut_log start first lg =
     (if 0 \<le> start \<and> start \<le> int (length lg)
      then map (\<lambda>(i, e). e\<lparr>Index := first + int i\<rparr>) (enumerate 0 (drop (nat start) lg))
      else [])"

definition snap_entry :: "int \<Rightarrow> int \<Rightarrow> bytes \<Rightarrow> RaftEntry" where
  "snap_entry i t d = \<lparr>Index = i, EntryTerm = t, Command = d, IsSnapshot = True\<rparr>"

definition InstallSnapshot :: "RaftIO \<Rightarrow> InstallSnapshotArgs \<Rightarrow> Raft \<Rightarrow> (InstallSnapshotReply \<times> Raft) option" where
  "InstallSnapshot io args r =
     (if is_Term args < Term r then Some (\<lparr>isr_Term = Term r, isr_Success = False\<rparr>, r)
      else let r1 = (if Term r < is_Term args then step_down (is_Term args) r else r);
               fail = (\<lambda>q. Some (\<lparr>isr_Term = Term q, isr_Success = False\<rparr>, q));
               li = is_LastIncludedIndex args
        in if li \<le> LastIncludedIndex r1 then fail r1
           else case SaveSnapshot (snap_io io) (is_Data args) li (is_LastIncludedTerm args) (wal r1) of
             (Inl _, w1) \<Rightarrow> fail (r1\<lparr>wal := w1\<rparr>)
           | (Inr _, w1) \<Rightarrow>
              (let w2 = DeleteOldSnapshots (rm_snap io) li w1;
                   r2 = r1\<lparr>wal := w2, rlog := cut_log (li + 1 - LastIncludedIndex r1) (li + 1) (rlog r1)\<rparr>
               in case TruncateLogs (log_io io) li w2 of
                    None \<Rightarrow> None
                  | Some (Inl _, w3) \<Rightarrow> fail (r2\<lparr>wal := w3\<rparr>)
                  | Some (Inr _, w3) \<Rightarrow>
                     (let r3 = r2\<lparr>wal := w3, commitIndex := li, lastApplied := li, lastSnapshotIndex := li,
                                  LastIncludedIndex := li, LastIncludedTerm := is_LastIncludedTerm args\<rparr>;
                          r4 = (if ch_room io
                                then r3\<lparr>ApplyCh := ApplyCh r3 @ [snap_entry li (is_LastIncludedTerm args) (is_Data args)]\<rparr>
                                else r3);
                          r5 = persistStateLocked (state_io io 0) r4
                      in Some (\<lparr>isr_Term = Term r5, isr_Success = True\<rparr>, r5))))"

text \<open>\<open>SerializeLogEntries\<close> and \<open>DeserializeLogEntries\<close>; a \<open>nil\<close> result is the empty list.\<close>

definition SerializeLogEntries :: "RaftEntry list \<Rightarrow> bytes" where
  "SerializeLogEntries es = (if es = [] then [] else put_be 4 (length es) @ concat (map enc_log es))"

fun deserialize_loop :: "nat \<Rightarrow> bytes \<Rightarrow> nat \<Rightarrow> RaftEntry list option" where
  "deserialize_loop 0 data offset = Some []"
| "deserialize_loop (Suc n) data offset =
     (if length data < offset + 24 then Some []
      else let u64 = (\<lambda>o'. int64_of (get_be (take 8 (drop o' data))));
               cmdLen = u64 (offset + 16)
        in if 2 ^ 63 \<le> int (offset + 24) + cmdLen \<or> cmdLen < 0 then None
           else if int (length data) < int (offset + 24) + cmdLen then Some []
           else map_option (Cons \<lparr>Index = u64 offset, EntryTerm = u64 (offset + 8),
                    Command = take (nat cmdLen) (drop (offset + 24) data), IsSnapshot = False\<rparr>)
                  (deserialize_loop n data (offset + 24 + nat cmdLen)))"

definition DeserializeLogEntries :: "bytes \<Rightarrow> RaftEntry list option" where
  "DeserializeLogEntries data =
     (if length data < 4 then Some [] else deserialize_loop (get_be (take 4 data)) data 4)"

datatype snapshot_error = SnapTooOld | SnapUncommitted | SnapSaveFailed | SnapTruncateFailed

definition TakeSnapshot :: "RaftIO \<Rightarrow> int \<Rightarrow> Raft \<Rightarrow> ((snapshot_error + unit) \<times> Raft) option" where
  "TakeSnapshot io index r =
     (if index \<le> lastSnapshotIndex r then Some (Inl SnapTooOld, r)
      else if commitIndex r < index then Some (Inl SnapUncommitted, r)
      else let start = index + 1 - LastIncludedIndex r;
               snapshotEntries = take (nat start) (rlog r);
               trm = (if snapshotEntries \<noteq> [] then EntryTerm (last snapshotEntries)
                      else if index = LastIncludedIndex r then LastIncludedTerm r else 0);
               data = SerializeLogEntries snapshotEntries
        in case SaveSnapshot (snap_io io) data index trm (wal r) of
             (Inl _, w1) \<Rightarrow> Some (Inl SnapSaveFailed, r\<lparr>wal := w1\<rparr>)
           | (Inr _, w1) \<Rightarrow>
              (let w2 = DeleteOldSnapshots (rm_snap io) index w1
               in case TruncateLogs (log_io io) index w2 of
                    None \<Rightarrow> None
                  | Some (Inl _, w3) \<Rightarrow> Some (Inl SnapTruncateFailed, r\<lparr>wal := w3\<rparr>)
                  | Some (Inr _, w3) \<Rightarrow>
                     (let r1 = r\<lparr>wal := w3, rlog := cut_log start (index + 1) (rlog r), lastSnapshotIndex := index,
                                 LastIncludedIndex := index, LastIncludedTerm := trm\<rparr>;
                          r2 = (if ch_room io then r1\<lparr>ApplyCh := ApplyCh r1 @ [snap_entry index trm data]\<rparr> else r1)
                      in Some (Inr (), persistStateLocked (state_io io 0) r2))))"

end
