(* ===== verification/RaftCorrect.thy ===== *)
theory RaftCorrect
  imports Raft
begin

text \<open>
  Lemmas on the handlers of \<open>Raft\<close>: the numbering of the log, what is delivered to the state machine, how
  \<open>AppendEntries\<close> merges, when a vote is granted, and how the files follow the memory.
\<close>

section \<open>Numbering\<close>

definition consecutive :: "int \<Rightarrow> RaftEntry list \<Rightarrow> bool" where
  "consecutive b es \<longleftrightarrow> (\<forall>i < length es. Index (es ! i) = b + int i)"

lemma consecutive_Nil [simp]: "consecutive b []"
  by (simp add: consecutive_def)

lemma consecutive_Cons [simp]: "consecutive b (e # es) \<longleftrightarrow> Index e = b \<and> consecutive (b + 1) es"
  by (auto simp: consecutive_def nth_Cons' less_Suc_eq_0_disj algebra_simps)

lemma consecutive_append [simp]:
  "consecutive b (xs @ ys) \<longleftrightarrow> consecutive b xs \<and> consecutive (b + int (length xs)) ys"
  by (induction xs arbitrary: b) (auto simp: algebra_simps)

lemma consecutive_take: "consecutive b es \<Longrightarrow> consecutive b (take n es)"
  by (simp add: consecutive_def)

lemma consecutive_drop: "consecutive b es \<Longrightarrow> n \<le> length es \<Longrightarrow> consecutive (b + int n) (drop n es)"
  by (auto simp: consecutive_def)

lemma consecutive_last: "consecutive b es \<Longrightarrow> es \<noteq> [] \<Longrightarrow> Index (last es) = b + int (length es) - 1"
  by (cases es rule: rev_cases) auto

text \<open>The first index of the log: behind the snapshot, or zero.\<close>

definition log_base :: "Raft \<Rightarrow> int" where
  "log_base r = (if 0 < LastIncludedIndex r then LastIncludedIndex r + 1 else 0)"

definition wf_log :: "Raft \<Rightarrow> bool" where
  "wf_log r \<longleftrightarrow> 0 \<le> LastIncludedIndex r \<and> consecutive (log_base r) (rlog r)"

lemma next_index_wf:
  assumes "wf_log r"
  shows "(if rlog r \<noteq> [] then Index (last (rlog r)) else if 0 < LastIncludedIndex r then LastIncludedIndex r else -1) + 1 =
     log_base r + int (length (rlog r))"
  using assms consecutive_last [of "log_base r" "rlog r"] by (auto simp: wf_log_def log_base_def)

section \<open>Delivery\<close>

lemma apply_loop_fields [simp]:
  "commitIndex (apply_loop r) = commitIndex r" "rlog (apply_loop r) = rlog r" "Term (apply_loop r) = Term r"
  "votedFor (apply_loop r) = votedFor r" "wal (apply_loop r) = wal r" "state (apply_loop r) = state r"
  "LastIncludedIndex (apply_loop r) = LastIncludedIndex r" "LastIncludedTerm (apply_loop r) = LastIncludedTerm r"
  "peers (apply_loop r) = peers r" "me (apply_loop r) = me r" "lastSnapshotIndex (apply_loop r) = lastSnapshotIndex r"
  "matchIndex (apply_loop r) = matchIndex r" "nextIndex (apply_loop r) = nextIndex r"
  by (induction r rule: apply_loop.induct, subst apply_loop.simps, simp add: Let_def)+

lemma delivered_step:
  assumes "lii \<le> a" and "a < c"
  shows "take (nat (c - a)) (drop (nat (a - lii)) lg) =
     (if a - lii < int (length lg) then [lg ! nat (a - lii)] else []) @ take (nat (c - (a + 1))) (drop (nat (a + 1 - lii)) lg)"
proof -
  have n: "nat (c - a) = Suc (nat (c - (a + 1)))" "nat (a + 1 - lii) = Suc (nat (a - lii))" using assms by simp_all
  show ?thesis
  proof (cases "nat (a - lii) < length lg")
    case True
    then show ?thesis using assms unfolding n by (simp add: Cons_nth_drop_Suc [symmetric])
  next
    case False
    then show ?thesis using assms by simp
  qed
qed

lemma apply_step:
  assumes "lastApplied r < commitIndex r" and "LastIncludedIndex r \<le> lastApplied r"
  defines "i \<equiv> lastApplied r - LastIncludedIndex r"
  shows "apply_loop r = apply_loop (r\<lparr>lastApplied := lastApplied r + 1,
     ApplyCh := ApplyCh r @ (if i < int (length (rlog r)) then [rlog r ! nat i] else [])\<rparr>)"
proof -
  have "r\<lparr>lastApplied := lastApplied r + 1, ApplyCh := ApplyCh r\<rparr> = r\<lparr>lastApplied := lastApplied r + 1\<rparr>"
    by (cases r) simp
  then show ?thesis using assms(1,2) by (subst apply_loop.simps) (simp add: Let_def i_def algebra_simps)
qed

text \<open>The loop delivers the entries by position: position \<open>lastApplied - LastIncludedIndex\<close> first.\<close>

lemma apply_loop_delivers:
  assumes "LastIncludedIndex r \<le> lastApplied r"
  shows "ApplyCh (apply_loop r) = ApplyCh r @
       take (nat (commitIndex r - lastApplied r)) (drop (nat (lastApplied r - LastIncludedIndex r)) (rlog r)) \<and>
     lastApplied (apply_loop r) = max (lastApplied r) (commitIndex r)"
  using assms
proof (induction "nat (commitIndex r - lastApplied r)" arbitrary: r)
  case 0
  then show ?case by (subst (1 2) apply_loop.simps) simp
next
  case (Suc n)
  then have l: "lastApplied r < commitIndex r" by simp
  let ?i = "lastApplied r - LastIncludedIndex r"
  let ?r = "r\<lparr>lastApplied := lastApplied r + 1,
     ApplyCh := ApplyCh r @ (if ?i < int (length (rlog r)) then [rlog r ! nat ?i] else [])\<rparr>"
  have "n = nat (commitIndex ?r - lastApplied ?r)" "LastIncludedIndex ?r \<le> lastApplied ?r" using Suc by simp_all
  from Suc.hyps(1) [OF this] show ?case
    using delivered_step [OF Suc.prems l, of "rlog r"] l unfolding apply_step [OF l Suc.prems] by simp
qed

section \<open>Merging the leader's entries\<close>

text \<open>
  The reference merge: keep what agrees on the term, position by position; from the first disagreement on, or
  where the old log ends, take the new entries.
\<close>

fun merge_log :: "RaftEntry list \<Rightarrow> RaftEntry list \<Rightarrow> RaftEntry list" where
  "merge_log old [] = old"
| "merge_log [] es = es"
| "merge_log (a # old) (e # es) = (if EntryTerm a = EntryTerm e then a # merge_log old es else e # es)"

lemma merge_log_Nil [simp]: "merge_log [] es = es"
  by (cases es) simp_all

lemma set_merge_log: "set (merge_log old es) \<subseteq> set old \<union> set es"
  by (induction old es rule: merge_log.induct) auto

lemma consecutive_merge_log: "consecutive b old \<Longrightarrow> consecutive b es \<Longrightarrow> consecutive b (merge_log old es)"
  by (induction old es arbitrary: b rule: merge_log.induct) auto

lemma merge_log_terms:
  "length es \<le> length (merge_log old es) \<and> map EntryTerm (take (length es) (merge_log old es)) = map EntryTerm es"
  by (induction old es rule: merge_log.induct) auto

lemma merge_log_same: "map EntryTerm (take (length es) old) = map EntryTerm es \<Longrightarrow> merge_log old es = old"
  by (induction old es rule: merge_log.induct) auto

lemma append_loop_merges:
  assumes "consecutive (lii + 1 + int k) es" and "k \<le> length lg"
  shows "\<exists>rb' add. append_loop lii es (lg, rb, news) = Some (take k lg @ merge_log (drop k lg) es, rb', news @ add) \<and>
     set add \<subseteq> set es \<and> (\<not> rb' \<longrightarrow> \<not> rb \<and> take k lg @ merge_log (drop k lg) es = lg @ add)"
  using assms
proof (induction es arbitrary: k lg rb news)
  case Nil
  then show ?case by simp
next
  case (Cons e es)
  have i: "Index e = lii + 1 + int k" and c: "consecutive (lii + 1 + int (k + 1)) es"
    using Cons.prems(1) by (simp_all add: algebra_simps)
  show ?case
  proof (cases "k < length lg")
    case True
    then have d: "drop k lg = lg ! k # drop (Suc k) lg" by (simp add: Cons_nth_drop_Suc)
    show ?thesis
    proof (cases "EntryTerm (lg ! k) = EntryTerm e")
      case same: True
      have "append_loop lii (e # es) (lg, rb, news) = append_loop lii es (lg, rb, news)"
        using True same by (simp add: i Let_def)
      moreover have "take (Suc k) lg @ merge_log (drop (Suc k) lg) es = take k lg @ merge_log (drop k lg) (e # es)"
        using True same by (simp add: d take_Suc_conv_app_nth)
      ultimately show ?thesis using Cons.IH [OF c, of lg rb news] True by (force simp: d)
    next
      case False
      let ?lg = "take k lg @ [e]"
      have "append_loop lii (e # es) (lg, rb, news) = append_loop lii es (?lg, True, news @ [e])"
        using True False by (simp add: i Let_def)
      moreover have "take (k + 1) ?lg @ merge_log (drop (k + 1) ?lg) es = take k lg @ merge_log (drop k lg) (e # es)"
        using True False by (simp add: d)
      ultimately show ?thesis using Cons.IH [OF c, of ?lg True "news @ [e]"] True by force
    qed
  next
    case False
    then have k: "k = length lg" using Cons.prems(2) by simp
    have "append_loop lii (e # es) (lg, rb, news) = append_loop lii es (lg @ [e], rb, news @ [e])"
      by (simp add: i k Let_def)
    moreover have "take (k + 1) (lg @ [e]) @ merge_log (drop (k + 1) (lg @ [e])) es = take k lg @ merge_log (drop k lg) (e # es)"
      by (simp add: k)
    ultimately show ?thesis using Cons.IH [OF c, of "lg @ [e]" rb "news @ [e]"] k by force
  qed
qed

section \<open>The files follow the memory\<close>

definition disk_ok :: "Raft \<Rightarrow> bool" where
  "disk_ok r \<longleftrightarrow> log_file_holds (wal r) (rlog r) \<and> LoadState (wal r) = Inr (Term r, votedFor r) \<and>
     in_int64 (Term r) \<and> in_int64 (votedFor r)"

lemma log_file_persist [simp]:
  "log_file_holds (wal (persistStateLocked io r)) es = log_file_holds (wal r) es"
  by (auto simp: persistStateLocked_def SaveState_def log_file_holds_def Let_def split: file_io.splits)

lemma persist_fields [simp]:
  "rlog (persistStateLocked io r) = rlog r" "Term (persistStateLocked io r) = Term r"
  "votedFor (persistStateLocked io r) = votedFor r" "state (persistStateLocked io r) = state r"
  "commitIndex (persistStateLocked io r) = commitIndex r" "lastApplied (persistStateLocked io r) = lastApplied r"
  "LastIncludedIndex (persistStateLocked io r) = LastIncludedIndex r"
  "LastIncludedTerm (persistStateLocked io r) = LastIncludedTerm r" "ApplyCh (persistStateLocked io r) = ApplyCh r"
  "peers (persistStateLocked io r) = peers r" "me (persistStateLocked io r) = me r"
  "lastSnapshotIndex (persistStateLocked io r) = lastSnapshotIndex r"
  "matchIndex (persistStateLocked io r) = matchIndex r" "nextIndex (persistStateLocked io r) = nextIndex r"
  by (simp_all add: persistStateLocked_def)

lemma persist_saves:
  assumes "in_int64 (Term r)" and "in_int64 (votedFor r)"
  shows "LoadState (wal (persistStateLocked FileOk r)) = Inr (Term r, votedFor r)"
proof -
  obtain x w where s: "SaveState FileOk (Term r) (votedFor r) (wal r) = (x, w)" by fastforce
  from state_round_trip [OF assms s] show ?thesis by (simp add: persistStateLocked_def s)
qed

lemma step_down_fields [simp]:
  "rlog (step_down t r) = rlog r" "Term (step_down t r) = t" "votedFor (step_down t r) = -1"
  "state (step_down t r) = Follower" "commitIndex (step_down t r) = commitIndex r"
  "lastApplied (step_down t r) = lastApplied r" "LastIncludedIndex (step_down t r) = LastIncludedIndex r"
  "LastIncludedTerm (step_down t r) = LastIncludedTerm r" "ApplyCh (step_down t r) = ApplyCh r"
  "wal (step_down t r) = wal r" "peers (step_down t r) = peers r" "me (step_down t r) = me r"
  "lastSnapshotIndex (step_down t r) = lastSnapshotIndex r"
  by (simp_all add: step_down_def)

abbreviation io_works :: "RaftIO \<Rightarrow> bool" where
  "io_works io \<equiv> (\<forall>n. state_io io n = FileOk) \<and> log_io io = FileOk \<and> snap_io io = FileOk"

lemma disk_ok_persist:
  assumes "log_file_holds (wal r) (rlog r)" and "in_int64 (Term r)" and "in_int64 (votedFor r)"
  shows "disk_ok (persistStateLocked FileOk r)"
  using assms persist_saves [of r] by (simp add: disk_ok_def)

lemma disk_ok_same:
  "disk_ok r \<Longrightarrow> wal r' = wal r \<Longrightarrow> rlog r' = rlog r \<Longrightarrow> Term r' = Term r \<Longrightarrow> votedFor r' = votedFor r \<Longrightarrow> disk_ok r'"
  by (simp add: disk_ok_def)

lemma in_int64_m1 [simp]: "in_int64 (-1)"
  by (simp add: in_int64_def)

lemma in_int64_of_nat: "n < 2 ^ 63 \<Longrightarrow> in_int64 (int n)"
  by (simp add: in_int64_def)

text \<open>Following a newer term, as \<open>RequestVote\<close> and \<open>AppendEntries\<close> do.\<close>

definition follow :: "RaftIO \<Rightarrow> int \<Rightarrow> Raft \<Rightarrow> Raft" where
  "follow io t r = (if Term r < t then persistStateLocked (state_io io 0) (step_down t r) else r)"

lemma follow_fields [simp]:
  "rlog (follow io t r) = rlog r" "Term (follow io t r) = max (Term r) t"
  "commitIndex (follow io t r) = commitIndex r" "lastApplied (follow io t r) = lastApplied r"
  "LastIncludedIndex (follow io t r) = LastIncludedIndex r" "LastIncludedTerm (follow io t r) = LastIncludedTerm r"
  "ApplyCh (follow io t r) = ApplyCh r" "votedFor (follow io t r) = (if Term r < t then -1 else votedFor r)"
  by (simp_all add: follow_def max_def)

lemma follow_disk:
  assumes "disk_ok r" and "in_int64 t" and "io_works io"
  shows "disk_ok (follow io t r)"
  using assms disk_ok_persist [of "step_down t r"] by (simp add: follow_def disk_ok_def)

lemma prev_matches_follow [simp]: "prev_matches args (follow io t r) = prev_matches args r"
  by (simp add: prev_matches_def)

lemma prev_position:
  assumes "prev_matches args r" and "0 < LastIncludedIndex r" and "0 \<le> PrevLogIndex args"
  shows "LastIncludedIndex r \<le> PrevLogIndex args" and "nat (PrevLogIndex args - LastIncludedIndex r) \<le> length (rlog r)"
  using assms by (auto simp: prev_matches_def Let_def split: if_splits)

text \<open>The part of \<open>AppendEntries\<close> that stores the entries.\<close>

definition store_entries :: "RaftIO \<Rightarrow> AppendEntriesArgs \<Rightarrow> RaftEntry list \<times> bool \<times> RaftEntry list \<Rightarrow> Raft \<Rightarrow> Raft" where
  "store_entries io args res r =
     (case res of (lg, needRebuild, newEntries) \<Rightarrow>
       let r2 = r\<lparr>rlog := lg\<rparr>
       in if Entries args = [] then r2
          else persistStateLocked (state_io io 1)
            (r2\<lparr>wal := snd (if needRebuild then RebuildLogFile (log_io io) lg (wal r2)
                            else AppendLogs (log_io io) newEntries (wal r2))\<rparr>))"

definition advance_commit :: "AppendEntriesArgs \<Rightarrow> Raft \<Rightarrow> Raft" where
  "advance_commit args r =
     (if commitIndex r < LeaderCommit args
      then apply_loop (r\<lparr>commitIndex := min (LeaderCommit args)
             (if rlog r \<noteq> [] then Index (last (rlog r)) else LastIncludedIndex r)\<rparr>)
      else r)"

lemma AppendEntries_parts:
  "AppendEntries io args r =
     (if ae_Term args < Term r then Some (\<lparr>aer_Term = Term r, aer_Success = False\<rparr>, r)
      else let r1 = follow io (ae_Term args) r
        in if \<not> prev_matches args r1 then Some (\<lparr>aer_Term = Term r1, aer_Success = False\<rparr>, r1)
           else case append_loop (LastIncludedIndex r1) (Entries args) (rlog r1, False, []) of
             None \<Rightarrow> None
           | Some res \<Rightarrow> (let r4 = advance_commit args (store_entries io args res r1)
                          in Some (\<lparr>aer_Term = Term r4, aer_Success = True\<rparr>, r4)))"
  unfolding AppendEntries_def follow_def [symmetric]
  by (auto simp: store_entries_def advance_commit_def Let_def split: option.splits prod.splits)

lemma store_entries_ok:
  assumes "disk_ok r" and "io_works io" and "\<forall>e \<in> set (Entries args). log_entry_ok e"
    and "consecutive (LastIncludedIndex r + 1 + int k) (Entries args)" and "k \<le> length (rlog r)"
  defines "lg \<equiv> take k (rlog r) @ merge_log (drop k (rlog r)) (Entries args)"
  shows "\<exists>res. append_loop (LastIncludedIndex r) (Entries args) (rlog r, False, []) = Some res \<and>
     rlog (store_entries io args res r) = lg \<and> disk_ok (store_entries io args res r) \<and>
     commitIndex (store_entries io args res r) = commitIndex r \<and> lastApplied (store_entries io args res r) = lastApplied r \<and>
     LastIncludedIndex (store_entries io args res r) = LastIncludedIndex r \<and>
     ApplyCh (store_entries io args res r) = ApplyCh r \<and> Term (store_entries io args res r) = Term r \<and>
     votedFor (store_entries io args res r) = votedFor r"
proof -
  obtain rb add where a: "append_loop (LastIncludedIndex r) (Entries args) (rlog r, False, []) = Some (lg, rb, add)"
      "set add \<subseteq> set (Entries args)" "\<not> rb \<longrightarrow> lg = rlog r @ add"
    using append_loop_merges [OF assms(4,5), of False "[]"] unfolding lg_def by auto
  let ?s = "store_entries io args (lg, rb, add) r"
  have f: "log_file_holds (wal r) (rlog r)" using assms(1) by (simp add: disk_ok_def)
  have "set lg \<subseteq> set (rlog r) \<union> set (Entries args)"
    using set_merge_log [of "drop k (rlog r)" "Entries args"] set_take_subset [of k "rlog r"] set_drop_subset [of k "rlog r"]
    unfolding lg_def set_append by blast
  moreover have "\<forall>e \<in> set (rlog r). log_entry_ok e" using f by (simp add: log_file_holds_def)
  ultimately have ok: "\<forall>e \<in> set lg. log_entry_ok e" using assms(3) by blast
  have "disk_ok ?s"
  proof (cases "Entries args = []")
    case True
    then have "lg = rlog r" by (simp add: lg_def)
    then show ?thesis using True assms(1) by (simp add: store_entries_def disk_ok_def)
  next
    case False
    let ?w = "if rb then RebuildLogFile FileOk lg (wal r) else AppendLogs FileOk add (wal r)"
    have "\<forall>e \<in> set add. log_entry_ok e" using a(2) assms(3) by blast
    note ap = AppendLogs_holds [OF f this]
    have "log_file_holds (snd ?w) lg"
      using RebuildLogFile_holds [OF ok, of "wal r"] ap a(3) by (cases rb) auto
    then show ?thesis using False assms(1,2) disk_ok_persist [of "r\<lparr>rlog := lg, wal := snd ?w\<rparr>"]
      by (cases rb) (simp_all add: store_entries_def disk_ok_def Let_def)
  qed
  then show ?thesis using a(1) by (simp add: store_entries_def Let_def)
qed

lemma advance_commit_ok:
  assumes "LastIncludedIndex r \<le> lastApplied r" and "consecutive (LastIncludedIndex r + 1) (rlog r)"
  shows "commitIndex (advance_commit args r) =
       (if commitIndex r < LeaderCommit args then min (LeaderCommit args) (LastIncludedIndex r + int (length (rlog r)))
        else commitIndex r)"
    and "commitIndex r \<le> lastApplied r \<Longrightarrow> ApplyCh (advance_commit args r) = ApplyCh r @
       take (nat (commitIndex (advance_commit args r) - lastApplied r)) (drop (nat (lastApplied r - LastIncludedIndex r)) (rlog r))"
    and "rlog (advance_commit args r) = rlog r" and "Term (advance_commit args r) = Term r"
    and "votedFor (advance_commit args r) = votedFor r" and "wal (advance_commit args r) = wal r"
    and "LastIncludedIndex (advance_commit args r) = LastIncludedIndex r"
proof -
  let ?c = "min (LeaderCommit args) (if rlog r \<noteq> [] then Index (last (rlog r)) else LastIncludedIndex r)"
  have c: "?c = min (LeaderCommit args) (LastIncludedIndex r + int (length (rlog r)))"
    using consecutive_last [OF assms(2)] by simp
  show "commitIndex (advance_commit args r) =
       (if commitIndex r < LeaderCommit args then min (LeaderCommit args) (LastIncludedIndex r + int (length (rlog r)))
        else commitIndex r)"
    unfolding c [symmetric] by (simp add: advance_commit_def)
  show "ApplyCh (advance_commit args r) = ApplyCh r @
       take (nat (commitIndex (advance_commit args r) - lastApplied r)) (drop (nat (lastApplied r - LastIncludedIndex r)) (rlog r))"
    if "commitIndex r \<le> lastApplied r"
    using that apply_loop_delivers [of "r\<lparr>commitIndex := ?c\<rparr>"] assms(1) by (simp add: advance_commit_def)
qed (simp_all add: advance_commit_def)

text \<open>\<open>AppendEntries\<close> on a node with a snapshot: total, with the reference merge as its effect.\<close>

lemma AppendEntries_ok:
  assumes "wf_log r" and "0 < LastIncludedIndex r" and "disk_ok r" and "io_works io" and "in_int64 (ae_Term args)"
    and "0 \<le> PrevLogIndex args" and "consecutive (PrevLogIndex args + 1) (Entries args)"
    and "\<forall>e \<in> set (Entries args). log_entry_ok e"
    and "LastIncludedIndex r \<le> lastApplied r" and "commitIndex r \<le> lastApplied r"
  defines "k \<equiv> nat (PrevLogIndex args - LastIncludedIndex r)"
  defines "ok \<equiv> Term r \<le> ae_Term args \<and> prev_matches args r"
  shows "\<exists>reply r'. AppendEntries io args r = Some (reply, r') \<and> aer_Success reply = ok \<and> aer_Term reply = Term r' \<and>
     Term r' = max (Term r) (ae_Term args) \<and> wf_log r' \<and> disk_ok r' \<and>
     rlog r' = (if ok then take k (rlog r) @ merge_log (drop k (rlog r)) (Entries args) else rlog r) \<and>
     commitIndex r' = (if ok \<and> commitIndex r < LeaderCommit args
        then min (LeaderCommit args) (LastIncludedIndex r + int (length (rlog r'))) else commitIndex r) \<and>
     ApplyCh r' = ApplyCh r @
       take (nat (commitIndex r' - lastApplied r)) (drop (nat (lastApplied r - LastIncludedIndex r)) (rlog r'))"
proof -
  let ?r1 = "follow io (ae_Term args) r"
  have d1: "disk_ok ?r1" by (rule follow_disk [OF assms(3,5,4)])
  have none: "take (nat (commitIndex r - lastApplied r)) xs = []" for xs :: "RaftEntry list" using assms(10) by simp
  consider "ae_Term args < Term r" | "Term r \<le> ae_Term args" "\<not> prev_matches args r"
    | "Term r \<le> ae_Term args" "prev_matches args r" by linarith
  then show ?thesis
  proof cases
    case 1
    then show ?thesis using assms(1,3) by (simp add: AppendEntries_parts ok_def none)
  next
    case 2
    then show ?thesis using assms(1) d1 by (simp add: AppendEntries_parts ok_def none wf_log_def log_base_def Let_def split: if_splits)
  next
    case 3
    note p = prev_position [OF 3(2) assms(2,6)]
    have k: "LastIncludedIndex r + 1 + int k = PrevLogIndex args + 1" "k \<le> length (rlog r)" using p by (simp_all add: k_def)
    let ?lg = "take k (rlog r) @ merge_log (drop k (rlog r)) (Entries args)"
    obtain res where res: "append_loop (LastIncludedIndex r) (Entries args) (rlog r, False, []) = Some res"
        "rlog (store_entries io args res ?r1) = ?lg" "disk_ok (store_entries io args res ?r1)"
        "commitIndex (store_entries io args res ?r1) = commitIndex r" "lastApplied (store_entries io args res ?r1) = lastApplied r"
        "LastIncludedIndex (store_entries io args res ?r1) = LastIncludedIndex r"
        "ApplyCh (store_entries io args res ?r1) = ApplyCh r" "Term (store_entries io args res ?r1) = max (Term r) (ae_Term args)"
      using store_entries_ok [OF d1 assms(4,8), of k] k assms(7) by auto
    let ?s = "store_entries io args res ?r1"
    have b: "consecutive (LastIncludedIndex r + 1) (rlog r)" using assms(1,2) by (simp add: wf_log_def log_base_def)
    have "consecutive (LastIncludedIndex r + 1 + int k) (merge_log (drop k (rlog r)) (Entries args))"
      using consecutive_drop [OF b k(2)] assms(7) by (intro consecutive_merge_log) (simp_all add: k(1))
    then have c: "consecutive (LastIncludedIndex ?s + 1) (rlog ?s)"
      using consecutive_take [OF b, of k] k(2) by (simp add: res)
    have l: "LastIncludedIndex ?s \<le> lastApplied ?s" using assms(9) by (simp add: res)
    note a = advance_commit_ok [OF l c, of args, unfolded res]
    have "AppendEntries io args r = Some (\<lparr>aer_Term = Term (advance_commit args ?s), aer_Success = True\<rparr>, advance_commit args ?s)"
      using 3 res(1) by (simp add: AppendEntries_parts Let_def)
    moreover have "wf_log (advance_commit args ?s)" using c a assms(2) by (simp add: wf_log_def log_base_def res)
    moreover have "disk_ok (advance_commit args ?s)" by (rule disk_ok_same [OF res(3)]) (simp_all add: advance_commit_def)
    ultimately show ?thesis using 3 a assms(10) by (simp add: ok_def max_def)
  qed
qed

section \<open>Votes\<close>

lemma isLogUpToDate_cong:
  "rlog r' = rlog r \<Longrightarrow> LastIncludedIndex r' = LastIncludedIndex r \<Longrightarrow> LastIncludedTerm r' = LastIncludedTerm r \<Longrightarrow>
     isLogUpToDate i t r' = isLogUpToDate i t r"
  by (simp add: isLogUpToDate_def)

lemma RequestVote_parts:
  "RequestVote io args r =
     (if rv_Term args < Term r then (\<lparr>rvr_Term = Term r, VoteGranted = False\<rparr>, r)
      else let r1 = follow io (rv_Term args) r
        in if (votedFor r1 = -1 \<or> votedFor r1 = int (rv_CandidateID args)) \<and>
              isLogUpToDate (rv_LastLogIndex args) (rv_LastLogTerm args) r1
           then (\<lparr>rvr_Term = Term r1, VoteGranted = True\<rparr>,
                 persistStateLocked (state_io io 1) (r1\<lparr>votedFor := int (rv_CandidateID args)\<rparr>))
           else (\<lparr>rvr_Term = Term r1, VoteGranted = False\<rparr>, r1))"
  unfolding RequestVote_def follow_def [symmetric] by (simp add: Let_def)

lemma RequestVote_ok:
  assumes "RequestVote io args r = (reply, r')" and "disk_ok r" and "io_works io" and "in_int64 (rv_Term args)"
    and "rv_CandidateID args < 2 ^ 63"
  shows "disk_ok r'" and "rlog r' = rlog r" and "Term r' = max (Term r) (rv_Term args)" and "rvr_Term reply = Term r'"
    and "VoteGranted reply \<Longrightarrow> Term r' = rv_Term args \<and> votedFor r' = int (rv_CandidateID args)"
    and "\<not> VoteGranted reply \<Longrightarrow> votedFor r' = (if Term r < rv_Term args then -1 else votedFor r)"
    and "VoteGranted reply \<Longrightarrow> rv_Term args = Term r \<Longrightarrow> votedFor r \<in> {-1, int (rv_CandidateID args)}"
proof -
  have f: "disk_ok (follow io (rv_Term args) r)" by (rule follow_disk [OF assms(2,4,3)])
  have "disk_ok (persistStateLocked (state_io io 1) ((follow io (rv_Term args) r)\<lparr>votedFor := int (rv_CandidateID args)\<rparr>))"
    using disk_ok_persist [of "(follow io (rv_Term args) r)\<lparr>votedFor := int (rv_CandidateID args)\<rparr>"] f assms(3)
      in_int64_of_nat [OF assms(5)] by (simp add: disk_ok_def)
  with f show "disk_ok r'" using assms(1,2) by (auto simp: RequestVote_parts Let_def split: if_splits)
  show "rlog r' = rlog r" "Term r' = max (Term r) (rv_Term args)" "rvr_Term reply = Term r'"
    using assms(1) by (auto simp: RequestVote_parts Let_def split: if_splits)
  show "VoteGranted reply \<Longrightarrow> Term r' = rv_Term args \<and> votedFor r' = int (rv_CandidateID args)"
    "\<not> VoteGranted reply \<Longrightarrow> votedFor r' = (if Term r < rv_Term args then -1 else votedFor r)"
    "VoteGranted reply \<Longrightarrow> rv_Term args = Term r \<Longrightarrow> votedFor r \<in> {-1, int (rv_CandidateID args)}"
    using assms(1) by (auto simp: RequestVote_parts Let_def split: if_splits)
qed

lemma AppendEntries_vote:
  assumes "AppendEntries io args r = Some (reply, r')"
  shows "Term r' = max (Term r) (ae_Term args)" and "votedFor r' = (if Term r < ae_Term args then -1 else votedFor r)"
proof -
  have s: "Term (store_entries io args res q) = Term q" "votedFor (store_entries io args res q) = votedFor q" for res q
    by (simp_all add: store_entries_def Let_def split: prod.splits)
  have a: "Term (advance_commit args q) = Term q" "votedFor (advance_commit args q) = votedFor q" for q
    by (simp_all add: advance_commit_def)
  show "Term r' = max (Term r) (ae_Term args)" "votedFor r' = (if Term r < ae_Term args then -1 else votedFor r)"
    using assms by (auto simp: AppendEntries_parts Let_def s a split: if_splits option.splits)
qed

text \<open>What the state file says of the node after \<open>AppendEntries\<close>.\<close>

lemma state_AppendLogs [simp]: "stateFile (snd (AppendLogs io es w)) = stateFile w"
  by (auto simp: AppendLogs_def append_file_def Let_def split: file_io.splits)

lemma state_RebuildLogFile [simp]: "stateFile (snd (RebuildLogFile io es w)) = stateFile w"
  by (simp add: RebuildLogFile_def)

lemma LoadState_same: "stateFile w' = stateFile w \<Longrightarrow> LoadState w' = LoadState w"
  by (simp add: LoadState_def)

definition saved_vote :: "Raft \<Rightarrow> bool" where
  "saved_vote r \<longleftrightarrow> in_int64 (Term r) \<and> in_int64 (votedFor r) \<and> LoadState (wal r) = Inr (Term r, votedFor r)"

lemma saved_vote_persist: "in_int64 (Term r) \<Longrightarrow> in_int64 (votedFor r) \<Longrightarrow> saved_vote (persistStateLocked FileOk r)"
  using persist_saves [of r] by (simp add: saved_vote_def)

lemma saved_vote_follow: "saved_vote r \<Longrightarrow> in_int64 t \<Longrightarrow> io_works io \<Longrightarrow> saved_vote (follow io t r)"
  using saved_vote_persist [of "step_down t r"] by (simp add: follow_def)

end
