(* ===== verification/RaftLog.thy ===== *)
theory RaftLog
  imports RaftCorrect
begin

text \<open>
  Commit, delivery on a single node, the serialised log entries, snapshots and restart.
\<close>

section \<open>Committing\<close>

lemma commit_scan_sound:
  "commit_scan r es = Some n \<Longrightarrow>
     \<exists>e \<in> set es. Index e = n \<and> commitIndex r < n \<and> EntryTerm e = Term r \<and> length (peers r) div 2 < replicas r n"
  by (induction r es rule: commit_scan.induct) (auto split: if_splits)

lemma commit_scan_complete:
  "commit_scan r es = None \<Longrightarrow> e \<in> set es \<Longrightarrow> commitIndex r < Index e \<Longrightarrow> EntryTerm e = Term r \<Longrightarrow>
     replicas r (Index e) \<le> length (peers r) div 2"
  by (induction r es rule: commit_scan.induct) (auto split: if_splits)

lemma updateCommitIndex_fields:
  assumes "updateCommitIndex cfg r = (t, r')"
  shows "commitIndex r' = (if state r = Leader then
       (case commit_scan r (rev (rlog r)) of None \<Rightarrow> commitIndex r | Some n \<Rightarrow> n) else commitIndex r)"
    and "rlog r' = rlog r" and "Term r' = Term r" and "state r' = state r" and "wal r' = wal r"
    and "votedFor r' = votedFor r"
  using assms by (auto simp: updateCommitIndex_def applyCommittedLogs_def Let_def split: if_splits option.splits)

section \<open>A single node\<close>

lemma AppendEntry_single:
  fixes cmd :: bytes and io :: file_io
  assumes "state r = Leader" and "length (peers r) = 1" and "wf_log r"
  defines "e \<equiv> \<lparr>Index = log_base r + int (length (rlog r)), EntryTerm = Term r, Command = cmd, IsSnapshot = False\<rparr>"
  defines "r1 \<equiv> r\<lparr>rlog := rlog r @ [e], wal := snd (AppendLog io e (wal r)), commitIndex := Index e\<rparr>"
  shows "AppendEntry cfg io cmd r = Some (Some (Index e, [], checkSnapshotTrigger cfg (apply_loop r1)), apply_loop r1)"
  using assms next_index_wf [OF assms(3)] by (simp add: AppendEntry_def applyCommittedLogs_def Let_def add.commute split del: if_split)

fun append_all :: "RaftConfig \<Rightarrow> file_io \<Rightarrow> bytes list \<Rightarrow> Raft \<Rightarrow> Raft option" where
  "append_all cfg io [] r = Some r"
| "append_all cfg io (c # cs) r =
     (case AppendEntry cfg io c r of None \<Rightarrow> None | Some (_, r') \<Rightarrow> append_all cfg io cs r')"

text \<open>Without a snapshot, what has been delivered is one entry behind what is committed.\<close>

definition lagging :: "Raft \<Rightarrow> bool" where
  "lagging r \<longleftrightarrow> state r = Leader \<and> length (peers r) = 1 \<and> wf_log r \<and> LastIncludedIndex r = 0 \<and>
     commitIndex r = int (length (rlog r)) - 1 \<and> lastApplied r = commitIndex r \<and> ApplyCh r = butlast (rlog r) \<and>
     (\<forall>e \<in> set (rlog r). \<not> IsSnapshot e)"

lemma apply_first:
  assumes "LastIncludedIndex r = 0" and "lastApplied r = -1" and "0 \<le> commitIndex r"
  shows "apply_loop r = apply_loop (r\<lparr>lastApplied := 0\<rparr>)"
  using assms by (subst apply_loop.simps) (simp add: Let_def)

lemma lagging_append:
  assumes "lagging r"
  shows "\<exists>x r'. AppendEntry cfg io cmd r = Some (x, r') \<and> lagging r' \<and> map Command (rlog r') = map Command (rlog r) @ [cmd]"
proof -
  have l: "state r = Leader" "length (peers r) = 1" "wf_log r" "LastIncludedIndex r = 0"
      "commitIndex r = int (length (rlog r)) - 1" "lastApplied r = commitIndex r" "ApplyCh r = butlast (rlog r)" "\<forall>e \<in> set (rlog r). \<not> IsSnapshot e"
    using assms by (simp_all add: lagging_def)
  define e where "e = \<lparr>Index = log_base r + int (length (rlog r)), EntryTerm = Term r, Command = cmd, IsSnapshot = False\<rparr>"
  define r1 where "r1 = r\<lparr>rlog := rlog r @ [e], wal := snd (AppendLog io e (wal r)), commitIndex := Index e\<rparr>"
  have b: "log_base r = 0" using l(4) by (simp add: log_base_def)
  have a: "AppendEntry cfg io cmd r = Some (Some (Index e, [], checkSnapshotTrigger cfg (apply_loop r1)), apply_loop r1)"
    using AppendEntry_single [OF l(1-3)] unfolding e_def r1_def by blast
  have "ApplyCh (apply_loop r1) = rlog r \<and> lastApplied (apply_loop r1) = Index e"
  proof (cases "rlog r = []")
    case True
    then have "apply_loop r1 = apply_loop (r1\<lparr>lastApplied := 0\<rparr>)"
      using l b by (intro apply_first) (simp_all add: r1_def e_def)
    then show ?thesis using apply_loop_delivers [of "r1\<lparr>lastApplied := 0\<rparr>"] True l b by (simp add: r1_def e_def)
  next
    case False
    then have n: "0 < length (rlog r)" by simp
    have "take (nat (commitIndex r1 - lastApplied r1)) (drop (nat (lastApplied r1 - LastIncludedIndex r1)) (rlog r1)) = [last (rlog r)]"
      using n l b by (cases "rlog r" rule: rev_cases) (simp_all add: r1_def e_def nat_diff_distrib)
    then show ?thesis using apply_loop_delivers [of r1] l n b False by (simp add: r1_def e_def)
  qed
  moreover have "wf_log (apply_loop r1)" using l(3) b l(4) by (simp add: wf_log_def log_base_def r1_def e_def)
  ultimately have "lagging (apply_loop r1)" using l b by (simp add: lagging_def r1_def e_def)
  then show ?thesis using a by (simp add: r1_def e_def)
qed

lemma lagging_append_all:
  assumes "lagging r"
  shows "\<exists>r'. append_all cfg io cmds r = Some r' \<and> lagging r' \<and> map Command (rlog r') = map Command (rlog r) @ cmds"
  using assms
proof (induction cmds arbitrary: r)
  case (Cons c cmds)
  obtain x r1 where r1: "AppendEntry cfg io c r = Some (x, r1)" "lagging r1" "map Command (rlog r1) = map Command (rlog r) @ [c]"
    using lagging_append [OF Cons.prems] by blast
  with Cons.IH [OF r1(2)] show ?case by auto
qed simp

section \<open>Serialised entries\<close>

lemma get_be_i64: "seg f p (put_i64 i) \<Longrightarrow> get_be (take 8 (drop p f)) = nat_of_int64 i"
  using nat_of_int64_bound [of i] by (simp add: seg_def put_i64_def get_put_be)

lemma deserialize_step:
  assumes "seg data off (enc_log e)" and "log_entry_ok e" and "length data < 2 ^ 63"
  shows "deserialize_loop (Suc n) data off = map_option (Cons e) (deserialize_loop n data (off + length (enc_log e)))"
proof -
  have s: "seg data off (put_i64 (Index e))" "seg data (off + 8) (put_i64 (EntryTerm e))"
      "seg data (off + 16) (put_i64 (int (length (Command e))))" "seg data (off + 24) (Command e)"
    using assms(1) by (simp_all add: enc_log_def seg_append add.assoc)
  have l: "off + 24 + length (Command e) \<le> length data" using seg_length [OF s(4)] .
  have c: "int64_of (get_be (take 8 (drop (off + 16) data))) = int (length (Command e))"
    using get_be_i64 [OF s(3)] assms(2) int64_of_nat_of_int64 [OF in_int64_of_nat] by (simp add: log_entry_ok_def)
  have i: "int64_of (get_be (take 8 (drop off data))) = Index e" "int64_of (get_be (take 8 (drop (off + 8) data))) = EntryTerm e"
    using get_be_i64 [OF s(1)] get_be_i64 [OF s(2)] assms(2) int64_of_nat_of_int64 by (simp_all add: log_entry_ok_def)
  have "take (length (Command e)) (drop (off + 24) data) = Command e" using s(4) by (simp add: seg_def)
  moreover have "\<not> 2 ^ 63 \<le> int (off + 24) + int (length (Command e))" "\<not> int (length data) < int (off + 24) + int (length (Command e))"
    "\<not> length data < off + 24"
    using l assms(3) by simp_all
  moreover have "\<lparr>Index = Index e, EntryTerm = EntryTerm e, Command = Command e, IsSnapshot = False\<rparr> = e"
    using assms(2) by (simp add: log_entry_ok_def)
  ultimately show ?thesis by (simp only: deserialize_loop.simps Let_def c i length_enc_log if_False nat_int of_nat_less_0_iff simp_thms add.assoc)
qed

lemma deserialize_entries:
  assumes "data = a @ concat (map enc_log es) @ c" and "\<forall>e \<in> set es. log_entry_ok e" and "length data < 2 ^ 63"
  shows "deserialize_loop (length es) data (length a) = Some es"
  using assms(1,2)
proof (induction es arbitrary: a)
  case (Cons e es)
  have d: "data = (a @ enc_log e) @ concat (map enc_log es) @ c" using Cons.prems by simp
  have "seg data (length a) (enc_log e)" by (rule segI [of _ a _ "concat (map enc_log es) @ c"]) (simp_all add: d)
  from deserialize_step [OF this _ assms(3), of "length es"] Cons.IH [OF d] Cons.prems show ?case by simp
qed simp

lemma serialize_round_trip:
  assumes "\<forall>e \<in> set es. log_entry_ok e" and "length es < 2 ^ 32" and "length (SerializeLogEntries es) < 2 ^ 63"
  shows "DeserializeLogEntries (SerializeLogEntries es) = Some es"
proof (cases "es = []")
  case False
  let ?d = "put_be 4 (length es) @ concat (map enc_log es) @ []"
  have "deserialize_loop (length es) ?d (length (put_be 4 (length es))) = Some es"
    using assms False by (intro deserialize_entries [OF refl]) (simp_all add: SerializeLogEntries_def)
  then show ?thesis using False assms(2) by (simp add: DeserializeLogEntries_def SerializeLogEntries_def get_put_be)
qed (simp add: DeserializeLogEntries_def SerializeLogEntries_def)

section \<open>Snapshots\<close>

text \<open>The cleanup keeps a snapshot that has just been saved.\<close>

lemma LoadLatestSnapshot_cleaned:
  assumes "SaveSnapshot FileOk data i t w = (r, w')" and "0 < i" and "in_int64 i" and "in_int64 t"
    and "length data < 2 ^ 63" and "\<forall>files. snapshots w = Some files \<longrightarrow> snap_top i files"
  shows "LoadLatestSnapshot (DeleteOldSnapshots rms i w') = Some (Inr (Some data, i, t))"
proof -
  define files where "files = (case snapshots w of None \<Rightarrow> [] | Some fs \<Rightarrow> fs)"
  let ?new = "(snap_name i t, enc_snapshot data i t)"
  let ?keep = "\<lambda>(name, _). \<not> (case snap_index name of Some j \<Rightarrow> j < i \<and> rms name | None \<Rightarrow> False)"
  have top: "snap_top i files" using assms(6) by (cases "snapshots w") (auto simp: files_def snap_top_def)
  obtain xs ys zs where x: "files = xs @ ys" "ins_sorted (snap_name i t) (enc_snapshot data i t) files = xs @ ?new # zs"
      "set zs \<subseteq> set ys"
    using ins_sorted_split [of files "snap_name i t" "enc_snapshot data i t"] by metis
  have n: "snap_index (snap_name i t) = Some i" using snap_index_name [of i t] assms(2,3) by simp
  have "snapshots w' = Some (xs @ ?new # zs)" using assms(1) x(2) by (auto simp: SaveSnapshot_def Let_def files_def)
  then have "snapshots (DeleteOldSnapshots rms i w') = Some (filter ?keep xs @ ?new # filter ?keep zs)"
    using n by (simp add: DeleteOldSnapshots_def)
  moreover have "snap_top i (filter ?keep xs @ filter ?keep zs)"
    using top x(1,3) unfolding snap_top_def by fastforce
  then have "latest_snap (filter ?keep xs @ ?new # filter ?keep zs) (0, None) = (i, Some (enc_snapshot data i t))"
    by (rule latest_snap_new [OF _ n assms(2)])
  ultimately show ?thesis by (simp add: LoadLatestSnapshot_def read_snapshot_file [OF assms(3-5)])
qed

lemma log_file_snapshots:
  "log_file_holds (snd (SaveSnapshot io d i t w)) es = log_file_holds w es"
  "log_file_holds (DeleteOldSnapshots rms i w) es = log_file_holds w es"
  by (auto simp: SaveSnapshot_def DeleteOldSnapshots_def log_file_holds_def Let_def split: file_io.splits option.splits)

lemma snapshots_TruncateLogs: "TruncateLogs FileOk i w = Some (x, w') \<Longrightarrow> LoadLatestSnapshot w' = LoadLatestSnapshot w"
proof -
  assume "TruncateLogs FileOk i w = Some (x, w')"
  then have "snapshots w' = snapshots w"
    by (auto simp: TruncateLogs_def AppendLogs_def append_file_def Let_def split: option.splits if_splits)
  then show ?thesis by (simp add: LoadLatestSnapshot_def)
qed

lemma LoadLatestSnapshot_persist [simp]: "LoadLatestSnapshot (wal (persistStateLocked io r)) = LoadLatestSnapshot (wal r)"
  by (auto simp: persistStateLocked_def SaveState_def LoadLatestSnapshot_def Let_def split: file_io.splits)

text \<open>
  \<open>TakeSnapshot\<close> with working files, whatever the snapshot before: the first \<open>index + 1 - LastIncludedIndex\<close> entries go
  into the snapshot, the rest is renumbered from \<open>index + 1\<close>; the file keeps what it holds above \<open>index\<close>.
\<close>

lemma TakeSnapshot_works:
  fixes index :: int
  assumes "lastSnapshotIndex r < index" and "index \<le> commitIndex r" and "0 < index" and "in_int64 index"
    and "log_file_holds (wal r) (rlog r)" and "in_int64 (Term r)" and "in_int64 (votedFor r)" and "io_works io"
    and "\<forall>files. snapshots (wal r) = Some files \<longrightarrow> snap_top index files"
    and "LastIncludedIndex r \<le> index" and "rlog r \<noteq> []"
  defines "n \<equiv> nat (index + 1 - LastIncludedIndex r)"
  assumes "length (SerializeLogEntries (take n (rlog r))) < 2 ^ 63"
  shows "\<exists>r'. TakeSnapshot io index r = Some (Inr (), r') \<and>
     rlog r' = cut_log (int n) (index + 1) (rlog r) \<and> LastIncludedIndex r' = index \<and> lastSnapshotIndex r' = index \<and>
     LastIncludedTerm r' = EntryTerm (last (take n (rlog r))) \<and>
     log_file_holds (wal r') (filter (\<lambda>e. index < Index e) (rlog r)) \<and>
     LoadState (wal r') = Inr (Term r, votedFor r) \<and> Term r' = Term r \<and> votedFor r' = votedFor r \<and>
     LoadLatestSnapshot (wal r') = Some (Inr (Some (SerializeLogEntries (take n (rlog r))), index, LastIncludedTerm r'))"
proof -
  let ?es = "take n (rlog r)"
  let ?t = "EntryTerm (last ?es)"
  let ?d = "SerializeLogEntries ?es"
  have n: "int n = index + 1 - LastIncludedIndex r" "?es \<noteq> []" using assms(10,11) by (auto simp: n_def)
  have "last ?es \<in> set (rlog r)" by (rule in_set_takeD [OF last_in_set [OF n(2)]])
  then have t: "in_int64 ?t" using assms(5) by (auto simp: log_file_holds_def log_entry_ok_def)
  obtain w1 where s: "SaveSnapshot FileOk ?d index ?t (wal r) = (Inr (), w1)"
    by (simp add: SaveSnapshot_def Let_def)
  let ?w2 = "DeleteOldSnapshots (rm_snap io) index w1"
  have "log_file_holds ?w2 (rlog r)" using log_file_snapshots s assms(5) by (metis snd_conv)
  then obtain w3 where w3: "TruncateLogs FileOk index ?w2 = Some (Inr (), w3)"
      "log_file_holds w3 (filter (\<lambda>e. index < Index e) (rlog r))"
    using TruncateLogs_holds by blast
  define r1 where "r1 = r\<lparr>wal := w3, rlog := cut_log (int n) (index + 1) (rlog r), lastSnapshotIndex := index,
     LastIncludedIndex := index, LastIncludedTerm := ?t\<rparr>"
  define r2 where "r2 = (if ch_room io then r1\<lparr>ApplyCh := ApplyCh r1 @ [snap_entry index ?t ?d]\<rparr> else r1)"
  have "TakeSnapshot io index r = Some (Inr (), persistStateLocked FileOk r2)"
    using assms(1,2,8) n s w3(1) by (simp add: TakeSnapshot_def Let_def n_def r2_def r1_def)
  moreover have "LoadLatestSnapshot w3 = Some (Inr (Some ?d, index, ?t))"
    using LoadLatestSnapshot_cleaned [OF s assms(3,4) t] assms(9,13) snapshots_TruncateLogs [OF w3(1)] by simp
  moreover have f: "rlog r2 = rlog r1" "wal r2 = w3" "Term r2 = Term r" "votedFor r2 = votedFor r"
      "LastIncludedIndex r2 = index" "lastSnapshotIndex r2 = index" "LastIncludedTerm r2 = ?t"
    by (simp_all add: r2_def r1_def)
  moreover have "LoadState (wal (persistStateLocked FileOk r2)) = Inr (Term r, votedFor r)"
    using persist_saves [of r2] assms(6,7) f by simp
  ultimately show ?thesis using w3(2) by (simp add: r1_def)
qed

lemma cut_log_consecutive:
  assumes "consecutive (first - int n) lg" and "n \<le> length lg"
  shows "cut_log (int n) first lg = drop n lg"
proof (rule nth_equalityI)
  show "length (cut_log (int n) first lg) = length (drop n lg)" using assms(2) by (simp add: cut_log_def)
  show "cut_log (int n) first lg ! i = drop n lg ! i" if "i < length (cut_log (int n) first lg)" for i
  proof -
    have i: "n + i < length lg" using that assms(2) by (simp add: cut_log_def)
    then have "Index (lg ! (n + i)) = first + int i" using assms(1) by (simp add: consecutive_def)
    then have "(lg ! (n + i))\<lparr>Index := first + int i\<rparr> = lg ! (n + i)" by (cases "lg ! (n + i)") simp
    then show ?thesis using i by (simp add: cut_log_def nth_enumerate_eq)
  qed
qed

lemma filter_consecutive:
  assumes "consecutive b lg" and "n \<le> length lg"
  shows "filter (\<lambda>e. b + int n - 1 < Index e) lg = drop n lg"
proof -
  have "filter (\<lambda>e. b + int n - 1 < Index e) (take n lg @ drop n lg) = [] @ drop n lg"
    unfolding filter_append
  proof (rule arg_cong2 [where f = append])
    show "filter (\<lambda>e. b + int n - 1 < Index e) (take n lg) = []"
      using assms by (auto simp: filter_empty_conv in_set_conv_nth consecutive_def)
    show "filter (\<lambda>e. b + int n - 1 < Index e) (drop n lg) = drop n lg"
      using assms by (auto simp: filter_id_conv in_set_conv_nth consecutive_def)
  qed
  then show ?thesis by simp
qed

section \<open>Restart\<close>

lemma restart_loads:
  assumes "log_file_holds (wal r) lg" and "LoadState (wal r) = Inr (t, v)"
    and "LoadLatestSnapshot (wal r) = Some (Inr (d, li, lt))" and "d = None \<longrightarrow> li = 0 \<and> lt = 0" and "d \<noteq> None \<longrightarrow> 0 < li"
  shows "\<exists>r'. NewRaftWithDataDir ps i (wal r) = Some r' \<and> Term r' = t \<and> votedFor r' = v \<and> rlog r' = lg \<and>
     LastIncludedIndex r' = li \<and> LastIncludedTerm r' = lt \<and> state r' = Follower \<and> wal r' = wal r \<and>
     commitIndex r' = (if d = None then -1 else li) \<and> lastApplied r' = commitIndex r' \<and>
     ApplyCh r' = (case d of None \<Rightarrow> [] | Some bs \<Rightarrow> [snap_entry li lt bs])"
proof -
  have "LoadPersist (wal r) = Some (Inr \<lparr>CurrentTerm = t, VotedFor = v, Log = lg, pd_LastIncludedIndex = li, pd_LastIncludedTerm = lt\<rparr>)"
    using assms(2-4) LoadLogs_holds [OF assms(1)] by (cases d) (simp_all add: LoadPersist_def)
  then show ?thesis using assms(3-5)
    by (cases d) (simp_all add: NewRaftWithDataDir_def readPersist_def new_node_def snap_entry_def)
qed

end
