(* ===== verification/Cluster.thy ===== *)
theory Cluster
  imports RaftLog
begin

text \<open>
  Several nodes: the calls between them (the senders of \<open>Raft/rpc.go\<close>), a whole election of \<open>raft.go\<close> with its timer
  loop, and the replication of a command from the leader to its peers. A call that cannot connect has no effect; one
  whose reply is lost has been handled by the peer.
\<close>

section \<open>Calls\<close>

datatype link = Up | NoDial | NoReply

definition SendRequestVote :: "link \<Rightarrow> RaftIO \<Rightarrow> RequestVoteArgs \<Rightarrow> Raft \<Rightarrow> RequestVoteReply option \<times> Raft" where
  "SendRequestVote lk io args peer =
     (if lk = NoDial then (None, peer)
      else let (reply, peer') = RequestVote io args peer in (if lk = Up then Some reply else None, peer'))"

text \<open>The outer \<open>None\<close>: the handler panics and takes the peer down.\<close>

definition SendAppendEntries :: "link \<Rightarrow> RaftIO \<Rightarrow> AppendEntriesArgs \<Rightarrow> Raft \<Rightarrow> (AppendEntriesReply option \<times> Raft) option" where
  "SendAppendEntries lk io args peer =
     (if lk = NoDial then Some (None, peer)
      else map_option (\<lambda>(reply, peer'). (if lk = Up then Some reply else None, peer')) (AppendEntries io args peer))"

definition SendInstallSnapshot :: "link \<Rightarrow> RaftIO \<Rightarrow> InstallSnapshotArgs \<Rightarrow> Raft \<Rightarrow> (InstallSnapshotReply option \<times> Raft) option" where
  "SendInstallSnapshot lk io args peer =
     (if lk = NoDial then Some (None, peer)
      else map_option (\<lambda>(reply, peer'). (if lk = Up then Some reply else None, peer')) (InstallSnapshot io args peer))"

section \<open>Elections\<close>

text \<open>What the counting loop of \<open>startElection\<close> sees, in the order of arrival.\<close>

datatype arrival = Reply "RequestVoteReply option" | Timeout

fun vote_loop :: "nat \<Rightarrow> nat \<Rightarrow> nat \<Rightarrow> arrival list \<Rightarrow> Raft \<Rightarrow> election_result \<times> Raft" where
  "vote_loop n votes 0 evs r = (NoMajority, r)"
| "vote_loop n votes (Suc j) [] r = (Undecided, r)"
| "vote_loop n votes (Suc j) (Timeout # evs) r = (TimedOut, r)"
| "vote_loop n votes (Suc j) (Reply reply # evs) r =
     (let (granted, r1) = on_vote_reply reply r
      in if granted
         then if n div 2 < votes + 1 then (Won, r1) else vote_loop n (votes + 1) j evs r1
         else vote_loop n votes j evs r1)"

text \<open>
  After the requests have been sent: a single node wins; otherwise the loop first receives the vote that the candidate
  put on the channel itself.
\<close>

definition finish_election :: "arrival list \<Rightarrow> Raft \<Rightarrow> Raft" where
  "finish_election evs r =
     (let n = length (peers r)
      in if n - 1 = 0 then election_end Won r
         else let (res, r1) = (if n div 2 < 2 then (Won, r) else vote_loop n 2 (n - 2) evs r)
           in election_end res r1)"

definition startElection :: "file_io \<Rightarrow> arrival list \<Rightarrow> Raft \<Rightarrow> Raft" where
  "startElection io evs r =
     (case election_begin io r of None \<Rightarrow> r | Some (args, r1) \<Rightarrow> finish_election evs r1)"

text \<open>The timer, in nanoseconds: \<open>rnd\<close> is the result of \<open>rand.Int63n\<close>, which is below its argument.\<close>

definition MinElectionTimeout :: int where "MinElectionTimeout = 150 * 10 ^ 6"
definition MaxElectionTimeout :: int where "MaxElectionTimeout = 300 * 10 ^ 6"

definition resetElectionTimer :: "(int \<Rightarrow> int) \<Rightarrow> int" where
  "resetElectionTimer int63n = MinElectionTimeout + int63n (MaxElectionTimeout - MinElectionTimeout)"

text \<open>A turn of \<open>electionLoop\<close>: the timer has fired, or a heartbeat or a vote was seen. Each ends with a new timeout.\<close>

datatype loop_event = TimerFired file_io "arrival list" | HeartbeatSeen | ElectionSeen

definition electionLoop_turn :: "(int \<Rightarrow> int) \<Rightarrow> loop_event \<Rightarrow> Raft \<Rightarrow> int \<times> Raft" where
  "electionLoop_turn int63n ev r =
     (resetElectionTimer int63n, case ev of TimerFired io evs \<Rightarrow> startElection io evs r | _ \<Rightarrow> r)"

text \<open>A turn of the goroutine of \<open>startHeartbeatLoop\<close>: the messages at a tick, while the node leads.\<close>

definition heartbeat_tick :: "Raft \<Rightarrow> (nat \<times> message option) list option" where
  "heartbeat_tick r = (if state r = Leader then Some (SendHeartBeat r) else None)"

text \<open>What callers see of a node; \<open>WaitCommitIndex\<close> returns when its condition holds.\<close>

definition GetState :: "Raft \<Rightarrow> State \<times> int" where
  "GetState r = (state r, Term r)"

definition GetLog :: "Raft \<Rightarrow> RaftEntry list" where
  "GetLog r = rlog r"

definition GetCommitIndex :: "Raft \<Rightarrow> int" where
  "GetCommitIndex r = commitIndex r"

definition WaitCommitIndex :: "int \<Rightarrow> Raft \<Rightarrow> bool" where
  "WaitCommitIndex index r \<longleftrightarrow> \<not> commitIndex r < index"

section \<open>Rounds\<close>

text \<open>A candidate asks the peers \<open>js\<close>: their replies and the nodes afterwards.\<close>

fun vote_round :: "(nat \<Rightarrow> link) \<Rightarrow> (nat \<Rightarrow> RaftIO) \<Rightarrow> RequestVoteArgs \<Rightarrow> nat list \<Rightarrow> Raft list \<Rightarrow> arrival list \<times> Raft list" where
  "vote_round links ios args [] ns = ([], ns)"
| "vote_round links ios args (j # js) ns =
     (let (reply, p) = SendRequestVote (links j) (ios j) args (ns ! j);
          (evs, ns') = vote_round links ios args js (ns[j := p])
      in (Reply reply # evs, ns'))"

definition others :: "Raft \<Rightarrow> nat list" where
  "others r = filter (\<lambda>j. j \<noteq> me r) [0..<length (peers r)]"

definition election_round :: "file_io \<Rightarrow> (nat \<Rightarrow> link) \<Rightarrow> (nat \<Rightarrow> RaftIO) \<Rightarrow> nat \<Rightarrow> Raft list \<Rightarrow> Raft list" where
  "election_round io links ios i ns =
     (case election_begin io (ns ! i) of
        None \<Rightarrow> ns
      | Some (args, r1) \<Rightarrow>
         (let (evs, ns') = vote_round links ios args (others r1) (ns[i := r1])
          in ns'[i := finish_election evs (ns' ! i)]))"

text \<open>The messages of the leader \<open>i\<close> with the handlers of their replies.\<close>

fun replicate_round ::
    "RaftConfig \<Rightarrow> (nat \<Rightarrow> link) \<Rightarrow> (nat \<Rightarrow> RaftIO) \<Rightarrow> nat \<Rightarrow> (nat \<times> message) list \<Rightarrow> Raft list \<Rightarrow> Raft list option" where
  "replicate_round cfg links ios i [] ns = Some ns"
| "replicate_round cfg links ios i ((j, AppendMsg a) # ms) ns =
     (case SendAppendEntries (links j) (ios j) a (ns ! j) of
        None \<Rightarrow> None
      | Some (reply, p) \<Rightarrow>
         (let ns1 = ns[j := p]
          in replicate_round cfg links ios i ms (ns1[i := snd (on_append_reply cfg j reply (ns1 ! i))])))"
| "replicate_round cfg links ios i ((j, SnapMsg a) # ms) ns =
     (case SendInstallSnapshot (links j) (ios j) a (ns ! j) of
        None \<Rightarrow> None
      | Some (reply, p) \<Rightarrow>
         (let ns1 = ns[j := p]
          in replicate_round cfg links ios i ms (ns1[i := on_install_reply j reply (ns1 ! i)])))"

text \<open>A command at the leader, with its replication.\<close>

definition cluster_command ::
    "RaftConfig \<Rightarrow> file_io \<Rightarrow> (nat \<Rightarrow> link) \<Rightarrow> (nat \<Rightarrow> RaftIO) \<Rightarrow> nat \<Rightarrow> bytes \<Rightarrow> Raft list \<Rightarrow> Raft list option" where
  "cluster_command cfg io links ios i cmd ns =
     (case AppendEntry cfg io cmd (ns ! i) of
        None \<Rightarrow> None
      | Some (None, r) \<Rightarrow> Some ns
      | Some (Some (_, ms, _), r) \<Rightarrow> replicate_round cfg links ios i ms (ns[i := r]))"

fun cluster_commands ::
    "RaftConfig \<Rightarrow> file_io \<Rightarrow> (nat \<Rightarrow> link) \<Rightarrow> (nat \<Rightarrow> RaftIO) \<Rightarrow> nat \<Rightarrow> bytes list \<Rightarrow> Raft list \<Rightarrow> Raft list option" where
  "cluster_commands cfg io links ios i [] ns = Some ns"
| "cluster_commands cfg io links ios i (c # cs) ns =
     (case cluster_command cfg io links ios i c ns of
        None \<Rightarrow> None
      | Some ns' \<Rightarrow> cluster_commands cfg io links ios i cs ns')"

section \<open>The timer and the own vote\<close>

lemma resetElectionTimer_bounds:
  assumes "\<forall>n > 0. 0 \<le> int63n n \<and> int63n n < n"
  shows "MinElectionTimeout \<le> resetElectionTimer int63n \<and> resetElectionTimer int63n < MaxElectionTimeout"
  using assms [rule_format, of "MaxElectionTimeout - MinElectionTimeout"]
  by (simp add: resetElectionTimer_def MinElectionTimeout_def MaxElectionTimeout_def)

text \<open>The election as the fragments of \<open>Raft\<close> describe it.\<close>

lemma vote_loop_collect:
  assumes "\<forall>ev \<in> set evs. \<exists>a. ev = Reply (Some a) \<and> rvr_Term a \<le> Term r"
  shows "vote_loop n votes j evs r =
    (collect_votes n votes j (map (\<lambda>ev. case ev of Reply rep \<Rightarrow> Vote (fst (on_vote_reply rep r)) | Timeout \<Rightarrow> VoteTimeout) evs), r)"
  using assms
proof (induction n votes j evs r rule: vote_loop.induct)
  case (4 n votes j reply evs r)
  then obtain a where a: "reply = Some a" "rvr_Term a \<le> Term r" by auto
  then have "on_vote_reply reply r = (rvr_Term a = Term r \<and> VoteGranted a, r)" by (simp add: on_vote_reply_def)
  then show ?case using 4 a by auto
qed auto

end
