(* ===== verification/ClusterCorrect.thy ===== *)
theory ClusterCorrect
  imports Cluster
begin

text \<open>
  A cluster whose leader can reach some of its peers: what an election and the replication of commands do to every
  node. \<open>U\<close> is the set of the peers that can be reached.
\<close>

section \<open>The leader and the replies\<close>

lemma commit_scan_none:
  "\<forall>e \<in> set es. EntryTerm e = Term r \<longrightarrow> Index e \<le> commitIndex r \<Longrightarrow> commit_scan r es = None"
  by (induction es) auto

text \<open>\<open>r0\<close> has just appended \<open>e\<close> to a log whose entries of the current term are committed.\<close>

definition appended :: "RaftEntry list \<Rightarrow> RaftEntry \<Rightarrow> Raft \<Rightarrow> bool" where
  "appended lg e r0 \<longleftrightarrow> rlog r0 = lg @ [e] \<and> wf_log r0 \<and> 0 < LastIncludedIndex r0 \<and> state r0 = Leader \<and>
     EntryTerm e = Term r0 \<and> (\<forall>x \<in> set lg. EntryTerm x = Term r0 \<longrightarrow> Index x \<le> commitIndex r0) \<and>
     LastIncludedIndex r0 \<le> commitIndex r0 \<and> commitIndex r0 \<le> LastIncludedIndex r0 + int (length lg) \<and>
     lastApplied r0 = commitIndex r0 \<and> 2 \<le> length (peers r0)"

lemma appended_index:
  assumes "appended lg e r0"
  shows "Index e = LastIncludedIndex r0 + int (length lg) + 1"
proof -
  have "consecutive (LastIncludedIndex r0 + 1) (lg @ [e])" using assms by (auto simp: appended_def wf_log_def log_base_def)
  then show ?thesis by simp
qed

text \<open>What stays as it is while the replies come in.\<close>

definition same_leader :: "Raft \<Rightarrow> Raft \<Rightarrow> bool" where
  "same_leader r0 r \<longleftrightarrow> peers r = peers r0 \<and> me r = me r0 \<and> state r = state r0 \<and> Term r = Term r0 \<and> votedFor r = votedFor r0 \<and>
     rlog r = rlog r0 \<and> LastIncludedIndex r = LastIncludedIndex r0 \<and> LastIncludedTerm r = LastIncludedTerm r0 \<and> wal r = wal r0 \<and>
     length (nextIndex r) = length (peers r0) \<and> length (matchIndex r) = length (peers r0)"

text \<open>The leader after the replies of the peers \<open>P\<close>; the rest have failed or are still out.\<close>

definition acked :: "RaftEntry \<Rightarrow> Raft \<Rightarrow> nat set \<Rightarrow> Raft \<Rightarrow> bool" where
  "acked e r0 P r \<longleftrightarrow> same_leader r0 r \<and>
     (\<forall>j < length (peers r0). if j \<in> P then matchIndex r ! j = Index e \<and> nextIndex r ! j = Index e + 1
                               else matchIndex r ! j < Index e) \<and>
     (if length (peers r0) div 2 < 1 + card P
      then commitIndex r = Index e \<and> lastApplied r = Index e \<and>
        ApplyCh r = ApplyCh r0 @ drop (nat (commitIndex r0 - LastIncludedIndex r0)) (rlog r0)
      else commitIndex r = commitIndex r0 \<and> lastApplied r = commitIndex r0 \<and> ApplyCh r = ApplyCh r0)"

lemma acked_replicas:
  assumes "same_leader r0 r" and "P \<subseteq> {..<length (peers r0)} - {me r0}"
    and "\<forall>j < length (peers r0). (if j \<in> P then matchIndex r ! j = n else matchIndex r ! j < n)"
  shows "replicas r n = 1 + card P"
proof -
  have "filter (\<lambda>j. j \<noteq> me r \<and> n \<le> matchIndex r ! j) [0..<length (peers r)] = filter (\<lambda>j. j \<in> P) [0..<length (peers r)]"
  proof (rule filter_cong [OF refl])
    fix j assume "j \<in> set [0..<length (peers r)]"
    then have "j < length (peers r0)" using assms(1) by (simp add: same_leader_def)
    then show "(j \<noteq> me r \<and> n \<le> matchIndex r ! j) = (j \<in> P)" using assms by (auto simp: same_leader_def split: if_splits)
  qed
  moreover have "length (filter (\<lambda>j. j \<in> P) [0..<length (peers r)]) = card P"
  proof -
    have "set (filter (\<lambda>j. j \<in> P) [0..<length (peers r)]) = P" using assms(1,2) by (auto simp: same_leader_def)
    then show ?thesis using distinct_card [of "filter (\<lambda>j. j \<in> P) [0..<length (peers r)]"] by simp
  qed
  ultimately show ?thesis by (simp add: replicas_def)
qed

lemma last_log_index:
  assumes "appended lg e r0" and "same_leader r0 r"
  shows "getLastLogIndex r = Index e"
  using assms by (simp add: appended_def same_leader_def getLastLogIndex_def)

lemma apply_new:
  assumes "appended lg e r0" and "rlog r = rlog r0" and "LastIncludedIndex r = LastIncludedIndex r0"
    and "lastApplied r = commitIndex r0" and "commitIndex r = Index e"
  shows "lastApplied (apply_loop r) = Index e"
    and "ApplyCh (apply_loop r) = ApplyCh r @ drop (nat (commitIndex r0 - LastIncludedIndex r0)) (rlog r0)"
proof -
  have l: "LastIncludedIndex r \<le> lastApplied r" using assms by (simp add: appended_def)
  have n: "nat (Index e - commitIndex r0) = length (rlog r0) - nat (commitIndex r0 - LastIncludedIndex r0)"
    and i: "commitIndex r0 \<le> Index e" using assms(1) appended_index [OF assms(1)] by (auto simp: appended_def)
  show "lastApplied (apply_loop r) = Index e"
    "ApplyCh (apply_loop r) = ApplyCh r @ drop (nat (commitIndex r0 - LastIncludedIndex r0)) (rlog r0)"
    using apply_loop_delivers [OF l] assms i by (simp_all add: n)
qed

text \<open>The commit index is looked at again when the peers \<open>Q\<close> have the entry; one fewer had it the last time.\<close>

lemma updateCommitIndex_acked:
  assumes "appended lg e r0" and "same_leader r0 q" and "Q \<subseteq> {..<length (peers r0)} - {me r0}"
    and "\<forall>k < length (peers r0). if k \<in> Q then matchIndex q ! k = Index e \<and> nextIndex q ! k = Index e + 1 else matchIndex q ! k < Index e"
    and "if length (peers r0) div 2 < card Q
      then commitIndex q = Index e \<and> lastApplied q = Index e \<and>
        ApplyCh q = ApplyCh r0 @ drop (nat (commitIndex r0 - LastIncludedIndex r0)) (rlog r0)
      else commitIndex q = commitIndex r0 \<and> lastApplied q = commitIndex r0 \<and> ApplyCh q = ApplyCh r0"
  shows "acked e r0 Q (snd (updateCommitIndex cfg q))"
proof -
  have i: "commitIndex r0 < Index e" using assms(1) appended_index [OF assms(1)] by (simp add: appended_def)
  then have "commitIndex r0 \<le> commitIndex q" using assms(5) by (auto split: if_splits)
  then have old: "\<forall>x \<in> set (rev lg). EntryTerm x = Term q \<longrightarrow> Index x \<le> commitIndex q"
    using assms(1,2) by (fastforce simp: appended_def same_leader_def)
  have log: "rev (rlog q) = e # rev lg" and ld: "state q = Leader" "EntryTerm e = Term q" "peers q = peers r0" "rlog q = rlog r0"
      "LastIncludedIndex q = LastIncludedIndex r0"
    using assms(1,2) by (simp_all add: appended_def same_leader_def)
  have rep: "replicas q (Index e) = 1 + card Q" using acked_replicas [OF assms(2,3)] assms(4) by auto
  consider "length (peers r0) div 2 < card Q" | "\<not> length (peers r0) div 2 < card Q" "length (peers r0) div 2 < 1 + card Q"
    | "\<not> length (peers r0) div 2 < 1 + card Q" by linarith
  then show ?thesis
  proof cases
    case 1
    then have "updateCommitIndex cfg q = (None, q)"
      using commit_scan_none [OF old] assms(5) by (simp add: updateCommitIndex_def log ld(1))
    then show ?thesis using 1 assms(2,4,5) by (simp add: acked_def)
  next
    case 2
    then have "snd (updateCommitIndex cfg q) = apply_loop (q\<lparr>commitIndex := Index e\<rparr>)"
      using i assms(5) by (simp add: updateCommitIndex_def log ld(1-3) rep applyCommittedLogs_def Let_def)
    then show ?thesis using 2 assms(2,4,5) ld(4,5) apply_new [OF assms(1), of "q\<lparr>commitIndex := Index e\<rparr>"]
      by (simp add: acked_def same_leader_def)
  next
    case 3
    then have "updateCommitIndex cfg q = (None, q)"
      using i commit_scan_none [OF old] assms(5) by (simp add: updateCommitIndex_def log ld(1-3) rep)
    then show ?thesis using 3 assms(2,4,5) by (simp add: acked_def)
  qed
qed

lemma acked_reply:
  assumes "appended lg e r0" and "acked e r0 P r" and "P \<subseteq> {..<length (peers r0)} - {me r0}"
    and "j < length (peers r0)" and "j \<noteq> me r0" and "j \<notin> P"
  shows "acked e r0 (insert j P) (snd (on_append_reply cfg j (Some \<lparr>aer_Term = Term r0, aer_Success = True\<rparr>) r))"
proof -
  have s: "same_leader r0 r" using assms(2) by (simp add: acked_def)
  define q where "q = r\<lparr>nextIndex := (nextIndex r)[j := Index e + 1], matchIndex := (matchIndex r)[j := Index e]\<rparr>"
  have u: "snd (on_append_reply cfg j (Some \<lparr>aer_Term = Term r0, aer_Success = True\<rparr>) r) = snd (updateCommitIndex cfg q)"
    using last_log_index [OF assms(1) s] s by (simp add: on_append_reply_def q_def same_leader_def)
  have c: "card (insert j P) = Suc (card P)" using assms(3,6) finite_subset by (intro card_insert_disjoint) blast+
  show ?thesis unfolding u
  proof (rule updateCommitIndex_acked [OF assms(1)])
    show "same_leader r0 q" using s by (simp add: same_leader_def q_def)
    show "\<forall>k < length (peers r0). if k \<in> insert j P then matchIndex q ! k = Index e \<and> nextIndex q ! k = Index e + 1
        else matchIndex q ! k < Index e"
      using assms(2,4,6) s by (auto simp: acked_def same_leader_def q_def nth_list_update split: if_splits)
    have "commitIndex q = commitIndex r" "lastApplied q = lastApplied r" "ApplyCh q = ApplyCh r" by (simp_all add: q_def)
    then show "if length (peers r0) div 2 < card (insert j P)
        then commitIndex q = Index e \<and> lastApplied q = Index e \<and>
          ApplyCh q = ApplyCh r0 @ drop (nat (commitIndex r0 - LastIncludedIndex r0)) (rlog r0)
        else commitIndex q = commitIndex r0 \<and> lastApplied q = commitIndex r0 \<and> ApplyCh q = ApplyCh r0"
      using assms(2) by (simp add: acked_def c)
  qed (use assms(3-5) in auto)
qed

lemma acked_failed:
  assumes "acked e r0 P r" and "j \<notin> P"
  shows "acked e r0 P (snd (on_append_reply cfg j None r))" and "acked e r0 P (on_install_reply j None r)"
proof -
  show "acked e r0 P (snd (on_append_reply cfg j None r))"
  proof -
    have "(nextIndex r)[j := x] ! k = nextIndex r ! k" if "k \<in> P" for k x using assms(2) that by (metis nth_list_update_neq)
    then show ?thesis using assms(1) by (auto simp: acked_def same_leader_def on_append_reply_def)
  qed
  show "acked e r0 P (on_install_reply j None r)" using assms(1) by (simp add: on_install_reply_def)
qed

section \<open>A round of messages\<close>

text \<open>The peers that are reached accept \<open>a\<close>; the messages to the others have no effect.\<close>

lemma replicate_round_acked:
  assumes "appended lg e r0" and "U \<subseteq> {..<length (peers r0)} - {me r0}"
    and "\<forall>j. links j = (if j \<in> U then Up else NoDial)"
    and "\<forall>j m. (j, m) \<in> set ms \<longrightarrow> j \<noteq> me r0 \<and> (j \<in> U \<longrightarrow> m = AppendMsg a)" and "distinct (map fst ms)"
    and "P \<subseteq> U" and "P \<inter> fst ` set ms = {}" and "acked e r0 P (ns ! me r0)" and "me r0 < length ns"
    and "length ns = length (peers r0)"
    and "\<forall>j \<in> U - P. AppendEntries (ios j) a (ns ! j) = Some (\<lparr>aer_Term = Term r0, aer_Success = True\<rparr>, g j)"
  shows "\<exists>ns'. replicate_round cfg links ios (me r0) ms ns = Some ns' \<and> length ns' = length ns \<and>
     acked e r0 (P \<union> U \<inter> fst ` set ms) (ns' ! me r0) \<and>
     (\<forall>j. j \<noteq> me r0 \<longrightarrow> ns' ! j = (if j \<in> U \<inter> fst ` set ms then g j else ns ! j))"
  using assms(4-11)
proof (induction ms arbitrary: P ns)
  case (Cons p ms)
  have ne: "xs[me r0 := y] ! k = xs ! k" if "k \<in> U" for k y and xs :: "Raft list"
  proof -
    have "me r0 \<noteq> k" using that assms(2) by auto
    then show ?thesis by simp
  qed
  obtain j m where p: "p = (j, m)" by fastforce
  have j: "j \<noteq> me r0" "j \<notin> P" "j \<notin> fst ` set ms" using Cons.prems by (auto simp: p)
  show ?case
  proof (cases "j \<in> U")
    case True
    let ?ns = "ns[j := g j]"
    let ?r = "snd (on_append_reply cfg j (Some \<lparr>aer_Term = Term r0, aer_Success = True\<rparr>) (?ns ! me r0))"
    have m: "m = AppendMsg a" "AppendEntries (ios j) a (ns ! j) = Some (\<lparr>aer_Term = Term r0, aer_Success = True\<rparr>, g j)"
      using Cons.prems(1,8) True j by (simp_all add: p)
    have jl: "j < length (peers r0)" using True assms(2) by auto
    have ack: "acked e r0 (insert j P) ?r"
      using acked_reply [OF assms(1) Cons.prems(5), of j cfg] Cons.prems(3) assms(2) True j jl by fastforce
    have "\<exists>ns'. replicate_round cfg links ios (me r0) ms (?ns[me r0 := ?r]) = Some ns' \<and>
        length ns' = length (?ns[me r0 := ?r]) \<and> acked e r0 (insert j P \<union> U \<inter> fst ` set ms) (ns' ! me r0) \<and>
        (\<forall>k. k \<noteq> me r0 \<longrightarrow> ns' ! k = (if k \<in> U \<inter> fst ` set ms then g k else ?ns[me r0 := ?r] ! k))"
      using Cons.prems True j ack by (intro Cons.IH) (auto simp: p ne)
    moreover have "replicate_round cfg links ios (me r0) (p # ms) ns = replicate_round cfg links ios (me r0) ms (?ns[me r0 := ?r])"
      using True m spec [OF assms(3), of j] by (simp add: p SendAppendEntries_def Let_def)
    moreover have "insert j P \<union> U \<inter> fst ` set ms = P \<union> U \<inter> fst ` set (p # ms)" using True by (auto simp: p)
    moreover have "(if k \<in> U \<inter> fst ` set ms then g k else ?ns[me r0 := ?r] ! k) = (if k \<in> U \<inter> fst ` set (p # ms) then g k else ns ! k)"
      if "k \<noteq> me r0" for k
      using that True jl Cons.prems(7) by (cases "k = j") (simp_all add: p)
    ultimately show ?thesis by auto
  next
    case False
    have up: "links j = NoDial" using assms(3) False by simp
    define r where "r = (case m of AppendMsg _ \<Rightarrow> snd (on_append_reply cfg j None (ns ! me r0)) | SnapMsg _ \<Rightarrow> on_install_reply j None (ns ! me r0))"
    have "acked e r0 P r" using acked_failed [OF Cons.prems(5) j(2)] by (simp add: r_def split: message.split)
    then have "\<exists>ns'. replicate_round cfg links ios (me r0) ms (ns[me r0 := r]) = Some ns' \<and>
        length ns' = length (ns[me r0 := r]) \<and> acked e r0 (P \<union> U \<inter> fst ` set ms) (ns' ! me r0) \<and>
        (\<forall>k. k \<noteq> me r0 \<longrightarrow> ns' ! k = (if k \<in> U \<inter> fst ` set ms then g k else ns[me r0 := r] ! k))"
      using Cons.prems by (intro Cons.IH) (auto simp: p ne)
    moreover have "replicate_round cfg links ios (me r0) (p # ms) ns = replicate_round cfg links ios (me r0) ms (ns[me r0 := r])"
      by (cases m) (simp_all add: p up r_def SendAppendEntries_def SendInstallSnapshot_def)
    moreover have "U \<inter> fst ` set (p # ms) = U \<inter> fst ` set ms" using False by (auto simp: p)
    moreover have "ns[me r0 := r] ! k = ns ! k" if "k \<noteq> me r0" for k using that by simp
    ultimately show ?thesis by (simp only: cong: conj_cong imp_cong) auto
  qed
qed simp

lemma replicate_round_all:
  assumes "appended lg e r0" and "U \<subseteq> {..<length (peers r0)} - {me r0}" and "\<forall>j. links j = (if j \<in> U then Up else NoDial)"
    and "fst ` set ms \<subseteq> {..<length (peers r0)} - {me r0}" and "\<forall>j x. (j, x) \<in> set ms \<longrightarrow> j \<in> U \<longrightarrow> x = AppendMsg a"
    and "distinct (map fst ms)" and "U \<subseteq> fst ` set ms" and "acked e r0 {} r0" and "me r0 < length ns" and "length ns = length (peers r0)"
    and "\<forall>j \<in> U. AppendEntries (ios j) a (ns ! j) = Some (\<lparr>aer_Term = Term r0, aer_Success = True\<rparr>, g j)"
  shows "\<exists>ns'. replicate_round cfg links ios (me r0) ms (ns[me r0 := r0]) = Some ns' \<and> length ns' = length ns \<and>
     acked e r0 U (ns' ! me r0) \<and> (\<forall>j. j \<noteq> me r0 \<longrightarrow> ns' ! j = (if j \<in> U then g j else ns ! j))"
proof -
  let ?ns = "ns[me r0 := r0]"
  have ni: "?ns ! j = ns ! j" if "j \<noteq> me r0" for j using that by simp
  have "\<forall>j x. (j, x) \<in> set ms \<longrightarrow> j \<noteq> me r0 \<and> (j \<in> U \<longrightarrow> x = AppendMsg a)" using assms(4,5) by force
  moreover have "\<forall>j \<in> U - {}. AppendEntries (ios j) a (?ns ! j) = Some (\<lparr>aer_Term = Term r0, aer_Success = True\<rparr>, g j)"
  proof
    fix j assume j: "j \<in> U - {}"
    then have "j \<noteq> me r0" using assms(2) by auto
    then show "AppendEntries (ios j) a (?ns ! j) = Some (\<lparr>aer_Term = Term r0, aer_Success = True\<rparr>, g j)"
      using assms(11) j by simp
  qed
  moreover have "acked e r0 {} (?ns ! me r0)" using assms(8,9) by simp
  ultimately have "\<exists>ns'. replicate_round cfg links ios (me r0) ms ?ns = Some ns' \<and> length ns' = length ?ns \<and>
      acked e r0 ({} \<union> U \<inter> fst ` set ms) (ns' ! me r0) \<and>
      (\<forall>j. j \<noteq> me r0 \<longrightarrow> ns' ! j = (if j \<in> U \<inter> fst ` set ms then g j else ?ns ! j))"
    using assms(6,9,10) by (intro replicate_round_acked [OF assms(1-3), where a = a]) simp_all
  moreover have "{} \<union> U \<inter> fst ` set ms = U" "U \<inter> fst ` set ms = U" using assms(7) by blast+
  ultimately show ?thesis using ni by (auto cong: conj_cong)
qed

section \<open>The nodes in step\<close>

text \<open>
  \<open>f\<close> holds the log of \<open>r\<close> behind the same snapshot, on disk too, and has delivered, after \<open>D\<close>, what it knows to be
  committed.
\<close>

definition replica :: "Raft \<Rightarrow> RaftEntry list \<Rightarrow> Raft \<Rightarrow> bool" where
  "replica r D f \<longleftrightarrow> wf_log f \<and> disk_ok f \<and> rlog f = rlog r \<and> LastIncludedIndex f = LastIncludedIndex r \<and>
     LastIncludedTerm f = LastIncludedTerm r \<and> LastIncludedIndex f \<le> commitIndex f \<and> lastApplied f = commitIndex f \<and>
     commitIndex f \<le> LastIncludedIndex f + int (length (rlog f)) \<and>
     ApplyCh f = D @ take (nat (commitIndex f - LastIncludedIndex f)) (rlog f)"

text \<open>What a peer has to be to stand for election later.\<close>

definition member :: "nat \<Rightarrow> nat \<Rightarrow> Raft \<Rightarrow> bool" where
  "member n j f \<longleftrightarrow> me f = j \<and> length (peers f) = n \<and> state f \<noteq> Leader \<and> LoadLatestSnapshot (wal f) \<noteq> None"

text \<open>A leader that has sent all of its log to the peers it reaches, and whose entries of its own term are committed.\<close>

definition leads :: "nat set \<Rightarrow> Raft \<Rightarrow> bool" where
  "leads U r \<longleftrightarrow> state r = Leader \<and> 2 \<le> length (peers r) \<and> me r < length (peers r) \<and> 0 < LastIncludedIndex r \<and>
     U \<subseteq> {..<length (peers r)} - {me r} \<and> length (peers r) div 2 < 1 + card U \<and>
     length (nextIndex r) = length (peers r) \<and> length (matchIndex r) = length (peers r) \<and>
     (\<forall>j \<in> U. nextIndex r ! j = LastIncludedIndex r + int (length (rlog r)) + 1) \<and>
     (\<forall>j < length (peers r). matchIndex r ! j \<le> LastIncludedIndex r + int (length (rlog r))) \<and>
     (\<forall>e \<in> set (rlog r). EntryTerm e = Term r \<longrightarrow> Index e \<le> commitIndex r) \<and> LoadLatestSnapshot (wal r) \<noteq> None"

definition in_step :: "nat set \<Rightarrow> nat \<Rightarrow> (nat \<Rightarrow> RaftEntry list) \<Rightarrow> Raft list \<Rightarrow> bool" where
  "in_step U i D ns \<longleftrightarrow> leads U (ns ! i) \<and> me (ns ! i) = i \<and> length ns = length (peers (ns ! i)) \<and> replica (ns ! i) (D i) (ns ! i) \<and>
     (\<forall>e \<in> set (rlog (ns ! i)). EntryTerm e \<le> Term (ns ! i)) \<and>
     (\<forall>j \<in> U. replica (ns ! i) (D j) (ns ! j) \<and> member (length ns) j (ns ! j) \<and> Term (ns ! j) \<le> Term (ns ! i) \<and>
       commitIndex (ns ! j) \<le> commitIndex (ns ! i))"

text \<open>After a command the reached peers agree on the term and on what is committed.\<close>

definition settled :: "nat set \<Rightarrow> nat \<Rightarrow> Raft list \<Rightarrow> bool" where
  "settled U i ns \<longleftrightarrow> (\<forall>j \<in> U. Term (ns ! j) = Term (ns ! i) \<and> (\<forall>k \<in> U. commitIndex (ns ! k) = commitIndex (ns ! j)))"

text \<open>A follower takes one more entry, and learns what was committed before it.\<close>

lemma AppendEntries_keeps:
  assumes "AppendEntries io args r = Some (reply, r')" and "commitIndex r \<le> lastApplied r" and "LastIncludedIndex r \<le> lastApplied r"
  shows "LastIncludedIndex r' = LastIncludedIndex r" and "LastIncludedTerm r' = LastIncludedTerm r"
    and "lastApplied r' = max (lastApplied r) (commitIndex r')"
proof -
  have s: "LastIncludedIndex (store_entries io args res q) = LastIncludedIndex q"
      "LastIncludedTerm (store_entries io args res q) = LastIncludedTerm q"
      "commitIndex (store_entries io args res q) = commitIndex q" "lastApplied (store_entries io args res q) = lastApplied q" for res q
    by (simp_all add: store_entries_def Let_def split: prod.splits)
  have a: "LastIncludedIndex (advance_commit args q) = LastIncludedIndex q"
      "LastIncludedTerm (advance_commit args q) = LastIncludedTerm q" for q
    by (simp_all add: advance_commit_def)
  have l: "lastApplied (advance_commit args q) = max (lastApplied q) (commitIndex (advance_commit args q))"
    if "commitIndex q \<le> lastApplied q" "LastIncludedIndex q \<le> lastApplied q" for q
    using that apply_loop_delivers [of "q\<lparr>commitIndex := x\<rparr>" for x] by (simp add: advance_commit_def max_def)
  show "LastIncludedIndex r' = LastIncludedIndex r" "LastIncludedTerm r' = LastIncludedTerm r"
    using assms(1) by (auto simp: AppendEntries_parts Let_def s a split: if_splits option.splits)
  show "lastApplied r' = max (lastApplied r) (commitIndex r')"
    using assms by (auto simp: AppendEntries_parts Let_def s l split: if_splits option.splits)
qed

lemma AppendEntries_member:
  assumes "AppendEntries io args r = Some (reply, r')" and "member n j r"
  shows "member n j r'"
proof -
  have fo: "member n j (follow io t r)" for t using assms(2) by (auto simp: member_def follow_def)
  have l: "LoadLatestSnapshot (snd (AppendLogs io' es w)) = LoadLatestSnapshot w"
      "LoadLatestSnapshot (snd (RebuildLogFile io' es w)) = LoadLatestSnapshot w" for io' es w
    by (auto simp: AppendLogs_def append_file_def RebuildLogFile_def LoadLatestSnapshot_def Let_def split: file_io.splits option.splits)
  have st: "member n j (store_entries io args res q)" if "member n j q" for res q
    using that by (auto simp: member_def store_entries_def Let_def l split: prod.splits)
  have ad: "member n j (advance_commit args q)" if "member n j q" for q
    using that by (simp add: member_def advance_commit_def)
  show ?thesis using assms fo ad st by (auto simp: AppendEntries_parts Let_def split: if_splits option.splits)
qed

lemma replica_append:
  assumes "replica r D f" and "0 < LastIncludedIndex r" and "io_works io" and "Term f \<le> Term r0" and "in_int64 (Term r0)"
    and "rlog r0 = rlog r @ [e]" and "LastIncludedIndex r0 = LastIncludedIndex r" and "LastIncludedTerm r0 = LastIncludedTerm r"
    and "log_entry_ok e" and "Index e = LastIncludedIndex r + int (length (rlog r)) + 1"
    and "commitIndex f \<le> commitIndex r0" and "commitIndex r0 < Index e" and "member n j f"
  defines "a \<equiv> append_args r0 (LastIncludedIndex r + int (length (rlog r))) [e]"
  shows "\<exists>f'. AppendEntries io a f = Some (\<lparr>aer_Term = Term r0, aer_Success = True\<rparr>, f') \<and> replica r0 D f' \<and>
     member n j f' \<and> Term f' = Term r0 \<and> commitIndex f' = commitIndex r0"
proof -
  have f: "wf_log f" "disk_ok f" "rlog f = rlog r" "LastIncludedIndex f = LastIncludedIndex r" "LastIncludedTerm f = LastIncludedTerm r"
      "LastIncludedIndex f \<le> commitIndex f" "lastApplied f = commitIndex f"
      "ApplyCh f = D @ take (nat (commitIndex f - LastIncludedIndex f)) (rlog f)"
    using assms(1) by (simp_all add: replica_def)
  let ?n = "length (rlog r)"
  have "nat (int ?n - 1) < ?n" if "rlog r \<noteq> []" using that by (cases "rlog r") auto
  then have pm: "prev_matches a f"
    using assms(2,6-8) f(3-5)
    by (auto simp: prev_matches_def a_def append_args_def getTermAt_def Let_def nth_append)
  have ok: "0 < LastIncludedIndex f" "in_int64 (ae_Term a)" "0 \<le> PrevLogIndex a" "consecutive (PrevLogIndex a + 1) (Entries a)"
      "\<forall>x \<in> set (Entries a). log_entry_ok x" "LastIncludedIndex f \<le> lastApplied f" "commitIndex f \<le> lastApplied f"
    using assms(2,5,9,10) f by (simp_all add: a_def append_args_def)
  have k: "nat (PrevLogIndex a - LastIncludedIndex f) = ?n" "Term f \<le> ae_Term a" "Entries a = [e]" "ae_Term a = Term r0"
      "LeaderCommit a = commitIndex r0"
    using f(4) assms(4) by (simp_all add: a_def append_args_def)
  obtain reply f' where s: "AppendEntries io a f = Some (reply, f')" "aer_Success reply" "aer_Term reply = Term f'"
      "Term f' = Term r0" "wf_log f'" "disk_ok f'" "rlog f' = rlog r @ [e]"
      "commitIndex f' = (if commitIndex f < commitIndex r0 then min (commitIndex r0) (LastIncludedIndex f + int (length (rlog f'))) else commitIndex f)"
      "ApplyCh f' = ApplyCh f @ take (nat (commitIndex f' - lastApplied f)) (drop (nat (lastApplied f - LastIncludedIndex f)) (rlog f'))"
    using AppendEntries_ok [OF f(1) ok(1) f(2) assms(3) ok(2-7)] pm k f(3) assms(4) by (auto simp: max_def)
  note kp = AppendEntries_keeps [OF s(1) ok(7,6)]
  have c: "commitIndex f' = commitIndex r0" using s(7,8) assms(10-12) f(4) by auto
  have d: "take (nat (commitIndex f - LastIncludedIndex f)) (rlog f) = take (nat (commitIndex f - LastIncludedIndex f)) (rlog f')"
  proof -
    have "nat (commitIndex f - LastIncludedIndex f) \<le> length (rlog r)" using assms(1) f(3) by (auto simp: replica_def)
    then show ?thesis using f(3) s(7) by simp
  qed
  have "nat (commitIndex r0 - LastIncludedIndex f) = nat (commitIndex f - LastIncludedIndex f) + nat (commitIndex r0 - commitIndex f)"
    using assms(11) f(6) by simp
  then have "ApplyCh f' = D @ take (nat (commitIndex r0 - LastIncludedIndex f)) (rlog f')"
    using s(9) f(7,8) d c by (simp add: take_add)
  then have "replica r0 D f'"
    using s kp c f assms(6-8,10-12) by (simp add: replica_def max_def)
  moreover have "reply = \<lparr>aer_Term = Term r0, aer_Success = True\<rparr>" using s(2-4) by (cases reply) simp
  ultimately show ?thesis using s(1,4) c AppendEntries_member [OF s(1) assms(13)] by blast
qed

section \<open>One command\<close>

lemma replicate_to_reached:
  assumes "\<forall>j \<in> U. nextIndex r ! j = n \<and> replicate_msg r j = Some (Some m)" and "0 < LastIncludedIndex r"
    and "LoadLatestSnapshot (wal r) \<noteq> None" and "distinct js"
  shows "\<exists>ms. replicate_to r js = Some ms \<and> distinct (map fst ms) \<and> fst ` set ms \<subseteq> set js \<and> U \<inter> set js \<subseteq> fst ` set ms \<and>
     (\<forall>j x. (j, x) \<in> set ms \<longrightarrow> j \<in> U \<longrightarrow> x = m)"
  using assms(4)
proof (induction js)
  case (Cons j js)
  then obtain ms where ms: "replicate_to r js = Some ms" "distinct (map fst ms)" "fst ` set ms \<subseteq> set js" "U \<inter> set js \<subseteq> fst ` set ms"
      "\<forall>j x. (j, x) \<in> set ms \<longrightarrow> j \<in> U \<longrightarrow> x = m" by auto
  have "replicate_msg r j \<noteq> None"
    using assms(2,3) by (auto simp: replicate_msg_def needs_snapshot_def Let_def split: option.splits sum.splits)
  then obtain x where x: "replicate_msg r j = Some x" by blast
  have j: "j \<notin> fst ` set ms" using ms(3) Cons.prems by auto
  show ?case
  proof (cases x)
    case None
    then have "j \<notin> U" using assms(1) x by auto
    then show ?thesis using ms x None by auto
  next
    case (Some y)
    have "y = m" if "j \<in> U" using that assms(1) x Some by auto
    then show ?thesis using ms x Some j by (auto intro!: exI [of _ "(j, y) # ms"])
  qed
qed simp

text \<open>The leader appends the command and sends the new entry to each peer it reaches.\<close>

lemma AppendEntry_leads:
  fixes cmd :: bytes
  assumes "leads U r" and "replica r D r"
  defines "e \<equiv> \<lparr>Index = LastIncludedIndex r + int (length (rlog r)) + 1, EntryTerm = Term r, Command = cmd, IsSnapshot = False\<rparr>"
  defines "r0 \<equiv> r\<lparr>rlog := rlog r @ [e], wal := snd (AppendLog FileOk e (wal r))\<rparr>"
  shows "\<exists>ms. AppendEntry cfg FileOk cmd r = Some (Some (Index e, ms, None), r0) \<and> appended (rlog r) e r0 \<and> distinct (map fst ms) \<and>
     fst ` set ms \<subseteq> {..<length (peers r)} - {me r} \<and> U \<subseteq> fst ` set ms \<and>
     (\<forall>j x. (j, x) \<in> set ms \<longrightarrow> j \<in> U \<longrightarrow> x = AppendMsg (append_args r0 (LastIncludedIndex r + int (length (rlog r))) [e]))"
proof -
  have l: "state r = Leader" "2 \<le> length (peers r)" "0 < LastIncludedIndex r" "U \<subseteq> {..<length (peers r)} - {me r}"
      "\<forall>j \<in> U. nextIndex r ! j = LastIncludedIndex r + int (length (rlog r)) + 1" "LoadLatestSnapshot (wal r) \<noteq> None"
    using assms(1) by (simp_all add: leads_def)
  have w: "wf_log r" using assms(2) by (simp add: replica_def)
  have i: "Index e = log_base r + int (length (rlog r))" using l(3) by (simp add: e_def log_base_def)
  have "wf_log r0" using w l(3) by (simp add: wf_log_def log_base_def r0_def e_def)
  then have ap: "appended (rlog r) e r0"
    using assms(1,2) by (simp add: appended_def leads_def replica_def r0_def e_def)
  let ?js = "filter (\<lambda>i. i \<noteq> me r) [0..<length (peers r)]"
  have snap: "LoadLatestSnapshot (wal r0) = LoadLatestSnapshot (wal r)"
    by (simp add: r0_def AppendLog_def append_file_def LoadLatestSnapshot_def Let_def split: option.split)
  have "\<forall>j \<in> U. nextIndex r0 ! j = LastIncludedIndex r + int (length (rlog r)) + 1 \<and>
      replicate_msg r0 j = Some (Some (AppendMsg (append_args r0 (LastIncludedIndex r + int (length (rlog r))) [e])))"
    using l(3,5) by (simp add: r0_def replicate_msg_def needs_snapshot_def Let_def)
  moreover have "0 < LastIncludedIndex r0" "LoadLatestSnapshot (wal r0) \<noteq> None" "distinct ?js"
    using l(3,6) snap by (simp_all add: r0_def)
  ultimately obtain ms where ms: "replicate_to r0 ?js = Some ms" "distinct (map fst ms)" "fst ` set ms \<subseteq> set ?js"
      "U \<inter> set ?js \<subseteq> fst ` set ms"
      "\<forall>j x. (j, x) \<in> set ms \<longrightarrow> j \<in> U \<longrightarrow> x = AppendMsg (append_args r0 (LastIncludedIndex r + int (length (rlog r))) [e])"
    using replicate_to_reached [of U r0] by metis
  have js: "set ?js = {..<length (peers r)} - {me r}" by auto
  have "replicateLog r0 = Some ms" using l(1) ms(1) by (simp add: replicateLog_def r0_def)
  then have "AppendEntry cfg FileOk cmd r = Some (Some (Index e, ms, None), r0)"
  proof -
    have "\<lparr>Index = (if rlog r \<noteq> [] then Index (last (rlog r)) else if 0 < LastIncludedIndex r then LastIncludedIndex r else -1) + 1,
        EntryTerm = Term r, Command = cmd, IsSnapshot = False\<rparr> = e"
      unfolding next_index_wf [OF w] i [symmetric] by (simp add: e_def)
    then show ?thesis using l(1,2) \<open>replicateLog r0 = Some ms\<close>
      unfolding AppendEntry_def Let_def by (simp add: r0_def [symmetric] split del: if_split)
  qed
  then show ?thesis using ms ap l(4) js by auto
qed

text \<open>The leader when every peer that it reaches has answered.\<close>

lemma acked_leads:
  fixes cmd :: bytes
  assumes "leads U r" and "replica r D r" and "log_entry_ok e"
    and "r0 = r\<lparr>rlog := rlog r @ [e], wal := snd (AppendLog FileOk e (wal r))\<rparr>" and "appended (rlog r) e r0" and "acked e r0 U r'"
  shows "leads U r' \<and> replica r' D r' \<and> commitIndex r' = Index e"
proof -
  have maj: "length (peers r0) div 2 < 1 + card U" using assms(1,4) by (simp add: leads_def)
  have s: "same_leader r0 r'" and c: "commitIndex r' = Index e" "lastApplied r' = Index e"
      "ApplyCh r' = ApplyCh r0 @ drop (nat (commitIndex r0 - LastIncludedIndex r0)) (rlog r0)"
    using assms(6) maj by (simp_all add: acked_def)
  have eq: "rlog r' = rlog r @ [e]" "LastIncludedIndex r' = LastIncludedIndex r" "LastIncludedTerm r' = LastIncludedTerm r" "Term r' = Term r"
      "votedFor r' = votedFor r" "peers r' = peers r" "me r' = me r" "state r' = state r" "wal r' = snd (AppendLog FileOk e (wal r))"
    using s by (simp_all add: same_leader_def assms(4))
  have i: "Index e = LastIncludedIndex r + int (length (rlog r)) + 1" using appended_index [OF assms(5)] by (simp add: assms(4))
  obtain w where w: "AppendLogs FileOk [e] (wal r) = (Inr (), w)" "log_file_holds w (rlog r @ [e])" "stateFile w = stateFile (wal r)"
      "snapshots w = snapshots (wal r)"
    using AppendLogs_holds [of "wal r" "rlog r" "[e]"] assms(2,3) by (auto simp: replica_def disk_ok_def)
  have wr: "wal r' = w" using w(1) eq(9) by (simp add: AppendLogs_def AppendLog_def)
  have "disk_ok r'" using assms(2) w(2) LoadState_same [OF w(3)] by (simp add: replica_def disk_ok_def wr eq)
  moreover have "wf_log r' = wf_log r0" using s by (simp add: wf_log_def log_base_def same_leader_def)
  then have "wf_log r'" using assms(5) by (simp add: appended_def)
  moreover have "ApplyCh r' = D @ rlog r'"
  proof -
    let ?k = "nat (commitIndex r - LastIncludedIndex r)"
    have "?k \<le> length (rlog r)" "ApplyCh r = D @ take ?k (rlog r)" using assms(2) by (auto simp: replica_def)
    then show ?thesis using c(3) eq(1) by (simp add: assms(4))
  qed
  moreover have m: "(if j \<in> U then matchIndex r' ! j = Index e \<and> nextIndex r' ! j = Index e + 1 else matchIndex r' ! j < Index e)"
    if "j < length (peers r)" for j using assms(6) that by (simp add: acked_def assms(4))
  have sub: "U \<subseteq> {..<length (peers r)} - {me r}" and len: "length (nextIndex r') = length (peers r)" "length (matchIndex r') = length (peers r)"
    using assms(1) s by (simp_all add: leads_def same_leader_def assms(4))
  have "leads U r'"
  proof -
    have "\<forall>x \<in> set (rlog r'). EntryTerm x = Term r' \<longrightarrow> Index x \<le> commitIndex r'"
      using assms(1,5) i by (fastforce simp: leads_def appended_def assms(4) eq c)
    moreover have "\<forall>j \<in> U. nextIndex r' ! j = Index e + 1" using m sub by force
    moreover have "matchIndex r' ! j \<le> Index e" if "j < length (peers r)" for j using m [OF that] by (auto split: if_splits)
    moreover have "LoadLatestSnapshot w = LoadLatestSnapshot (wal r)" using w(4) by (simp add: LoadLatestSnapshot_def)
    ultimately show ?thesis using assms(1) len i by (simp add: leads_def eq(1,2,4,6,7,8) wr algebra_simps)
  qed
  moreover have "LastIncludedIndex r \<le> Index e" using i by simp
  ultimately show ?thesis using c i by (simp add: replica_def eq(1,2))
qed

lemma cluster_command_in_step:
  fixes cmd :: bytes
  assumes "in_step U i D ns" and "\<forall>j. links j = (if j \<in> U then Up else NoDial)" and "\<forall>j. io_works (ios j)"
    and "LastIncludedIndex (ns ! i) + int (length (rlog (ns ! i))) + 1 < 2 ^ 63" and "length cmd < 2 ^ 63"
  defines "e \<equiv> \<lparr>Index = LastIncludedIndex (ns ! i) + int (length (rlog (ns ! i))) + 1, EntryTerm = Term (ns ! i), Command = cmd,
     IsSnapshot = False\<rparr>"
  shows "\<exists>ns'. cluster_command cfg FileOk links ios i cmd ns = Some ns' \<and> in_step U i D ns' \<and> length ns' = length ns \<and> rlog (ns' ! i) = rlog (ns ! i) @ [e] \<and>
     LastIncludedIndex (ns' ! i) = LastIncludedIndex (ns ! i) \<and> commitIndex (ns' ! i) = Index e \<and>
     Term (ns' ! i) = Term (ns ! i) \<and> settled U i ns' \<and> (\<forall>j \<in> U. commitIndex (ns' ! j) = commitIndex (ns ! i)) \<and> (\<forall>j. j \<notin> U \<longrightarrow> j \<noteq> i \<longrightarrow> ns' ! j = ns ! j)"
proof -
  define r where "r = ns ! i"
  have st: "leads U r" "me r = i" "length ns = length (peers r)" "replica r (D i) r"
      "\<forall>j \<in> U. replica r (D j) (ns ! j) \<and> member (length ns) j (ns ! j) \<and> Term (ns ! j) \<le> Term r \<and> commitIndex (ns ! j) \<le> commitIndex r"
      "\<forall>x \<in> set (rlog r). EntryTerm x \<le> Term r"
    using assms(1) unfolding in_step_def r_def by blast+
  define r0 where "r0 = r\<lparr>rlog := rlog r @ [e], wal := snd (AppendLog FileOk e (wal r))\<rparr>"
  have e: "e = \<lparr>Index = LastIncludedIndex r + int (length (rlog r)) + 1, EntryTerm = Term r, Command = cmd, IsSnapshot = False\<rparr>"
    by (simp add: e_def r_def)
  let ?a = "append_args r0 (LastIncludedIndex r + int (length (rlog r))) [e]"
  obtain ms where ms: "AppendEntry cfg FileOk cmd r = Some (Some (Index e, ms, None), r0)" "appended (rlog r) e r0" "distinct (map fst ms)"
      "fst ` set ms \<subseteq> {..<length (peers r)} - {me r}" "U \<subseteq> fst ` set ms" "\<forall>j x. (j, x) \<in> set ms \<longrightarrow> j \<in> U \<longrightarrow> x = AppendMsg ?a"
    using AppendEntry_leads [OF st(1,4), of cfg cmd] unfolding e [symmetric] r0_def [symmetric] by blast
  have lii: "0 < LastIncludedIndex r" and U: "U \<subseteq> {..<length (peers r)} - {me r}" and i: "i < length ns"
    using st by (simp_all add: leads_def)
  have t: "in_int64 (Term r)" using st(4) by (simp add: replica_def disk_ok_def)
  have ok: "log_entry_ok e" using t assms(4,5) lii by (simp add: log_entry_ok_def e r_def in_int64_def)
  have c0: "commitIndex r < Index e" using ms(2) appended_index [OF ms(2)] by (simp add: appended_def r0_def)
  have "\<forall>j \<in> U. \<exists>f'. AppendEntries (ios j) ?a (ns ! j) = Some (\<lparr>aer_Term = Term r0, aer_Success = True\<rparr>, f') \<and> replica r0 (D j) f' \<and>
      member (length ns) j f' \<and> Term f' = Term r0 \<and> commitIndex f' = commitIndex r0"
    using st(5) lii assms(3) t ok c0 by (intro ballI replica_append) (simp_all add: r0_def e)
  then obtain g where g: "\<forall>j \<in> U. AppendEntries (ios j) ?a (ns ! j) = Some (\<lparr>aer_Term = Term r0, aer_Success = True\<rparr>, g j) \<and>
      replica r0 (D j) (g j) \<and> member (length ns) j (g j) \<and> Term (g j) = Term r0 \<and> commitIndex (g j) = commitIndex r0" by metis
  have me: "me r0 = i" and pe: "peers r0 = peers r" using st(2) by (simp_all add: r0_def)
  have "acked e r0 {} r0"
    using st(1) ms(2) lii e by (auto simp: acked_def same_leader_def leads_def appended_def r0_def)
  then obtain ns' where ns': "replicate_round cfg links ios i ms (ns[i := r0]) = Some ns'" "length ns' = length ns"
      "acked e r0 U (ns' ! i)" "\<forall>j. j \<noteq> i \<longrightarrow> ns' ! j = (if j \<in> U then g j else ns ! j)"
    using replicate_round_all [OF ms(2) _ assms(2) _ ms(6,3,5), of ns ios g cfg, unfolded me pe] U st(2,3) i ms(4) g by auto
  have ld: "leads U (ns' ! i)" "replica (ns' ! i) (D i) (ns' ! i)" "commitIndex (ns' ! i) = Index e"
    using acked_leads [OF st(1,4) ok r0_def ms(2) ns'(3)] by simp_all
  have s: "same_leader r0 (ns' ! i)" using ns'(3) by (simp add: acked_def)
  have j: "j \<noteq> i" if "j \<in> U" for j using that U st(2) by auto
  have fo: "replica (ns' ! i) (D j) (ns' ! j) \<and> member (length ns) j (ns' ! j) \<and> Term (ns' ! j) = Term (ns' ! i) \<and> commitIndex (ns' ! j) = commitIndex r" if "j \<in> U" for j
    using that g ns'(4) j [OF that] s by (auto simp: replica_def same_leader_def r0_def)
  have "in_step U i D ns'"
    using ld fo ns'(2) st(2,3,6) s c0 e by (simp add: in_step_def same_leader_def r0_def)
  moreover have "settled U i ns'" using fo by (simp add: settled_def)
  ultimately show ?thesis using ms(1) ns' ld(3) fo s unfolding cluster_command_def r_def [symmetric]
    by (auto simp: same_leader_def r0_def)
qed

section \<open>Several commands\<close>

lemma cluster_commands_snoc:
  "cluster_commands cfg io links ios i (cs @ [c]) ns =
     (case cluster_commands cfg io links ios i cs ns of None \<Rightarrow> None | Some ns' \<Rightarrow> cluster_command cfg io links ios i c ns')"
  by (induction cs arbitrary: ns) (auto split: option.splits)

lemma cluster_commands_in_step:
  assumes "in_step U i D ns" and "\<forall>j. links j = (if j \<in> U then Up else NoDial)" and "\<forall>j. io_works (ios j)"
    and "LastIncludedIndex (ns ! i) + int (length (rlog (ns ! i))) + int (length cs) < 2 ^ 63" and "\<forall>c \<in> set cs. length c < 2 ^ 63"
  shows "\<exists>ns'. cluster_commands cfg FileOk links ios i cs ns = Some ns' \<and> in_step U i D ns' \<and> length ns' = length ns \<and>
     (\<exists>es. rlog (ns' ! i) = rlog (ns ! i) @ es \<and> map Command es = cs) \<and> LastIncludedIndex (ns' ! i) = LastIncludedIndex (ns ! i) \<and>
     Term (ns' ! i) = Term (ns ! i) \<and>
     (cs \<noteq> [] \<longrightarrow> settled U i ns' \<and> commitIndex (ns' ! i) = LastIncludedIndex (ns ! i) + int (length (rlog (ns' ! i)))) \<and>
     (2 \<le> length cs \<longrightarrow> (\<forall>j \<in> U. commitIndex (ns' ! j) = commitIndex (ns' ! i) - 1)) \<and> (\<forall>j. j \<notin> U \<longrightarrow> j \<noteq> i \<longrightarrow> ns' ! j = ns ! j)"
  using assms(4,5)
proof (induction cs rule: rev_induct)
  case Nil
  then show ?case using assms(1) by simp
next
  case (snoc c cs)
  then obtain ns1 es where n1: "cluster_commands cfg FileOk links ios i cs ns = Some ns1" "in_step U i D ns1"
      "length ns1 = length ns \<and> rlog (ns1 ! i) = rlog (ns ! i) @ es \<and> map Command es = cs" "LastIncludedIndex (ns1 ! i) = LastIncludedIndex (ns ! i)"
      "Term (ns1 ! i) = Term (ns ! i)" "cs \<noteq> [] \<longrightarrow> commitIndex (ns1 ! i) = LastIncludedIndex (ns ! i) + int (length (rlog (ns1 ! i)))"
      "\<forall>j. j \<notin> U \<longrightarrow> j \<noteq> i \<longrightarrow> ns1 ! j = ns ! j" by auto
  have "length (rlog (ns1 ! i)) = length (rlog (ns ! i)) + length cs" using n1(3) by auto
  then have "LastIncludedIndex (ns1 ! i) + int (length (rlog (ns1 ! i))) + 1 < 2 ^ 63" "length c < 2 ^ 63"
    using snoc.prems n1(4) by simp_all
  from cluster_command_in_step [OF n1(2) assms(2,3) this, of cfg] show ?case
    using n1 by (auto simp: cluster_commands_snoc)
qed

section \<open>An election\<close>

lemma vote_loop_wins:
  assumes "\<forall>ev \<in> set evs. \<exists>rep. ev = Reply rep \<and> snd (on_vote_reply rep r) = r" and "k \<le> length evs" and "votes \<le> n div 2"
    and "n div 2 < votes + length (filter (\<lambda>ev. case ev of Reply rep \<Rightarrow> fst (on_vote_reply rep r) | Timeout \<Rightarrow> False) (take k evs))"
  shows "vote_loop n votes k evs r = (Won, r)"
  using assms
proof (induction n votes k evs r rule: vote_loop.induct)
  case (4 n votes j reply evs r)
  obtain b where "on_vote_reply reply r = (b, r)" using 4(3) by (cases "on_vote_reply reply r") auto
  then show ?case using 4 by (cases b) auto
qed auto

text \<open>The vote of a node of a lower term whose log is no newer.\<close>

lemma RequestVote_lower:
  assumes "Term r < rv_Term args" and "isLogUpToDate (rv_LastLogIndex args) (rv_LastLogTerm args) r" and "disk_ok r" and "io_works io"
    and "in_int64 (rv_Term args)" and "rv_CandidateID args < 2 ^ 63"
  shows "\<exists>r'. RequestVote io args r = (\<lparr>rvr_Term = rv_Term args, VoteGranted = True\<rparr>, r') \<and> disk_ok r' \<and> Term r' = rv_Term args \<and>
     votedFor r' = int (rv_CandidateID args) \<and> rlog r' = rlog r \<and> LastIncludedIndex r' = LastIncludedIndex r \<and>
     LastIncludedTerm r' = LastIncludedTerm r \<and> commitIndex r' = commitIndex r \<and> lastApplied r' = lastApplied r \<and> ApplyCh r' = ApplyCh r \<and>
     (member n j r \<longrightarrow> member n j r')"
proof -
  have "isLogUpToDate (rv_LastLogIndex args) (rv_LastLogTerm args) (follow io (rv_Term args) r)"
    using assms(2) isLogUpToDate_cong [of "follow io (rv_Term args) r" r] by simp
  then obtain r' where r': "RequestVote io args r = (\<lparr>rvr_Term = rv_Term args, VoteGranted = True\<rparr>, r')"
      "r' = persistStateLocked (state_io io 1) ((follow io (rv_Term args) r)\<lparr>votedFor := int (rv_CandidateID args)\<rparr>)"
    using assms(1) by (simp add: RequestVote_parts Let_def max_def)
  moreover have "disk_ok r'" by (rule RequestVote_ok(1) [OF r'(1) assms(3-6)])
  moreover have "member n j r'" if "member n j r" using that r'(2) by (auto simp: member_def follow_def)
  ultimately show ?thesis using assms(1) by (simp add: max_def)
qed

lemma vote_round_granted:
  assumes "\<forall>j. links j = (if j \<in> U then Up else NoDial)" and "distinct js" and "set js \<subseteq> {..<length ns}"
    and "\<forall>j \<in> U. RequestVote (ios j) args (ns ! j) = (rep, g j)"
  shows "\<exists>ns'. vote_round links ios args js ns = (map (\<lambda>j. Reply (if j \<in> U then Some rep else None)) js, ns') \<and>
     length ns' = length ns \<and> (\<forall>j. ns' ! j = (if j \<in> U \<inter> set js then g j else ns ! j))"
proof -
  have "\<exists>ns'. vote_round links ios args js ms = (map (\<lambda>j. Reply (if j \<in> U then Some rep else None)) js, ns') \<and>
      length ns' = length ms \<and> (\<forall>j. ns' ! j = (if j \<in> U \<inter> set js then g j else ms ! j))"
    if "distinct js" "set js \<subseteq> {..<length ms}" "\<forall>j \<in> U \<inter> set js. ms ! j = ns ! j" for js ms
    using that
  proof (induction js arbitrary: ms)
    case (Cons j js)
    let ?p = "if j \<in> U then g j else ms ! j"
    have s: "SendRequestVote (links j) (ios j) args (ms ! j) = (if j \<in> U then Some rep else None, ?p)"
      using assms(1,4) Cons.prems(3) by (simp add: SendRequestVote_def)
    have "\<forall>k \<in> U \<inter> set js. ms[j := ?p] ! k = ns ! k" using Cons.prems by (auto simp: nth_list_update)
    then obtain ns' where n: "vote_round links ios args js (ms[j := ?p]) = (map (\<lambda>j. Reply (if j \<in> U then Some rep else None)) js, ns')"
        "length ns' = length ms" "\<forall>k. ns' ! k = (if k \<in> U \<inter> set js then g k else ms[j := ?p] ! k)"
      using Cons.IH [of "ms[j := ?p]"] Cons.prems by auto
    have "(if k \<in> U \<inter> set js then g k else ms[j := ?p] ! k) = (if k \<in> U \<inter> set (j # js) then g k else ms ! k)" for k
      using Cons.prems(2) by (cases "k = j") auto
    then show ?case using n s by (simp add: Let_def)
  qed simp
  then show ?thesis using assms(2,3) by blast
qed

text \<open>The votes that count: the one of the candidate on the channel, and those of all the peers but the last.\<close>

lemma reached_count:
  assumes "distinct js" and "U \<subseteq> set js" and "length js = Suc k"
  shows "card U \<le> 1 + length (filter (\<lambda>j. j \<in> U) (take k js))"
proof -
  have "U = set (filter (\<lambda>j. j \<in> U) js)" using assms(2) by auto
  then have "card U = length (filter (\<lambda>j. j \<in> U) js)" using assms(1) distinct_card distinct_filter by metis
  also have "\<dots> = length (filter (\<lambda>j. j \<in> U) (take k js)) + length (filter (\<lambda>j. j \<in> U) (drop k js))"
    by (metis append_take_drop_id filter_append length_append)
  also have "length (filter (\<lambda>j. j \<in> U) (drop k js)) \<le> 1" using assms(3) length_filter_le [of _ "drop k js"] by simp
  finally show ?thesis by simp
qed

lemma finish_election_wins:
  assumes "state r = Candidate" and "length (peers r) = n" and "2 \<le> n" and "length js = n - 1" and "distinct js" and "U \<subseteq> set js"
    and "n div 2 < 1 + card U" and "t = Term r"
  shows "finish_election (map (\<lambda>j. Reply (if j \<in> U then Some \<lparr>rvr_Term = t, VoteGranted = True\<rparr> else None)) js) r = becomeLeader r"
proof (cases "n div 2 < 2")
  case True
  then show ?thesis using assms(1-3) by (simp add: finish_election_def election_end_def Let_def)
next
  case False
  let ?ev = "\<lambda>j. Reply (if j \<in> U then Some \<lparr>rvr_Term = t, VoteGranted = True\<rparr> else None)"
  have len: "length js = Suc (n - 2)" using assms(3,4) by simp
  have g: "fst (on_vote_reply (if j \<in> U then Some \<lparr>rvr_Term = t, VoteGranted = True\<rparr> else None) r) = (j \<in> U)" for j
    using assms(8) by (simp add: on_vote_reply_def)
  have "vote_loop n 2 (n - 2) (map ?ev js) r = (Won, r)"
  proof (rule vote_loop_wins)
    show "\<forall>ev \<in> set (map ?ev js). \<exists>rep. ev = Reply rep \<and> snd (on_vote_reply rep r) = r"
      using assms(8) by (auto simp: on_vote_reply_def)
    show "n div 2 < 2 + length (filter (\<lambda>ev. case ev of Reply rep \<Rightarrow> fst (on_vote_reply rep r) | Timeout \<Rightarrow> False) (take (n - 2) (map ?ev js)))"
      using reached_count [OF assms(5,6) len] assms(7) by (simp add: take_map filter_map comp_def g)
  qed (use False len in simp_all)
  then show ?thesis using assms(1,2,3) False by (simp add: finish_election_def election_end_def Let_def)
qed

text \<open>A candidate that reaches a majority, none of which is ahead of it.\<close>

definition electable :: "nat set \<Rightarrow> nat \<Rightarrow> (nat \<Rightarrow> RaftEntry list) \<Rightarrow> Raft list \<Rightarrow> bool" where
  "electable U i D ns \<longleftrightarrow> member (length ns) i (ns ! i) \<and> 2 \<le> length ns \<and> i < length ns \<and> length ns < 2 ^ 63 \<and>
     0 < LastIncludedIndex (ns ! i) \<and> U \<subseteq> {..<length ns} - {i} \<and> length ns div 2 < 1 + card U \<and> replica (ns ! i) (D i) (ns ! i) \<and>
     (\<forall>e \<in> set (rlog (ns ! i)). EntryTerm e \<le> Term (ns ! i)) \<and> Term (ns ! i) + 1 < 2 ^ 63 \<and>
     (\<forall>j \<in> U. replica (ns ! i) (D j) (ns ! j) \<and> member (length ns) j (ns ! j) \<and> Term (ns ! j) \<le> Term (ns ! i) \<and>
       commitIndex (ns ! j) \<le> commitIndex (ns ! i))"

text \<open>The candidate before the votes, and as leader.\<close>

lemma election_begin_member:
  assumes "member n i r" and "wf_log r" and "0 < LastIncludedIndex r"
  defines "r1 \<equiv> persistStateLocked FileOk (r\<lparr>state := Candidate, Term := Term r + 1, votedFor := int i\<rparr>)"
  shows "\<exists>args. election_begin FileOk r = Some (args, r1) \<and> rv_Term args = Term r + 1 \<and> rv_CandidateID args = i \<and>
     (\<forall>f. rlog f = rlog r \<longrightarrow> LastIncludedIndex f = LastIncludedIndex r \<longrightarrow> LastIncludedTerm f = LastIncludedTerm r \<longrightarrow>
        isLogUpToDate (rv_LastLogIndex args) (rv_LastLogTerm args) f)"
  using assms by (auto simp: election_begin_def member_def isLogUpToDate_def Let_def)

lemma becomeLeader_leads:
  assumes "member n i r" and "replica r D r" and "0 < LastIncludedIndex r" and "2 \<le> n" and "i < n" and "n < 2 ^ 63"
    and "U \<subseteq> {..<n} - {i}" and "n div 2 < 1 + card U" and "\<forall>e \<in> set (rlog r). EntryTerm e \<le> Term r" and "Term r + 1 < 2 ^ 63"
  defines "r2 \<equiv> becomeLeader (persistStateLocked FileOk (r\<lparr>state := Candidate, Term := Term r + 1, votedFor := int i\<rparr>))"
  shows "leads U r2 \<and> replica r2 D r2 \<and> Term r2 = Term r + 1 \<and> rlog r2 = rlog r \<and> LastIncludedIndex r2 = LastIncludedIndex r \<and>
     LastIncludedTerm r2 = LastIncludedTerm r \<and> commitIndex r2 = commitIndex r \<and> me r2 = i \<and> length (peers r2) = n"
proof -
  let ?r1 = "persistStateLocked FileOk (r\<lparr>state := Candidate, Term := Term r + 1, votedFor := int i\<rparr>)"
  have w: "wf_log r" "disk_ok r" using assms(2) by (simp_all add: replica_def)
  have d1: "disk_ok ?r1"
    using w(2) assms(5,6,10) by (intro disk_ok_persist) (auto simp: disk_ok_def in_int64_def)
  have nx: "(if rlog r \<noteq> [] then Index (last (rlog r)) + 1 else if 0 < LastIncludedIndex r then LastIncludedIndex r + 1 else 0) =
      LastIncludedIndex r + int (length (rlog r)) + 1"
    using next_index_wf [OF w(1)] assms(3) by (auto simp: log_base_def split: if_splits)
  have r2: "r2 = ?r1\<lparr>state := Leader, nextIndex := replicate n (LastIncludedIndex r + int (length (rlog r)) + 1),
      matchIndex := replicate n (LastIncludedIndex r)\<rparr>"
    using assms(1,3) nx by (cases "rlog r = []") (simp_all add: r2_def becomeLeader_def Let_def member_def)
  have dk: "disk_ok r2" by (rule disk_ok_same [OF d1]) (simp_all add: r2)
  have wf: "wf_log r2" using w(1) by (auto simp: r2 wf_log_def log_base_def split: if_splits)
  have "\<forall>e \<in> set (rlog r). EntryTerm e \<noteq> Term r + 1" using assms(9) by fastforce
  moreover have "\<forall>j \<in> U. j < n" using assms(7) by auto
  ultimately have "leads U r2"
    using assms(1,3-5,7,8) by (auto simp: leads_def member_def r2)
  moreover have "replica r2 D r2" using assms(2) dk wf by (simp add: replica_def r2)
  ultimately show ?thesis using assms(1) by (simp add: r2 member_def)
qed

lemma others_members:
  assumes "me r = i" and "length (peers r) = n" and "i < n"
  shows "distinct (others r) \<and> set (others r) = {..<n} - {i} \<and> length (others r) = n - 1"
proof -
  have "distinct (others r)" "set (others r) = {..<n} - {i}" using assms by (auto simp: others_def)
  then show ?thesis using distinct_card [of "others r"] assms(3) by simp
qed

text \<open>The vote of a peer that holds the log of the candidate \<open>r\<close>.\<close>

lemma replica_vote:
  assumes "replica r D f" and "member n j f" and "Term f \<le> Term r" and "io_works io" and "rv_Term args = Term r + 1"
    and "isLogUpToDate (rv_LastLogIndex args) (rv_LastLogTerm args) f" and "in_int64 (rv_Term args)" and "rv_CandidateID args < 2 ^ 63"
  shows "\<exists>f'. RequestVote io args f = (\<lparr>rvr_Term = Term r + 1, VoteGranted = True\<rparr>, f') \<and> replica r D f' \<and> member n j f' \<and>
     Term f' = Term r + 1 \<and> votedFor f' = int (rv_CandidateID args) \<and> commitIndex f' = commitIndex f"
proof -
  have "Term f < rv_Term args" "disk_ok f" using assms(1,3,5) by (simp_all add: replica_def)
  from RequestVote_lower [OF this(1) assms(6) this(2) assms(4,7,8), of n j] assms(1,2,5) show ?thesis
    by (auto simp: replica_def wf_log_def log_base_def)
qed

lemma election_round_in_step:
  assumes "electable U i D ns" and "\<forall>j. links j = (if j \<in> U then Up else NoDial)" and "\<forall>j. io_works (ios j)"
  defines "ns' \<equiv> election_round FileOk links ios i ns"
  shows "in_step U i D ns' \<and> length ns' = length ns \<and> Term (ns' ! i) = Term (ns ! i) + 1 \<and> rlog (ns' ! i) = rlog (ns ! i) \<and>
     LastIncludedIndex (ns' ! i) = LastIncludedIndex (ns ! i) \<and>
     (\<forall>j \<in> U. Term (ns' ! j) = Term (ns ! i) + 1 \<and> votedFor (ns' ! j) = int i) \<and> (\<forall>j. j \<notin> U \<longrightarrow> j \<noteq> i \<longrightarrow> ns' ! j = ns ! j)"
proof -
  define r where "r = ns ! i"
  define n where "n = length ns"
  have el: "member n i r" "2 \<le> n" "i < n" "n < 2 ^ 63" "0 < LastIncludedIndex r" "U \<subseteq> {..<n} - {i}" "n div 2 < 1 + card U"
      "replica r (D i) r" "\<forall>e \<in> set (rlog r). EntryTerm e \<le> Term r" "Term r + 1 < 2 ^ 63"
      "\<forall>j \<in> U. replica r (D j) (ns ! j) \<and> member n j (ns ! j) \<and> Term (ns ! j) \<le> Term r \<and> commitIndex (ns ! j) \<le> commitIndex r"
    using assms(1) unfolding electable_def r_def n_def by blast+
  have w: "wf_log r" "disk_ok r" using el(8) by (simp_all add: replica_def)
  define r1 where "r1 = persistStateLocked FileOk (r\<lparr>state := Candidate, Term := Term r + 1, votedFor := int i\<rparr>)"
  obtain args where a: "election_begin FileOk r = Some (args, r1)" "rv_Term args = Term r + 1" "rv_CandidateID args = i"
      "\<forall>f. rlog f = rlog r \<longrightarrow> LastIncludedIndex f = LastIncludedIndex r \<longrightarrow> LastIncludedTerm f = LastIncludedTerm r \<longrightarrow>
         isLogUpToDate (rv_LastLogIndex args) (rv_LastLogTerm args) f"
    using election_begin_member [OF el(1) w(1) el(5)] unfolding r1_def by blast
  have t: "in_int64 (rv_Term args)" "rv_CandidateID args < 2 ^ 63"
    using w(2) el(3,4,10) a(2,3) by (auto simp: disk_ok_def in_int64_def)
  let ?good = "\<lambda>j f. RequestVote (ios j) args (ns ! j) = (\<lparr>rvr_Term = Term r + 1, VoteGranted = True\<rparr>, f) \<and> replica r (D j) f \<and>
      member n j f \<and> Term f = Term r + 1 \<and> votedFor f = int i \<and> commitIndex f \<le> commitIndex r"
  have "\<exists>f. ?good j f" if "j \<in> U" for j
  proof -
    have f: "replica r (D j) (ns ! j)" "member n j (ns ! j)" "Term (ns ! j) \<le> Term r" "commitIndex (ns ! j) \<le> commitIndex r"
      using el(11) that by blast+
    moreover from f(1) have "isLogUpToDate (rv_LastLogIndex args) (rv_LastLogTerm args) (ns ! j)" using a(4) by (simp add: replica_def)
    ultimately show ?thesis using replica_vote [OF f(1-3) assms(3) [rule_format] a(2) _ t, of j] a(3) by auto
  qed
  then obtain g where g: "\<And>j. j \<in> U \<Longrightarrow> ?good j (g j)" by metis
  let ?js = "others r1" and ?ms = "ns[i := r1]"
  let ?evs = "map (\<lambda>j. Reply (if j \<in> U then Some \<lparr>rvr_Term = Term r + 1, VoteGranted = True\<rparr> else None)) ?js"
  have r1: "me r1 = i" "length (peers r1) = n" "state r1 = Candidate" "Term r + 1 = Term r1"
    using el(1) by (simp_all add: r1_def member_def)
  have js: "distinct ?js" "set ?js = {..<n} - {i}" "length ?js = n - 1" using others_members [OF r1(1,2) el(3)] by simp_all
  have "?ms ! j = ns ! j" if "j \<in> U" for j using that el(6) by (cases "j = i") auto
  then have "\<forall>j \<in> U. RequestVote (ios j) args (?ms ! j) = (\<lparr>rvr_Term = Term r + 1, VoteGranted = True\<rparr>, g j)" using g by simp
  then obtain ms where ms: "vote_round links ios args ?js ?ms = (?evs, ms)" "length ms = n"
      "\<forall>j. ms ! j = (if j \<in> U \<inter> set ?js then g j else ?ms ! j)"
    using vote_round_granted [OF assms(2) js(1), of ?ms ios args _ g] js(2) unfolding n_def length_list_update by blast
  have mi: "ms ! i = r1" using ms(3) el(3) js(2) by (simp add: n_def)
  have U: "U \<inter> set ?js = U" using el(6) js(2) by blast
  have fin: "finish_election ?evs r1 = becomeLeader r1"
    by (rule finish_election_wins [OF r1(3,2) el(2) js(3,1) _ el(7) r1(4)]) (use el(6) js(2) in blast)
  define r2 where "r2 = becomeLeader r1"
  have out: "ns' = ms[i := r2]"
    using a(1) ms(1) fin mi by (simp add: ns'_def election_round_def r_def [symmetric] r2_def Let_def)
  have ld: "leads U r2" "replica r2 (D i) r2" "Term r2 = Term r + 1" "rlog r2 = rlog r" "LastIncludedIndex r2 = LastIncludedIndex r"
      "LastIncludedTerm r2 = LastIncludedTerm r" "commitIndex r2 = commitIndex r" "me r2 = i" "length (peers r2) = n"
    using becomeLeader_leads [OF el(1,8,5,2,3,4,6,7,9,10)] unfolding r2_def r1_def by blast+
  have at: "ns' ! i = r2" "length ns' = n" using out el(3) ms(2) by simp_all
  have oth: "ns' ! j = (if j \<in> U then g j else ns ! j)" if "j \<noteq> i" for j using that out ms(3) U by simp
  have fo: "ns' ! j = g j" "replica r2 (D j) (g j)" if "j \<in> U" for j
    using that oth [of j] el(6) g [OF that] ld by (auto simp: replica_def)
  have "\<forall>e \<in> set (rlog r2). EntryTerm e \<le> Term r2" using el(9) ld by fastforce
  then have "in_step U i D ns'" using ld fo g at by (simp add: in_step_def)
  then show ?thesis using ld fo g at oth unfolding r_def [symmetric] n_def [symmetric] by simp
qed

text \<open>What the nodes of a cluster in step have delivered.\<close>

lemma in_step_delivered:
  assumes "in_step U i D ns" and "commitIndex (ns ! i) = LastIncludedIndex (ns ! i) + int (length (rlog (ns ! i)))"
  shows "ApplyCh (ns ! i) = D i @ rlog (ns ! i)"
    and "j \<in> U \<Longrightarrow> commitIndex (ns ! j) = commitIndex (ns ! i) - 1 \<Longrightarrow> ApplyCh (ns ! j) = D j @ butlast (rlog (ns ! i))"
proof -
  show "ApplyCh (ns ! i) = D i @ rlog (ns ! i)" using assms by (simp add: in_step_def replica_def)
  assume j: "j \<in> U" "commitIndex (ns ! j) = commitIndex (ns ! i) - 1"
  then have "replica (ns ! i) (D j) (ns ! j)" using assms(1) by (simp add: in_step_def)
  moreover have "nat (int (length (rlog (ns ! i))) - 1) = length (rlog (ns ! i)) - 1" by simp
  ultimately show "ApplyCh (ns ! j) = D j @ butlast (rlog (ns ! i))" using j assms(2) by (simp add: replica_def butlast_conv_take)
qed

text \<open>Any of the peers can take over when the leader is lost.\<close>

lemma settled_electable:
  assumes "in_step U i D ns" and "settled U i ns" and "j \<in> U" and "length ns div 2 < card U" and "length ns < 2 ^ 63"
    and "Term (ns ! i) + 1 < 2 ^ 63"
  shows "electable (U - {j}) j D ns"
proof -
  define r n where "r = ns ! i" and "n = length ns"
  have st: "leads U r" "n = length (peers r)" "\<forall>e \<in> set (rlog r). EntryTerm e \<le> Term r"
      "\<forall>k \<in> U. replica r (D k) (ns ! k) \<and> member n k (ns ! k)"
    using assms(1) unfolding in_step_def r_def n_def by blast+
  have se: "Term (ns ! k) = Term r" "commitIndex (ns ! k) = commitIndex (ns ! j)" if "k \<in> U" for k
    using assms(2,3) that unfolding settled_def r_def by blast+
  have rj: "rlog (ns ! j) = rlog r" "LastIncludedIndex (ns ! j) = LastIncludedIndex r" "LastIncludedTerm (ns ! j) = LastIncludedTerm r"
    using st(4) assms(3) by (simp_all add: replica_def)
  have rep: "replica (ns ! j) (D k) (ns ! k)" if "k \<in> U" for k
  proof -
    have "replica r (D k) (ns ! k)" using st(4) that by blast
    then show ?thesis using rj by (auto simp: replica_def)
  qed
  have "finite U" using assms(4) card.infinite by fastforce
  then have "1 + card (U - {j}) = card U" using card_Suc_Diff1 [OF _ assms(3)] by simp
  moreover have "2 \<le> n" "j < n" "U - {j} \<subseteq> {..<n} - {j}" "0 < LastIncludedIndex r" using st(1,2) assms(3) by (auto simp: leads_def)
  moreover have "member n k (ns ! k)" "Term (ns ! k) = Term (ns ! j)" "commitIndex (ns ! k) \<le> commitIndex (ns ! j)" if "k \<in> U" for k
    using st(4) that se(1) [OF that] se(1) [OF assms(3)] se(2) [OF that] by simp_all
  ultimately show ?thesis
    unfolding electable_def n_def [symmetric]
    using st(3) se(1) [OF assms(3)] rep rj assms(3-6) by (simp add: n_def r_def)
qed

text \<open>An election followed by commands.\<close>

lemma elected_commands:
  assumes "electable U i D ns" and "\<forall>j. links j = (if j \<in> U then Up else NoDial)" and "\<forall>j. io_works (ios j)" and "cs \<noteq> []"
    and "LastIncludedIndex (ns ! i) + int (length (rlog (ns ! i))) + int (length cs) < 2 ^ 63" and "\<forall>c \<in> set cs. length c < 2 ^ 63"
  shows "\<exists>ns' es. cluster_commands cfg FileOk links ios i cs (election_round FileOk links ios i ns) = Some ns' \<and> in_step U i D ns' \<and>
     settled U i ns' \<and> length ns' = length ns \<and> rlog (ns' ! i) = rlog (ns ! i) @ es \<and> map Command es = cs \<and>
     Term (ns' ! i) = Term (ns ! i) + 1 \<and> LastIncludedIndex (ns' ! i) = LastIncludedIndex (ns ! i) \<and>
     commitIndex (ns' ! i) = LastIncludedIndex (ns' ! i) + int (length (rlog (ns' ! i))) \<and>
     (2 \<le> length cs \<longrightarrow> (\<forall>j \<in> U. commitIndex (ns' ! j) = commitIndex (ns' ! i) - 1)) \<and> (\<forall>j. j \<notin> U \<longrightarrow> j \<noteq> i \<longrightarrow> ns' ! j = ns ! j)"
proof -
  define q where "q = election_round FileOk links ios i ns"
  have el: "in_step U i D q" "length q = length ns" "Term (q ! i) = Term (ns ! i) + 1" "rlog (q ! i) = rlog (ns ! i)"
      "LastIncludedIndex (q ! i) = LastIncludedIndex (ns ! i)" "\<forall>j. j \<notin> U \<longrightarrow> j \<noteq> i \<longrightarrow> q ! j = ns ! j"
    using election_round_in_step [OF assms(1-3)] unfolding q_def by blast+
  have "LastIncludedIndex (q ! i) + int (length (rlog (q ! i))) + int (length cs) < 2 ^ 63" using el assms(5) by simp
  from cluster_commands_in_step [OF el(1) assms(2,3) this assms(6), of cfg]
  obtain ns' es where n: "cluster_commands cfg FileOk links ios i cs q = Some ns'" "in_step U i D ns'" "length ns' = length q"
      "rlog (ns' ! i) = rlog (q ! i) @ es" "map Command es = cs" "LastIncludedIndex (ns' ! i) = LastIncludedIndex (q ! i)"
      "Term (ns' ! i) = Term (q ! i)"
      "settled U i ns' \<and> commitIndex (ns' ! i) = LastIncludedIndex (q ! i) + int (length (rlog (ns' ! i)))"
      "2 \<le> length cs \<longrightarrow> (\<forall>j \<in> U. commitIndex (ns' ! j) = commitIndex (ns' ! i) - 1)" "\<forall>j. j \<notin> U \<longrightarrow> j \<noteq> i \<longrightarrow> ns' ! j = q ! j"
    using assms(4) by blast
  show ?thesis unfolding q_def [symmetric]
    by (rule exI [of _ ns'], rule exI [of _ es]) (use n el in simp)
qed

end
