(* ===== verification/RaftVotes.thy ===== *)
theory RaftVotes
  imports RaftCorrect
begin

text \<open>
  One vote per term: the votes a node grants over a run of its handlers, crashes and restarts included. The
  one transition left out is the timeout of its own election, which forgets the vote.
\<close>

section \<open>A node over time\<close>

abbreviation io_state_ok :: "RaftIO \<Rightarrow> bool" where
  "io_state_ok io \<equiv> \<forall>n. state_io io n = FileOk"

text \<open>\<open>vrun r0 V r\<close>: from \<open>r0\<close> the node gets to \<open>r\<close>, having granted the votes \<open>V\<close>, each a term and a candidate.\<close>

inductive vrun :: "Raft \<Rightarrow> (int \<times> nat) list \<Rightarrow> Raft \<Rightarrow> bool" for r0 where
  v_start: "vrun r0 [] r0"
| v_vote: "\<lbrakk>vrun r0 V r; RequestVote io args r = (reply, r'); io_state_ok io; in_int64 (rv_Term args);
     rv_CandidateID args < 2 ^ 63\<rbrakk> \<Longrightarrow>
   vrun r0 (if VoteGranted reply then V @ [(rv_Term args, rv_CandidateID args)] else V) r'"
| v_candidate: "\<lbrakk>vrun r0 V r; election_begin FileOk r = Some (args, r'); in_int64 (Term r + 1); me r < 2 ^ 63\<rbrakk> \<Longrightarrow>
   vrun r0 (V @ [(Term r', me r)]) r'"
| v_append: "\<lbrakk>vrun r0 V r; AppendEntries io args r = Some (reply, r'); io_state_ok io; in_int64 (ae_Term args)\<rbrakk> \<Longrightarrow> vrun r0 V r'"
| v_install: "\<lbrakk>vrun r0 V r; InstallSnapshot io args r = Some (reply, r'); io_state_ok io; in_int64 (is_Term args)\<rbrakk> \<Longrightarrow> vrun r0 V r'"
| v_vote_reply: "\<lbrakk>vrun r0 V r; on_vote_reply (Some a) r = (b, r'); in_int64 (rvr_Term a)\<rbrakk> \<Longrightarrow> vrun r0 V r'"
| v_append_reply: "\<lbrakk>vrun r0 V r; on_append_reply cfg i (Some a') r = (t, r'); in_int64 (aer_Term a')\<rbrakk> \<Longrightarrow> vrun r0 V r'"
| v_won: "vrun r0 V r \<Longrightarrow> vrun r0 V (election_end Won r)"
| v_restart: "\<lbrakk>vrun r0 V r; NewRaftWithDataDir (peers r) (me r) (wal r) = Some r'\<rbrakk> \<Longrightarrow> vrun r0 V r'"

section \<open>The invariant\<close>

definition vote_ok :: "(int \<times> nat) list \<Rightarrow> int \<Rightarrow> int \<Rightarrow> bool" where
  "vote_ok V t v \<longleftrightarrow> (\<forall>(t', c) \<in> set V. t' \<le> t \<and> (t' = t \<longrightarrow> v = int c))"

definition one_vote :: "(int \<times> nat) list \<Rightarrow> bool" where
  "one_vote V \<longleftrightarrow> (\<forall>t c c'. (t, c) \<in> set V \<longrightarrow> (t, c') \<in> set V \<longrightarrow> c = c')"

definition vinv :: "(int \<times> nat) list \<Rightarrow> Raft \<Rightarrow> bool" where
  "vinv V r \<longleftrightarrow> one_vote V \<and> vote_ok V (Term r) (votedFor r) \<and> in_int64 (Term r) \<and> in_int64 (votedFor r) \<and>
     (\<exists>t v. LoadState (wal r) = Inr (t, v) \<and> vote_ok V t v \<and> in_int64 t \<and> in_int64 v)"

text \<open>
  What every handler does to the vote: the term grows, or term and vote stay; the file is left alone or says
  what the memory says.
\<close>

definition keeps_vote :: "Raft \<Rightarrow> Raft \<Rightarrow> bool" where
  "keeps_vote r r' \<longleftrightarrow> (Term r < Term r' \<or> Term r' = Term r \<and> votedFor r' = votedFor r) \<and>
     in_int64 (Term r') \<and> in_int64 (votedFor r') \<and>
     (LoadState (wal r') = LoadState (wal r) \<or> LoadState (wal r') = Inr (Term r', votedFor r'))"

lemma vote_ok_later: "vote_ok V t v \<Longrightarrow> t < t' \<Longrightarrow> vote_ok V t' v'"
  by (fastforce simp: vote_ok_def)

lemma vinv_keeps:
  assumes "vinv V r" and "keeps_vote r r'"
  shows "vinv V r'"
proof -
  have "vote_ok V (Term r') (votedFor r')"
    using assms vote_ok_later [of V "Term r" "votedFor r"] by (auto simp: vinv_def keeps_vote_def)
  then show ?thesis using assms unfolding vinv_def keeps_vote_def by metis
qed

text \<open>Granting a vote in the current term, once it is in the file.\<close>

lemma vinv_grant:
  assumes "vinv V r" and "votedFor r \<in> {-1, int c}" and "Term r' = Term r" and "votedFor r' = int c"
    and "LoadState (wal r') = Inr (Term r', int c)" and "c < 2 ^ 63"
  shows "vinv (V @ [(Term r, c)]) r'"
proof -
  have "x = c" if "(Term r, x) \<in> set V" for x
    using assms(1,2) that by (fastforce simp: vinv_def vote_ok_def)
  then have "one_vote (V @ [(Term r, c)])" "vote_ok (V @ [(Term r, c)]) (Term r) (int c)"
    using assms(1) by (auto simp: vinv_def one_vote_def vote_ok_def)
  then show ?thesis using assms in_int64_of_nat [OF assms(6)] by (simp add: vinv_def)
qed

section \<open>The handlers keep the vote\<close>

lemma keeps_vote_refl: "vinv V r \<Longrightarrow> keeps_vote r r"
  by (simp add: vinv_def keeps_vote_def)

lemma LoadState_persist:
  assumes "in_int64 (Term r)" and "in_int64 (votedFor r)"
  shows "LoadState (wal (persistStateLocked FileOk r)) = Inr (Term r, votedFor r)"
  by (rule persist_saves [OF assms])

lemma keeps_follow:
  assumes "vinv V r" and "in_int64 t" and "io_state_ok io"
  shows "keeps_vote r (follow io t r)"
proof (cases "Term r < t")
  case True
  then have "LoadState (wal (follow io t r)) = Inr (t, -1)"
    using LoadState_persist [of "step_down t r"] assms(2,3) by (simp add: follow_def)
  with True show ?thesis using assms(2) by (simp add: keeps_vote_def)
next
  case False
  then show ?thesis using keeps_vote_refl [OF assms(1)] by (simp add: follow_def)
qed

lemma keeps_vote_trans_file:
  assumes "keeps_vote r r1" and "Term r' = Term r1" and "votedFor r' = votedFor r1"
    and "LoadState (wal r') = LoadState (wal r1) \<or> LoadState (wal r') = Inr (Term r1, votedFor r1)"
  shows "keeps_vote r r'"
  using assms by (auto simp: keeps_vote_def)

lemma keeps_AppendEntries:
  assumes "vinv V r" and "AppendEntries io args r = Some (reply, r')" and "io_state_ok io" and "in_int64 (ae_Term args)"
  shows "keeps_vote r r'"
proof (cases "ae_Term args < Term r")
  case True
  then show ?thesis using assms(2) keeps_vote_refl [OF assms(1)] by (simp add: AppendEntries_parts)
next
  case False
  let ?r1 = "follow io (ae_Term args) r"
  have k: "keeps_vote r ?r1" by (rule keeps_follow [OF assms(1,4,3)])
  have s: "Term (store_entries io args res ?r1) = Term ?r1 \<and> votedFor (store_entries io args res ?r1) = votedFor ?r1 \<and>
      (LoadState (wal (store_entries io args res ?r1)) = LoadState (wal ?r1) \<or>
       LoadState (wal (store_entries io args res ?r1)) = Inr (Term ?r1, votedFor ?r1))" for res
  proof (cases "Entries args = []")
    case True
    then show ?thesis by (simp add: store_entries_def Let_def split: prod.splits)
  next
    case False
    obtain lg rb add where res: "res = (lg, rb, add)" by (cases res)
    let ?q = "?r1\<lparr>rlog := lg, wal := snd (if rb then RebuildLogFile (log_io io) lg (wal ?r1) else AppendLogs (log_io io) add (wal ?r1))\<rparr>"
    have "store_entries io args res ?r1 = persistStateLocked FileOk ?q"
      using False assms(3) by (simp add: store_entries_def res Let_def)
    then show ?thesis using LoadState_persist [of ?q] k by (simp add: keeps_vote_def)
  qed
  have "r' = ?r1 \<or> (\<exists>res. r' = advance_commit args (store_entries io args res ?r1))"
    using assms(2) False by (auto simp: AppendEntries_parts Let_def split: if_splits option.splits)
  moreover have "keeps_vote r (advance_commit args (store_entries io args res ?r1))" for res
    using s [of res] by (intro keeps_vote_trans_file [OF k]) (auto simp: advance_commit_def)
  ultimately show ?thesis using k by auto
qed

lemma state_SaveSnapshot: "stateFile (snd (SaveSnapshot io d i t w)) = stateFile w"
  by (auto simp: SaveSnapshot_def Let_def split: file_io.splits)

lemma state_DeleteOldSnapshots: "stateFile (DeleteOldSnapshots rms k w) = stateFile w"
  by (simp add: DeleteOldSnapshots_def split: option.splits)

lemma state_TruncateLogs: "TruncateLogs io i w = Some (x, w') \<Longrightarrow> stateFile w' = stateFile w"
  by (auto simp: TruncateLogs_def split: option.splits if_splits dest!: arg_cong [of _ "(x, w')" "\<lambda>p. stateFile (snd p)"])

text \<open>\<open>InstallSnapshot\<close> leaves the state file alone, or ends by saving the term and the vote.\<close>

lemma InstallSnapshot_vote:
  assumes "InstallSnapshot io args r = Some (reply, r')" and "\<not> is_Term args < Term r"
  defines "r1 \<equiv> (if Term r < is_Term args then step_down (is_Term args) r else r)"
  shows "Term r' = Term r1 \<and> votedFor r' = votedFor r1 \<and>
     (stateFile (wal r') = stateFile (wal r) \<or>
      (\<exists>q. wal r' = wal (persistStateLocked (state_io io 0) q) \<and> Term q = Term r1 \<and> votedFor q = votedFor r1))"
proof -
  have w: "stateFile (wal r1) = stateFile (wal r)" by (simp add: r1_def)
  obtain x w1 where s: "SaveSnapshot (snap_io io) (is_Data args) (is_LastIncludedIndex args) (is_LastIncludedTerm args) (wal r1) = (x, w1)"
    by fastforce
  then have w1: "stateFile w1 = stateFile (wal r)" using state_SaveSnapshot w by (metis snd_conv)
  let ?w2 = "DeleteOldSnapshots (rm_snap io) (is_LastIncludedIndex args) w1"
  have w2: "stateFile ?w2 = stateFile (wal r)" by (simp add: state_DeleteOldSnapshots w1)
  have i: "InstallSnapshot io args r = Some (reply, r')" by (rule assms(1))
  show ?thesis
  proof (cases "is_LastIncludedIndex args \<le> LastIncludedIndex r1")
    case True
    then have "r' = r1" using i assms(2) unfolding r1_def by (simp add: InstallSnapshot_def Let_def)
    then show ?thesis using w by simp
  next
    case f: False
    show ?thesis
    proof (cases x)
      case (Inl e)
      then have "r' = r1\<lparr>wal := w1\<rparr>" using i assms(2) f s unfolding r1_def by (simp add: InstallSnapshot_def Let_def)
      then show ?thesis using w1 by simp
    next
      case (Inr u)
      obtain y w3 where t: "TruncateLogs (log_io io) (is_LastIncludedIndex args) ?w2 = Some (y, w3)"
        using i assms(2) f s Inr unfolding r1_def by (auto simp: InstallSnapshot_def Let_def split: option.splits)
      have w3: "stateFile w3 = stateFile (wal r)" using state_TruncateLogs [OF t] w2 by simp
      show ?thesis
      proof (cases y)
        case (Inl e)
        then show ?thesis using i assms(2) f s \<open>x = Inr u\<close> t w3 unfolding r1_def
          by (auto simp: InstallSnapshot_def Let_def)
      next
        case (Inr v)
        then show ?thesis using i assms(2) f s \<open>x = Inr u\<close> t unfolding r1_def
          by (auto simp: InstallSnapshot_def Let_def)
      qed
    qed
  qed
qed

lemma keeps_InstallSnapshot:
  assumes "vinv V r" and "InstallSnapshot io args r = Some (reply, r')" and "io_state_ok io" and "in_int64 (is_Term args)"
  shows "keeps_vote r r'"
proof (cases "is_Term args < Term r")
  case True
  then show ?thesis using assms(2) keeps_vote_refl [OF assms(1)] by (simp add: InstallSnapshot_def)
next
  case False
  let ?r1 = "if Term r < is_Term args then step_down (is_Term args) r else r"
  have k: "keeps_vote r ?r1" using assms(1,4) by (simp add: keeps_vote_def vinv_def)
  then have i: "in_int64 (Term ?r1)" "in_int64 (votedFor ?r1)" by (simp_all add: keeps_vote_def)
  have w: "wal ?r1 = wal r" by simp
  have p: "LoadState (wal (persistStateLocked (state_io io 0) q)) = Inr (Term ?r1, votedFor ?r1)"
    if "Term q = Term ?r1" "votedFor q = votedFor ?r1" for q
    using LoadState_persist [of q] that i assms(3) by simp
  note v = InstallSnapshot_vote [OF assms(2) False]
  have "LoadState (wal r') = LoadState (wal ?r1) \<or> LoadState (wal r') = Inr (Term ?r1, votedFor ?r1)"
    unfolding w using v p LoadState_same [of "wal r'" "wal r"] by metis
  then show ?thesis using v by (intro keeps_vote_trans_file [OF k]) blast+
qed

lemma keeps_replies:
  "vinv V r \<Longrightarrow> on_vote_reply (Some a) r = (b, r') \<Longrightarrow> in_int64 (rvr_Term a) \<Longrightarrow> keeps_vote r r'"
  "vinv V r \<Longrightarrow> on_append_reply cfg i (Some a') r = (t, r') \<Longrightarrow> in_int64 (aer_Term a') \<Longrightarrow> keeps_vote r r'"
  "vinv V r \<Longrightarrow> keeps_vote r (election_end Won r)"
  by (auto simp: on_vote_reply_def on_append_reply_def updateCommitIndex_def applyCommittedLogs_def election_end_def
      becomeLeader_def keeps_vote_def vinv_def Let_def split: if_splits option.splits)

section \<open>Every transition\<close>

lemma vinv_vote:
  assumes "vinv V r" and "RequestVote io args r = (reply, r')" and "io_state_ok io" and "in_int64 (rv_Term args)"
    and "rv_CandidateID args < 2 ^ 63"
  shows "vinv (if VoteGranted reply then V @ [(rv_Term args, rv_CandidateID args)] else V) r'"
proof (cases "rv_Term args < Term r")
  case True
  then show ?thesis using assms(1,2) by (auto simp: RequestVote_parts)
next
  case False
  let ?r1 = "follow io (rv_Term args) r" and ?c = "rv_CandidateID args"
  have k: "vinv V ?r1" by (rule vinv_keeps [OF assms(1) keeps_follow [OF assms(1,4,3)]])
  have t: "Term ?r1 = rv_Term args" using False by simp
  show ?thesis
  proof (cases "VoteGranted reply")
    case True
    then have v: "votedFor ?r1 \<in> {-1, int ?c}" "r' = persistStateLocked (state_io io 1) (?r1\<lparr>votedFor := int ?c\<rparr>)"
      using assms(2) False by (auto simp: RequestVote_parts Let_def split: if_splits)
    have "LoadState (wal r') = Inr (Term r', int ?c)"
      using LoadState_persist [of "?r1\<lparr>votedFor := int ?c\<rparr>"] k in_int64_of_nat [OF assms(5)] assms(3)
      by (simp add: v(2) vinv_def)
    from vinv_grant [OF k v(1) _ _ this assms(5)] show ?thesis using True t v(2) by simp
  next
    case no: False
    then have "r' = ?r1" using assms(2) False by (auto simp: RequestVote_parts Let_def split: if_splits)
    then show ?thesis using k no by simp
  qed
qed

lemma vinv_candidate:
  assumes "vinv V r" and "election_begin FileOk r = Some (args, r')" and "in_int64 (Term r + 1)" and "me r < 2 ^ 63"
  shows "vinv (V @ [(Term r', me r)]) r'"
proof -
  let ?q = "r\<lparr>state := Candidate, Term := Term r + 1, votedFor := int (me r)\<rparr>"
  have r': "r' = persistStateLocked FileOk ?q"
    using assms(2) by (auto simp: election_begin_def Let_def split: if_splits prod.splits)
  have "vinv V (r\<lparr>Term := Term r + 1, votedFor := -1\<rparr>)"
    using assms(1,3) by (intro vinv_keeps [OF assms(1)]) (simp add: keeps_vote_def)
  moreover have "LoadState (wal r') = Inr (Term r', int (me r))"
    using LoadState_persist [of ?q] assms(3) in_int64_of_nat [OF assms(4)] by (simp add: r')
  ultimately show ?thesis using vinv_grant [of V "r\<lparr>Term := Term r + 1, votedFor := -1\<rparr>" "me r" r'] assms(4)
    by (simp add: r')
qed

lemma vinv_restart:
  assumes "vinv V r" and "NewRaftWithDataDir ps i (wal r) = Some r'"
  shows "vinv V r'"
proof -
  obtain t v where l: "LoadState (wal r) = Inr (t, v)" "vote_ok V t v" "in_int64 t" "in_int64 v"
    using assms(1) by (auto simp: vinv_def)
  obtain q where q: "readPersist (new_node ps i (wal r)) = Some q"
    using assms(2) by (auto simp: NewRaftWithDataDir_def split: option.splits)
  then have "Term q = t \<and> votedFor q = v \<and> wal q = wal r"
    by (auto simp: readPersist_def LoadPersist_def new_node_def l(1) Let_def split: option.splits prod.splits)
  moreover have "Term r' = Term q \<and> votedFor r' = votedFor q \<and> wal r' = wal q"
    using assms(2) q by (auto simp: NewRaftWithDataDir_def split: option.splits if_splits sum.splits prod.splits)
  ultimately show ?thesis using l assms(1) by (simp add: vinv_def)
qed

lemma vrun_inv:
  assumes "vrun r0 V r" and "vinv [] r0"
  shows "vinv V r"
  using assms
proof (induction rule: vrun.induct)
  case (v_vote V r io args reply r')
  then show ?case using vinv_vote by blast
next
  case (v_candidate V r args r')
  then show ?case using vinv_candidate by blast
next
  case (v_append V r io args reply r')
  then show ?case using vinv_keeps keeps_AppendEntries by blast
next
  case (v_install V r io args reply r')
  then show ?case using vinv_keeps keeps_InstallSnapshot by blast
next
  case (v_vote_reply V r a b r')
  then show ?case using vinv_keeps keeps_replies(1) by blast
next
  case (v_append_reply V r cfg i a' t r')
  then show ?case using vinv_keeps keeps_replies(2) by blast
next
  case (v_won V r)
  then show ?case using vinv_keeps keeps_replies(3) by blast
next
  case (v_restart V r r')
  then show ?case using vinv_restart by blast
qed

end
