(* ===== verification/RaftClaims.thy ===== *)
theory RaftClaims
  imports RaftVotes RaftLog
begin

text \<open>
  The properties of the Raft layer, each with a concrete instance where it has hypotheses. Several state what
  the code does where that is not what a comment says or what the protocol needs.
\<close>

definition wal0 :: RaftWAL where
  "wal0 = \<lparr>logFile = Some [], log_open = True, stateFile = None, snapshots = None\<rparr>"

definition three :: "bytes list" where
  "three = [[1], [2], [3]]"

definition io0 :: RaftIO where
  "io0 = \<lparr>state_io = (\<lambda>_. FileOk), log_io = FileOk, snap_io = FileOk, rm_snap = (\<lambda>_. True), ch_room = True\<rparr>"

definition rcfg0 :: RaftConfig where
  "rcfg0 = \<lparr>RaftSnapshotThreshold = 0, RaftSnapshotKeepEntries = 0\<rparr>"

abbreviation ent :: "int \<Rightarrow> int \<Rightarrow> bytes \<Rightarrow> RaftEntry" where
  "ent i t c \<equiv> \<lparr>Index = i, EntryTerm = t, Command = c, IsSnapshot = False\<rparr>"

lemma io_works_io0: "io_works io0"
  by (simp add: io0_def)

lemma ent_ok: "0 \<le> i \<Longrightarrow> i < 1000 \<Longrightarrow> 0 \<le> t \<Longrightarrow> t < 1000 \<Longrightarrow> length c < 1000 \<Longrightarrow> log_entry_ok (ent i t c)"
  by (simp add: log_entry_ok_def in_int64_def)

section \<open>Votes\<close>


definition ask :: "nat \<Rightarrow> RequestVoteArgs" where
  "ask c = \<lparr>rv_Term = 1, rv_CandidateID = c, rv_LastLogIndex = -1, rv_LastLogTerm = 0\<rparr>"


text \<open>
  The timeout of an election forgets the node's own vote within the same term (\<open>raft.go\<close>, lines 303 to 311):
  a node that asked for votes in a term, and timed out, grants a vote to another candidate in that same term.
\<close>

theorem timeout_votes_twice:
  assumes "election_begin FileOk r = Some (args, r1)" and "rv_Term a = Term r1" and "rv_CandidateID a \<noteq> me r"
    and "isLogUpToDate (rv_LastLogIndex a) (rv_LastLogTerm a) r"
  shows "votedFor r1 = int (me r) \<and> VoteGranted (fst (RequestVote io a (election_end TimedOut r1)))"
proof -
  have r1: "r1 = persistStateLocked FileOk (r\<lparr>state := Candidate, Term := Term r + 1, votedFor := int (me r)\<rparr>)"
    using assms(1) by (auto simp: election_begin_def Let_def split: if_splits prod.splits)
  then have "isLogUpToDate (rv_LastLogIndex a) (rv_LastLogTerm a) (r1\<lparr>state := Follower, votedFor := -1\<rparr>)"
    using assms(4) isLogUpToDate_cong [of "r1\<lparr>state := Follower, votedFor := -1\<rparr>" r] by simp
  then show ?thesis using assms(2) r1
    by (simp add: RequestVote_parts election_end_def follow_def Let_def)
qed

theorem timeout_votes_twice_witness:
  "\<exists>args r1. election_begin FileOk (new_node three 0 wal0) = Some (args, r1) \<and> votedFor r1 = 0 \<and>
     VoteGranted (fst (RequestVote io0 (ask 2) (election_end TimedOut r1)))"
proof -
  obtain args r1 where e: "election_begin FileOk (new_node three 0 wal0) = Some (args, r1)"
    by (simp add: election_begin_def new_node_def Let_def)
  then have "Term r1 = 1" by (auto simp: election_begin_def new_node_def Let_def split: prod.splits)
  then have "rv_Term (ask 2) = Term r1" by (simp add: ask_def)
  moreover have "rv_CandidateID (ask 2) \<noteq> me (new_node three 0 wal0)" by (simp add: ask_def new_node_def)
  moreover have "isLogUpToDate (rv_LastLogIndex (ask 2)) (rv_LastLogTerm (ask 2)) (new_node three 0 wal0)"
    by (simp add: isLogUpToDate_def new_node_def)
  ultimately show ?thesis using timeout_votes_twice [OF e] e by (fastforce simp: new_node_def)
qed

section \<open>Elections\<close>

text \<open>
  C36. The candidate counts its own vote twice: once as the initial count and once through the channel
  (\<open>raft.go\<close>, lines 239 to 241). In a cluster of two or three nodes it becomes leader whatever the peers answer, so
  two nodes become leader of the same term without a single granted vote.
\<close>

theorem two_leaders:
  assumes "length (peers r) = 3" and "length (peers q) = 3" and "Term q = Term r"
    and "election_begin io r = Some (a, r1)" and "election_begin io' q = Some (b, q1)"
  shows "state (election_end (count_election r1 evs) r1) = Leader \<and> state (election_end (count_election q1 evs') q1) = Leader \<and>
     Term (election_end (count_election r1 evs) r1) = Term (election_end (count_election q1 evs') q1)"
proof -
  have e: "length (peers x1) = 3 \<and> state x1 = Candidate \<and> Term x1 = Term x + 1"
    if "election_begin i x = Some (c, x1)" "length (peers x) = 3" for i x c x1
    using that by (auto simp: election_begin_def Let_def split: if_splits prod.splits)
  have "collect_votes 3 (Suc 0) 2 (Vote True # vs) = Won" for vs by (subst numeral_2_eq_2) simp
  then have w: "count_election x1 vs = Won" if "length (peers x1) = 3" for x1 vs
    using that by (simp add: count_election_def)
  show ?thesis using e [OF assms(4,1)] e [OF assms(5,2)] w assms(3)
    by (simp add: election_end_def becomeLeader_def Let_def)
qed

theorem two_leaders_witness:
  "\<exists>a r1 b q1. election_begin FileOk (new_node three 0 wal0) = Some (a, r1) \<and> election_begin FileOk (new_node three 1 wal0) = Some (b, q1) \<and>
     state (election_end (count_election r1 [Vote False, Vote False]) r1) = Leader \<and>
     state (election_end (count_election q1 [Vote False, Vote False]) q1) = Leader"
proof -
  obtain a r1 where e: "election_begin FileOk (new_node three 0 wal0) = Some (a, r1)"
    by (simp add: election_begin_def new_node_def Let_def)
  obtain b q1 where f: "election_begin FileOk (new_node three 1 wal0) = Some (b, q1)"
    by (simp add: election_begin_def new_node_def Let_def)
  from two_leaders [OF _ _ _ e f] e f show ?thesis by (simp add: new_node_def three_def)
qed

section \<open>Replication\<close>

text \<open>
  C10. On a node that has a snapshot, \<open>AppendEntries\<close> never panics; it succeeds exactly when the term is current and
  the entry before the new ones agrees; its effect on the log is the reference merge, which keeps agreeing
  entries and never cuts them off; the log file and the state file follow the memory; and the entries newly
  committed are delivered in order, each once.
\<close>

theorem append_entries_merges:
  assumes "wf_log r" and "0 < LastIncludedIndex r" and "disk_ok r" and "io_works io" and "in_int64 (ae_Term args)"
    and "0 \<le> PrevLogIndex args" and "consecutive (PrevLogIndex args + 1) (Entries args)"
    and "\<forall>e \<in> set (Entries args). log_entry_ok e"
    and "LastIncludedIndex r \<le> lastApplied r" and "commitIndex r \<le> lastApplied r"
  shows "\<exists>reply r'. AppendEntries io args r = Some (reply, r') \<and>
     aer_Success reply = (Term r \<le> ae_Term args \<and> prev_matches args r) \<and>
     Term r' = max (Term r) (ae_Term args) \<and> wf_log r' \<and> disk_ok r' \<and>
     rlog r' = (if aer_Success reply
       then take (nat (PrevLogIndex args - LastIncludedIndex r)) (rlog r) @
            merge_log (drop (nat (PrevLogIndex args - LastIncludedIndex r)) (rlog r)) (Entries args)
       else rlog r) \<and>
     commitIndex r' = (if aer_Success reply \<and> commitIndex r < LeaderCommit args
       then min (LeaderCommit args) (LastIncludedIndex r + int (length (rlog r'))) else commitIndex r) \<and>
     ApplyCh r' = ApplyCh r @
       take (nat (commitIndex r' - lastApplied r)) (drop (nat (lastApplied r - LastIncludedIndex r)) (rlog r'))"
  using AppendEntries_ok [OF assms] by (elim exE conjE) (intro exI conjI, assumption, simp_all)

definition node_snap :: Raft where
  "node_snap = (new_node three 0 (wal0\<lparr>logFile := Some (enc_log (ent 6 0 [7]))\<rparr>))\<lparr>LastIncludedIndex := 5,
     commitIndex := 5, lastApplied := 5, rlog := [ent 6 0 [7]]\<rparr>"

lemma node_snap_ok: "wf_log node_snap \<and> disk_ok node_snap"
  using ent_ok [of 6 0 "[7]"]
  by (simp add: node_snap_def wf_log_def log_base_def disk_ok_def log_file_holds_def new_node_def wal0_def LoadState_def in_int64_def)

definition ae0 :: AppendEntriesArgs where
  "ae0 = \<lparr>ae_Term = 2, ae_LeaderID = 1, PrevLogIndex = 5, PrevLogTerm = 0, Entries = [ent 6 2 [8], ent 7 2 [9]], LeaderCommit = 6\<rparr>"

theorem append_entries_merges_witness:
  "\<exists>reply r'. AppendEntries io0 ae0 node_snap = Some (reply, r') \<and> aer_Success reply \<and>
     rlog r' = [ent 6 2 [8], ent 7 2 [9]] \<and> disk_ok r' \<and> ApplyCh r' = [ent 6 2 [8]]"
proof -
  have a: "0 < LastIncludedIndex node_snap" "in_int64 (ae_Term ae0)" "0 \<le> PrevLogIndex ae0"
      "consecutive (PrevLogIndex ae0 + 1) (Entries ae0)" "\<forall>e \<in> set (Entries ae0). log_entry_ok e"
      "LastIncludedIndex node_snap \<le> lastApplied node_snap" "commitIndex node_snap \<le> lastApplied node_snap"
      "prev_matches ae0 node_snap" "Term node_snap \<le> ae_Term ae0"
    using ent_ok [of 6 2 "[8]"] ent_ok [of 7 2 "[9]"]
    by (simp_all add: node_snap_def ae0_def in_int64_def new_node_def prev_matches_def)
  from append_entries_merges [OF _ a(1) _ io_works_io0 a(2-7)] node_snap_ok a(8,9) show ?thesis
    by (elim exE conjE impE) (auto simp: node_snap_def ae0_def new_node_def)
qed

text \<open>
  C37. A leader of several nodes without a snapshot panics on its first command: \<open>replicateLog\<close> slices the log from
  position minus one (\<open>raft.go\<close>, lines 635 to 637).
\<close>

theorem first_command_panics:
  assumes "state r = Leader" and "LastIncludedIndex r = 0" and "length (peers r) = Suc (Suc n)"
    and "\<forall>i < length (peers r). nextIndex r ! i = 0"
  shows "AppendEntry cfg io cmd r = None"
proof -
  have p: "replicate_msg q i = None" if "LastIncludedIndex q = 0" "nextIndex q ! i = 0" for q i
    using that by (simp add: replicate_msg_def needs_snapshot_def Let_def)
  have t: "replicate_to q js = None" if "js \<noteq> []" "\<forall>i \<in> set js. replicate_msg q i = None" for q js
    using that by (cases js) simp_all
  let ?js = "filter (\<lambda>i. i \<noteq> me r) [0..<length (peers r)]"
  have "(if me r = 0 then 1 else 0) \<in> set ?js" unfolding set_filter set_upt assms(3) by simp
  then have ne: "?js \<noteq> []" by (metis empty_iff list.set(1))
  have "replicateLog q = None" if "state q = Leader" "LastIncludedIndex q = 0" "nextIndex q = nextIndex r" "me q = me r" "peers q = peers r" for q
    using that t [OF ne, of q] p [of q] assms(4) by (simp add: replicateLog_def)
  then show ?thesis using assms(1-3) by (simp add: AppendEntry_def Let_def)
qed

theorem first_command_panics_witness:
  "AppendEntry rcfg0 FileOk [7] (becomeLeader (new_node three 0 wal0)) = None"
proof -
  have "\<forall>i < length (peers (becomeLeader (new_node three 0 wal0))). nextIndex (becomeLeader (new_node three 0 wal0)) ! i = 0"
    by (simp add: becomeLeader_def new_node_def)
  then show ?thesis
    by (intro first_command_panics [where n = 1]) (simp_all add: becomeLeader_def new_node_def three_def)
qed

section \<open>Commitment\<close>

text \<open>
  C29. A leader's commit index only grows; it moves exactly when some entry of the current term above it is recorded
  as replicated on a majority, and then to such an entry.
\<close>

theorem commit_needs_majority:
  assumes "updateCommitIndex cfg r = (t, r')" and "state r = Leader"
  defines "ready \<equiv> \<lambda>e. e \<in> set (rlog r) \<and> commitIndex r < Index e \<and> EntryTerm e = Term r \<and>
     length (peers r) div 2 < replicas r (Index e)"
  shows "if \<exists>e. ready e then \<exists>e. ready e \<and> commitIndex r' = Index e else commitIndex r' = commitIndex r"
proof (cases "commit_scan r (rev (rlog r))")
  case None
  then have "\<not> ready e" for e using commit_scan_complete [OF None, of e] by (auto simp: ready_def)
  then show ?thesis using None updateCommitIndex_fields(1) [OF assms(1)] assms(2) by simp
next
  case (Some n)
  then obtain e where "ready e" "Index e = n" using commit_scan_sound [OF Some] by (auto simp: ready_def)
  then show ?thesis using Some updateCommitIndex_fields(1) [OF assms(1)] assms(2) by auto
qed

theorem commit_needs_majority_witness:
  "\<exists>t r'. updateCommitIndex rcfg0 (node_snap\<lparr>state := Leader, matchIndex := [5, 6, 5]\<rparr>) = (t, r') \<and> commitIndex r' = 6"
proof -
  let ?r = "node_snap\<lparr>state := Leader, matchIndex := [5, 6, 5]\<rparr>"
  obtain t r' where u: "updateCommitIndex rcfg0 ?r = (t, r')" by fastforce
  have c: "ent 6 0 [7] \<in> set (rlog ?r) \<and> commitIndex ?r < Index (ent 6 0 [7]) \<and> EntryTerm (ent 6 0 [7]) = Term ?r \<and>
     length (peers ?r) div 2 < replicas ?r (Index (ent 6 0 [7]))"
    by (simp add: node_snap_def new_node_def replicas_def three_def upt_rec)
  from commit_needs_majority [OF u] have "commitIndex r' = 6"
    using c by (auto simp: node_snap_def new_node_def split: if_splits)
  with u show ?thesis by blast
qed

text \<open>
  A successful heartbeat counts as the replication of the whole log (\<open>raft.go\<close>, lines 434 to 437): the message
  carries no entries, and its reply makes a leader of two or three nodes commit its last entry of the term
  although no peer has received it.
\<close>

theorem heartbeat_commits:
  assumes "state r = Leader" and "heartbeat_msg r i = Some (AppendMsg a)" and "i \<noteq> me r" and "i < length (peers r)"
    and "length (peers r) \<le> 3" and "length (matchIndex r) = length (peers r)"
    and "rlog r = es @ [e]" and "EntryTerm e = Term r" and "commitIndex r < Index e"
  shows "Entries a = [] \<and> commitIndex (snd (on_append_reply cfg i (Some \<lparr>aer_Term = Term r, aer_Success = True\<rparr>) r)) = Index e"
proof -
  have "Entries a = []"
    using assms(2) by (auto simp: heartbeat_msg_def append_args_def Let_def split: if_splits option.splits sum.splits prod.splits)
  moreover define q where "q = r\<lparr>nextIndex := (nextIndex r)[i := Index e + 1], matchIndex := (matchIndex r)[i := Index e]\<rparr>"
  have "i \<in> set (filter (\<lambda>j. j \<noteq> me q \<and> Index e \<le> matchIndex q ! j) [0..<length (peers q)])"
    using assms(3,4,6) by (simp add: q_def)
  then have "0 < length (filter (\<lambda>j. j \<noteq> me q \<and> Index e \<le> matchIndex q ! j) [0..<length (peers q)])"
    by (rule length_pos_if_in_set)
  moreover have "length (peers q) div 2 \<le> 1" using div_le_mono [OF assms(5), of 2] by (simp add: q_def)
  ultimately have "length (peers q) div 2 < replicas q (Index e)" unfolding replicas_def by linarith
  then have "commit_scan q (rev (rlog q)) = Some (Index e)" using assms(7-9) by (simp add: q_def)
  then have "commitIndex (snd (updateCommitIndex cfg q)) = Index e"
    using updateCommitIndex_fields(1) [of cfg q] assms(1) by (cases "updateCommitIndex cfg q") (simp add: q_def)
  then show ?thesis using \<open>Entries a = []\<close> assms(7) by (simp add: on_append_reply_def getLastLogIndex_def q_def)
qed

theorem heartbeat_commits_witness:
  "\<exists>a. heartbeat_msg (becomeLeader node_snap) 1 = Some (AppendMsg a) \<and> Entries a = [] \<and>
     commitIndex (snd (on_append_reply rcfg0 1 (Some \<lparr>aer_Term = Term (becomeLeader node_snap), aer_Success = True\<rparr>) (becomeLeader node_snap))) = 6"
proof -
  let ?r = "becomeLeader node_snap"
  have h: "heartbeat_msg ?r 1 = Some (AppendMsg (append_args ?r 6 []))"
    by (simp add: heartbeat_msg_def becomeLeader_def node_snap_def new_node_def needs_snapshot_def three_def Let_def)
  from heartbeat_commits [OF _ h, of "[]" "ent 6 0 [7]" rcfg0] h show ?thesis
    by (auto simp: becomeLeader_def node_snap_def new_node_def three_def)
qed

text \<open>
  The commit index of a follower is bounded by its own last entry instead of the last entry the message vouches
  for (\<open>rpc.go\<close>, lines 184 to 190): a heartbeat whose check succeeds delivers entries behind the checked position
  that the leader may never have had.
\<close>

theorem heartbeat_delivers_unchecked:
  assumes "wf_log r" and "0 < LastIncludedIndex r" and "disk_ok r" and "io_works io" and "in_int64 (ae_Term args)"
    and "Entries args = []" and "Term r \<le> ae_Term args" and "prev_matches args r" and "0 \<le> PrevLogIndex args"
    and "lastApplied r = LastIncludedIndex r" and "commitIndex r = LastIncludedIndex r"
    and "PrevLogIndex args = LastIncludedIndex r" and "LastIncludedIndex r + int (length (rlog r)) \<le> LeaderCommit args"
    and "rlog r \<noteq> []"
  shows "\<exists>reply r'. AppendEntries io args r = Some (reply, r') \<and> aer_Success reply \<and> ApplyCh r' = ApplyCh r @ rlog r"
proof -
  have "0 < int (length (rlog r))" using assms(14) by simp
  then have c: "commitIndex r < LeaderCommit args" using assms(11,13) by linarith
  have l: "LastIncludedIndex r \<le> lastApplied r" "commitIndex r \<le> lastApplied r" using assms(10,11) by simp_all
  have e: "consecutive (PrevLogIndex args + 1) (Entries args)" "\<forall>e \<in> set (Entries args). log_entry_ok e" using assms(6) by simp_all
  from AppendEntries_ok [OF assms(1-5,9) e l] assms(6-14) c show ?thesis by (elim exE conjE) (auto simp: min_def)
qed

theorem heartbeat_delivers_unchecked_witness:
  "\<exists>reply r'. AppendEntries io0 (ae0\<lparr>Entries := []\<rparr>) node_snap = Some (reply, r') \<and> aer_Success reply \<and>
     ApplyCh r' = [ent 6 0 [7]]"
proof -
  have a: "0 < LastIncludedIndex node_snap" "in_int64 (ae_Term (ae0\<lparr>Entries := []\<rparr>))" "Entries (ae0\<lparr>Entries := []\<rparr>) = []"
      "Term node_snap \<le> ae_Term (ae0\<lparr>Entries := []\<rparr>)" "prev_matches (ae0\<lparr>Entries := []\<rparr>) node_snap"
      "0 \<le> PrevLogIndex (ae0\<lparr>Entries := []\<rparr>)" "lastApplied node_snap = LastIncludedIndex node_snap"
      "commitIndex node_snap = LastIncludedIndex node_snap" "PrevLogIndex (ae0\<lparr>Entries := []\<rparr>) = LastIncludedIndex node_snap"
      "LastIncludedIndex node_snap + int (length (rlog node_snap)) \<le> LeaderCommit (ae0\<lparr>Entries := []\<rparr>)" "rlog node_snap \<noteq> []"
    by (simp_all add: node_snap_def ae0_def in_int64_def new_node_def prev_matches_def)
  from heartbeat_delivers_unchecked [OF _ a(1) _ io_works_io0 a(2-11)] node_snap_ok show ?thesis
    by (simp add: node_snap_def new_node_def)
qed

section \<open>Delivery on a single node\<close>

text \<open>
  On a fresh single node the entry with index zero is at no position the delivery loop looks at (\<open>raft.go\<close>,
  lines 480 to 487): after any commands, all of them committed, the state machine has received all but the last.
\<close>

theorem single_node_lags:
  shows "\<exists>r. append_all cfg io cmds (becomeLeader (new_node [p] 0 w)) = Some r \<and> commitIndex r = int (length cmds) - 1 \<and>
     map Command (ApplyCh r) = butlast cmds"
proof -
  have "lagging (becomeLeader (new_node [p] 0 w))"
    by (simp add: lagging_def becomeLeader_def new_node_def wf_log_def)
  from lagging_append_all [OF this, of cfg io cmds] obtain r where r: "append_all cfg io cmds (becomeLeader (new_node [p] 0 w)) = Some r"
      "lagging r" "map Command (rlog r) = cmds" by (auto simp: becomeLeader_def new_node_def)
  have "length (rlog r) = length cmds" using r(3) by (metis length_map)
  then show ?thesis using r by (auto simp: lagging_def map_butlast)
qed

text \<open>
  Once there is a snapshot, a single node commits and delivers each command as it is appended, and the log file
  follows.
\<close>

theorem single_node_delivers:
  assumes "state r = Leader" and "length (peers r) = 1" and "wf_log r" and "0 < LastIncludedIndex r"
    and "lastApplied r = LastIncludedIndex r + int (length (rlog r))" and "log_file_holds (wal r) (rlog r)"
    and "log_entry_ok (ent (lastApplied r + 1) (Term r) cmd)"
  shows "\<exists>x r'. AppendEntry cfg FileOk cmd r = Some (Some (lastApplied r + 1, [], x), r') \<and> commitIndex r' = lastApplied r + 1 \<and>
     lastApplied r' = commitIndex r' \<and> ApplyCh r' = ApplyCh r @ [ent (lastApplied r + 1) (Term r) cmd] \<and>
     wf_log r' \<and> log_file_holds (wal r') (rlog r')"
proof -
  define e where "e = ent (lastApplied r + 1) (Term r) cmd"
  define r1 where "r1 = r\<lparr>rlog := rlog r @ [e], wal := snd (AppendLog FileOk e (wal r)), commitIndex := Index e\<rparr>"
  have b: "log_base r + int (length (rlog r)) = lastApplied r + 1" using assms(4,5) by (simp add: log_base_def)
  have e: "Index e = lastApplied r + 1" by (simp add: e_def)
  have a: "AppendEntry cfg FileOk cmd r = Some (Some (Index e, [], checkSnapshotTrigger cfg (apply_loop r1)), apply_loop r1)"
    using AppendEntry_single [OF assms(1-3), of cfg FileOk cmd, unfolded b] by (simp add: e_def r1_def)
  have "log_file_holds (wal (apply_loop r1)) (rlog (apply_loop r1))"
    using AppendLogs_holds [OF assms(6), of "[e]"] assms(7) by (auto simp: AppendLogs_def AppendLog_def r1_def e_def)
  moreover have "wf_log (apply_loop r1)" using assms(3,4) b e by (simp add: wf_log_def log_base_def r1_def)
  moreover have "ApplyCh (apply_loop r1) = ApplyCh r @ [e]" "lastApplied (apply_loop r1) = lastApplied r + 1"
    using apply_loop_delivers [of r1] assms(4,5) e by (simp_all add: r1_def)
  ultimately show ?thesis using a e by (simp add: r1_def e_def)
qed

theorem single_node_delivers_witness:
  "\<exists>x r'. AppendEntry rcfg0 FileOk [9] (node_snap\<lparr>state := Leader, peers := [[1]], lastApplied := 6\<rparr>) = Some (Some (7, [], x), r') \<and>
     ApplyCh r' = [ent 7 0 [9]]"
proof -
  let ?r = "node_snap\<lparr>state := Leader, peers := [[1]], lastApplied := 6\<rparr>"
  have "wf_log ?r" "log_file_holds (wal ?r) (rlog ?r)"
    using node_snap_ok by (simp_all add: wf_log_def log_base_def disk_ok_def split: if_splits)
  moreover have "log_entry_ok (ent (lastApplied ?r + 1) (Term ?r) [9])"
    using ent_ok [of 7 0 "[9]"] by (simp add: node_snap_def new_node_def)
  ultimately show ?thesis using single_node_delivers [of ?r "[9]" rcfg0] by (fastforce simp: node_snap_def new_node_def)
qed

section \<open>Snapshots and files\<close>

text \<open>
  C32. The first snapshot of a node, with working files: exactly the entries up to its index go into it, it is the one
  that is loaded from then on, and the log keeps exactly the entries above, in memory and in the file.
\<close>

theorem first_snapshot:
  assumes "wf_log r" and "LastIncludedIndex r = 0" and "lastSnapshotIndex r = 0" and "0 < index" and "index \<le> commitIndex r"
    and "index < int (length (rlog r))" and "in_int64 index" and "disk_ok r" and "io_works io" and "snapshots (wal r) = None"
    and "length (SerializeLogEntries (take (nat index + 1) (rlog r))) < 2 ^ 63"
  shows "\<exists>r'. TakeSnapshot io index r = Some (Inr (), r') \<and> rlog r' = drop (nat index + 1) (rlog r) \<and> wf_log r' \<and> disk_ok r' \<and>
     LastIncludedIndex r' = index \<and>
     LoadLatestSnapshot (wal r') = Some (Inr (Some (SerializeLogEntries (take (nat index + 1) (rlog r))), index, LastIncludedTerm r'))"
proof -
  have n: "nat (index + 1 - LastIncludedIndex r) = nat index + 1" using assms(2,4) by simp
  have c: "consecutive 0 (rlog r)" using assms(1,2) by (simp add: wf_log_def log_base_def)
  have d: "log_file_holds (wal r) (rlog r)" "in_int64 (Term r)" "in_int64 (votedFor r)" using assms(8) by (simp_all add: disk_ok_def)
  have len: "nat index + 1 \<le> length (rlog r)" "rlog r \<noteq> []" using assms(4,6) by auto
  obtain r' where r': "TakeSnapshot io index r = Some (Inr (), r')" "rlog r' = cut_log (int (nat index + 1)) (index + 1) (rlog r)"
      "LastIncludedIndex r' = index" "log_file_holds (wal r') (filter (\<lambda>e. index < Index e) (rlog r))"
      "LoadState (wal r') = Inr (Term r, votedFor r)" "Term r' = Term r" "votedFor r' = votedFor r"
      "LoadLatestSnapshot (wal r') = Some (Inr (Some (SerializeLogEntries (take (nat index + 1) (rlog r))), index, LastIncludedTerm r'))"
    using TakeSnapshot_works [of r index io] assms d len unfolding n by (auto simp del: of_nat_Suc of_nat_add)
  have "rlog r' = drop (nat index + 1) (rlog r)"
    unfolding r'(2) using c len(1) assms(4) by (intro cut_log_consecutive) simp_all
  moreover have "filter (\<lambda>e. index < Index e) (rlog r) = drop (nat index + 1) (rlog r)"
    using filter_consecutive [OF c len(1)] assms(4) by simp
  moreover have "consecutive (index + 1) (drop (nat index + 1) (rlog r))"
    using consecutive_drop [OF c len(1)] assms(4) by (simp add: add.commute)
  ultimately show ?thesis using r' d assms(4) by (simp add: wf_log_def log_base_def disk_ok_def)
qed

definition node3 :: Raft where
  "node3 = (new_node [[1]] 0 (wal0\<lparr>logFile := Some (concat (map enc_log [ent 0 0 [7], ent 1 0 [8], ent 2 0 [9]]))\<rparr>))
     \<lparr>commitIndex := 2, lastApplied := 2, rlog := [ent 0 0 [7], ent 1 0 [8], ent 2 0 [9]]\<rparr>"

lemma node3_ok: "wf_log node3 \<and> disk_ok node3"
  using ent_ok [of 0 0 "[7]"] ent_ok [of 1 0 "[8]"] ent_ok [of 2 0 "[9]"]
  by (simp add: node3_def wf_log_def log_base_def disk_ok_def log_file_holds_def new_node_def wal0_def LoadState_def in_int64_def)

theorem first_snapshot_witness:
  "\<exists>r'. TakeSnapshot io0 1 node3 = Some (Inr (), r') \<and> rlog r' = [ent 2 0 [9]] \<and> disk_ok r'"
proof -
  have "length (SerializeLogEntries (take (nat 1 + 1) (rlog node3))) < 2 ^ 63"
    by (simp add: node3_def SerializeLogEntries_def length_enc_log)
  moreover have "snapshots (wal node3) = None" by (simp add: node3_def new_node_def wal0_def)
  ultimately show ?thesis using first_snapshot [of node3 1 io0] node3_ok io_works_io0
    by (auto simp: node3_def new_node_def in_int64_def)
qed

text \<open>
  C38. Every later snapshot cuts one entry too many (\<open>raft.go\<close>, lines 730 and 760): positions behind a snapshot start
  at \<open>LastIncludedIndex + 1\<close>, the cut does not. The entry \<open>index + 1\<close>, perhaps not committed, leaves the log, every
  later entry is given the number of its predecessor, and the log file, which is cut by number, differs from the memory.
\<close>

theorem second_snapshot_shifts:
  assumes "wf_log r" and "0 < LastIncludedIndex r" and "lastSnapshotIndex r = LastIncludedIndex r"
    and "LastIncludedIndex r < index" and "index \<le> commitIndex r"
    and "index + 1 - LastIncludedIndex r < int (length (rlog r))" and "in_int64 index" and "disk_ok r" and "io_works io"
    and "\<forall>files. snapshots (wal r) = Some files \<longrightarrow> snap_top index files"
    and "length (SerializeLogEntries (take (nat (index + 1 - LastIncludedIndex r)) (rlog r))) < 2 ^ 63"
  defines "k \<equiv> nat (index - LastIncludedIndex r)"
  shows "\<exists>r'. TakeSnapshot io index r = Some (Inr (), r') \<and> Index (rlog r ! k) = index + 1 \<and>
     map Command (rlog r') = map Command (drop (k + 1) (rlog r)) \<and> Index (hd (rlog r')) = index + 1 \<and>
     LoadLogs (wal r') = Some (drop k (rlog r))"
proof -
  have n: "nat (index + 1 - LastIncludedIndex r) = k + 1" using assms(4) by (simp add: k_def)
  have c: "consecutive (LastIncludedIndex r + 1) (rlog r)" using assms(1,2) by (simp add: wf_log_def log_base_def)
  have d: "log_file_holds (wal r) (rlog r)" "in_int64 (Term r)" "in_int64 (votedFor r)" using assms(8) by (simp_all add: disk_ok_def)
  have k: "k + 1 < length (rlog r)" "LastIncludedIndex r + int k = index" using assms(4,6) by (simp_all add: k_def)
  have ne: "rlog r \<noteq> []" using k(1) by auto
  obtain r' where r': "TakeSnapshot io index r = Some (Inr (), r')" "rlog r' = cut_log (int (k + 1)) (index + 1) (rlog r)"
      "log_file_holds (wal r') (filter (\<lambda>e. index < Index e) (rlog r))"
    using TakeSnapshot_works [of r index io] assms d ne unfolding n by (auto simp del: of_nat_Suc of_nat_add)
  have f: "filter (\<lambda>e. index < Index e) (rlog r) = drop k (rlog r)" using filter_consecutive [OF c, of k] k by simp
  have m: "rlog r' = map (\<lambda>(i, e). e\<lparr>Index := index + 1 + int i\<rparr>) (enumerate 0 (drop (k + 1) (rlog r)))"
    using k(1) by (simp only: r'(2) cut_log_def nat_int) (simp del: of_nat_Suc of_nat_add)
  then have "map Command (rlog r') = map Command (drop (k + 1) (rlog r))"
    by (auto intro!: nth_equalityI simp: nth_enumerate_eq)
  moreover have "Index (hd (rlog r')) = index + 1" using k(1) m by (simp add: hd_map hd_conv_nth nth_enumerate_eq enumerate_eq_zip hd_zip)
  moreover have "Index (rlog r ! k) = index + 1" using c k by (simp add: consecutive_def)
  moreover have "LoadLogs (wal r') = Some (drop k (rlog r))" using LoadLogs_holds [OF r'(3)] f by simp
  ultimately show ?thesis using r'(1) by auto
qed

definition node_snap3 :: Raft where
  "node_snap3 = (new_node [[1]] 0 (wal0\<lparr>logFile := Some (concat (map enc_log [ent 6 0 [7], ent 7 0 [8], ent 8 0 [9]]))\<rparr>))
     \<lparr>LastIncludedIndex := 5, lastSnapshotIndex := 5, commitIndex := 8, lastApplied := 8,
      rlog := [ent 6 0 [7], ent 7 0 [8], ent 8 0 [9]]\<rparr>"

theorem second_snapshot_shifts_witness:
  "\<exists>r'. TakeSnapshot io0 6 node_snap3 = Some (Inr (), r') \<and> map Command (rlog r') = [[9]] \<and> Index (hd (rlog r')) = 7 \<and>
     LoadLogs (wal r') = Some [ent 7 0 [8], ent 8 0 [9]]"
proof -
  let ?r = node_snap3
  have ok: "wf_log ?r" "disk_ok ?r"
    using ent_ok [of 6 0 "[7]"] ent_ok [of 7 0 "[8]"] ent_ok [of 8 0 "[9]"]
    by (simp_all add: node_snap3_def wf_log_def log_base_def disk_ok_def log_file_holds_def new_node_def wal0_def LoadState_def in_int64_def)
  have "length (SerializeLogEntries (take (nat (6 + 1 - LastIncludedIndex ?r)) (rlog ?r))) < 2 ^ 63"
    by (simp add: node_snap3_def SerializeLogEntries_def length_enc_log)
  moreover have "snapshots (wal ?r) = None" by (simp add: node_snap3_def new_node_def wal0_def)
  ultimately show ?thesis using second_snapshot_shifts [of ?r 6 io0] ok io_works_io0
    by (auto simp: node_snap3_def new_node_def in_int64_def)
qed

text \<open>
  C30. A node restarted on its own files comes back with its term, its vote, its log and its snapshot, which it hands to
  the state machine again; nothing else counts as committed.
\<close>

theorem raft_restart:
  assumes "disk_ok r" and "LoadLatestSnapshot (wal r) = Some (Inr (d, LastIncludedIndex r, LastIncludedTerm r))"
    and "d = None \<longrightarrow> LastIncludedIndex r = 0 \<and> LastIncludedTerm r = 0" and "d \<noteq> None \<longrightarrow> 0 < LastIncludedIndex r"
  shows "\<exists>r'. NewRaftWithDataDir (peers r) (me r) (wal r) = Some r' \<and> Term r' = Term r \<and> votedFor r' = votedFor r \<and>
     rlog r' = rlog r \<and> LastIncludedIndex r' = LastIncludedIndex r \<and> state r' = Follower \<and> disk_ok r' \<and>
     commitIndex r' = (if d = None then -1 else LastIncludedIndex r) \<and>
     ApplyCh r' = (case d of None \<Rightarrow> [] | Some bs \<Rightarrow> [snap_entry (LastIncludedIndex r) (LastIncludedTerm r) bs])"
proof -
  have "log_file_holds (wal r) (rlog r)" "LoadState (wal r) = Inr (Term r, votedFor r)" using assms(1) by (simp_all add: disk_ok_def)
  from restart_loads [OF this assms(2-4), of "peers r" "me r"] show ?thesis
    using assms(1) by (elim exE conjE) (auto simp: disk_ok_def)
qed

theorem raft_restart_witness:
  "\<exists>r'. NewRaftWithDataDir (peers node3) (me node3) (wal node3) = Some r' \<and> rlog r' = rlog node3 \<and> commitIndex r' = -1"
proof -
  have "LoadLatestSnapshot (wal node3) = Some (Inr (None, LastIncludedIndex node3, LastIncludedTerm node3))"
    by (simp add: node3_def new_node_def wal0_def LoadLatestSnapshot_def)
  from raft_restart [OF _ this] node3_ok show ?thesis by (auto simp: node3_def new_node_def)
qed

lemma take_entries:
  assumes "\<forall>e \<in> set es. log_entry_ok e"
  shows "\<exists>k t. k \<le> length es \<and> torn_log t \<and> take n (concat (map enc_log es)) = concat (map enc_log (take k es)) @ t"
  using assms
proof (induction es arbitrary: n)
  case (Cons e es)
  show ?case
  proof (cases "n < length (enc_log e)")
    case True
    then have "torn_log (take n (enc_log e))" using Cons.prems by (auto simp: torn_log_def)
    then show ?thesis using True by (intro exI [of _ 0] exI [of _ "take n (enc_log e)"]) simp
  next
    case False
    obtain k t where "k \<le> length es" "torn_log t"
        "take (n - length (enc_log e)) (concat (map enc_log es)) = concat (map enc_log (take k es)) @ t"
      using Cons.IH [of "n - length (enc_log e)"] Cons.prems by auto
    then show ?thesis using False by (intro exI [of _ "Suc k"] exI [of _ t]) simp
  qed
qed (intro exI [of _ 0] exI [of _ "[]"], simp)

text \<open>
  C31. A crash in the middle of a group append leaves a log that loads without a panic: all entries written before and a
  prefix of the new ones.
\<close>

theorem raft_log_torn:
  assumes "log_file_holds w es" and "\<forall>e \<in> set news. log_entry_ok e" and "AppendLogs (WriteStops n) news w = (x, w')"
  shows "\<exists>k \<le> length news. LoadLogs w' = Some (es @ take k news)"
proof (cases "news = []")
  case True
  then show ?thesis using assms(1,3) LoadLogs_holds by (auto simp: AppendLogs_def)
next
  case False
  obtain k t where k: "k \<le> length news" "torn_log t" "take n (concat (map enc_log news)) = concat (map enc_log (take k news)) @ t"
    using take_entries [OF assms(2), of n] by blast
  have "logFile w' = Some ([] @ concat (map enc_log (es @ take k news)) @ t)"
    using assms(1,3) False k(3) by (auto simp: AppendLogs_def append_file_def log_file_holds_def nil_bytes_def Let_def)
  moreover have "\<forall>e \<in> set (es @ take k news). log_entry_ok e"
    using assms(1,2) in_set_takeD by (fastforce simp: log_file_holds_def)
  ultimately have "LoadLogs w' = Some (es @ take k news)" using load_log [OF refl _ k(2), of "es @ take k news" "[]"] by (simp add: LoadLogs_def)
  then show ?thesis using k(1) by blast
qed

theorem raft_log_torn_witness:
  "\<exists>k \<le> 1. LoadLogs (snd (AppendLogs (WriteStops 13) [ent 0 1 [7]] wal0)) = Some (take k [ent 0 1 [7]])"
proof -
  obtain x w' where a: "AppendLogs (WriteStops 13) [ent 0 1 [7]] wal0 = (x, w')" by fastforce
  have "log_file_holds wal0 []" by (simp add: log_file_holds_def wal0_def)
  from raft_log_torn [OF this _ a] ent_ok [of 0 1 "[7]"] a show ?thesis by simp
qed

end
