(* ===== verification/ClusterClaims.thy ===== *)
theory ClusterClaims
  imports ClusterCorrect RaftClaims
begin

text \<open>Properties of a cluster with snapshots: election, replication and the loss of a leader.\<close>


definition snap_node :: "nat \<Rightarrow> Raft" where
  "snap_node i = (new_node three i wal0)\<lparr>LastIncludedIndex := 5, commitIndex := 5, lastApplied := 5\<rparr>"

lemma snap_nodes_electable:
  assumes "U = {1} \<or> U = {1, 2}"
  shows "electable U 0 (\<lambda>_. []) (map snap_node [0..<3])"
proof -
  have "replica (snap_node 0) [] (snap_node i)" for i
    by (simp add: replica_def snap_node_def new_node_def wf_log_def disk_ok_def log_file_holds_def wal0_def LoadState_def in_int64_def)
  moreover have "member 3 i (snap_node i)" for i
    by (simp add: member_def snap_node_def new_node_def three_def wal0_def LoadLatestSnapshot_def)
  moreover define ns where "ns = map snap_node [0..<3]"
  then have "length ns = 3" "ns ! 0 = snap_node 0" "ns ! 1 = snap_node 1" "ns ! 2 = snap_node 2" by (simp_all add: numeral_2_eq_2)
  moreover have "Term (snap_node i) = 0" "commitIndex (snap_node i) = 5" "rlog (snap_node i) = []" "LastIncludedIndex (snap_node i) = 5" for i
    by (simp_all add: snap_node_def new_node_def)
  ultimately show ?thesis using assms unfolding electable_def ns_def [symmetric] by auto
qed




end
