(* ===== verification/Server.thy ===== *)
theory Server
  imports MemScan MemSystem Raft
begin

text \<open>
  \<open>service/fsm.go\<close> and \<open>storage/engine.go\<close>: the server that puts the storage engine behind a write-ahead log
  (standalone) or behind Raft. \<open>encoding/json\<close> is a pair of functions, \<open>Json\<close>; the value predicate of a scan is an
  argument. A write either ends, or waits for credit or for the commit of its entry.
\<close>

section \<open>State\<close>

record KVCommand =
  cmdType :: string
  cmdKey :: bytes
  cmdValue :: "bytes option"

record KVServer =
  storage :: MemTable
  kv_wal :: "WAL option"
  kv_raft :: "Raft option"

record Json =
  marshal :: "KVCommand \<Rightarrow> bytes"
  unmarshal :: "bytes \<Rightarrow> KVCommand option"

datatype kv_error = WalFailed wal_error | StorageFailed mem_error | NotLeader

datatype write_outcome = Done | Failed kv_error | Waits

text \<open>\<open>Engine.Put\<close>, \<open>Get\<close>, \<open>Delete\<close>, \<open>Scan\<close> and \<open>FlushToSSTable\<close> hand over to the memtable.\<close>

definition outcome :: "(mem_error + unit) option \<Rightarrow> write_outcome" where
  "outcome r = (case r of None \<Rightarrow> Waits | Some (Inl e) \<Rightarrow> Failed (StorageFailed e) | Some (Inr _) \<Rightarrow> Done)"

definition engine_Put ::
    "MemConfig \<Rightarrow> (nat \<Rightarrow> bool) \<Rightarrow> bytes \<Rightarrow> bytes option \<Rightarrow> MemTable \<Rightarrow> (write_outcome \<times> MemTable) option" where
  "engine_Put cfg coins key val m = map_option (apfst outcome) (mt_Put cfg coins key val m)"

definition engine_Delete :: "MemConfig \<Rightarrow> (nat \<Rightarrow> bool) \<Rightarrow> bytes \<Rightarrow> MemTable \<Rightarrow> (write_outcome \<times> MemTable) option" where
  "engine_Delete cfg coins key m = map_option (apfst outcome) (mt_Delete cfg coins key m)"

text \<open>A command of the store: anything but a put or a delete is ignored.\<close>

definition run_command ::
    "MemConfig \<Rightarrow> (nat \<Rightarrow> bool) \<Rightarrow> KVCommand \<Rightarrow> MemTable \<Rightarrow> (write_outcome \<times> MemTable) option" where
  "run_command cfg coins cmd m =
     (if cmdType cmd = ''Put'' then engine_Put cfg coins (cmdKey cmd) (cmdValue cmd) m
      else if cmdType cmd = ''Delete'' then engine_Delete cfg coins (cmdKey cmd) m
      else Some (Done, m))"

text \<open>
  The command channel of the engine, of 100 places, and its worker. \<open>engine_Apply\<close> is \<open>None\<close> while the channel is
  full; the worker takes the oldest command and drops the error of the write.
\<close>

definition engine_Apply :: "KVCommand \<Rightarrow> KVCommand list \<Rightarrow> KVCommand list option" where
  "engine_Apply cmd ch = (if length ch < 100 then Some (ch @ [cmd]) else None)"

definition apply_worker ::
    "MemConfig \<Rightarrow> (nat \<Rightarrow> bool) \<Rightarrow> KVCommand list \<times> MemTable \<Rightarrow> (KVCommand list \<times> MemTable) option" where
  "apply_worker cfg coins st =
     (case st of
        ([], m) \<Rightarrow> Some ([], m)
      | (cmd # ch, m) \<Rightarrow> map_option (\<lambda>(_, m'). (ch, m')) (run_command cfg coins cmd m))"

section \<open>Standalone mode\<close>

text \<open>
  A write first appends its record to the log, then changes the memtable. The two halves hold different locks, so
  the halves of two writes can interleave.
\<close>

definition log_command :: "wal_io \<Rightarrow> KVCommand \<Rightarrow> WAL \<Rightarrow> (wal_error + unit) \<times> WAL" where
  "log_command io cmd w =
     (if cmdType cmd = ''Put'' then wal_Append io WALOpPut (cmdKey cmd) (cmdValue cmd) w
      else wal_Append io WALOpDelete (cmdKey cmd) None w)"

definition store_command ::
    "MemConfig \<Rightarrow> (nat \<Rightarrow> bool) \<Rightarrow> KVCommand \<Rightarrow> KVServer \<Rightarrow> (write_outcome \<times> KVServer) option" where
  "store_command cfg coins cmd s = map_option (\<lambda>(out, m'). (out, s\<lparr>storage := m'\<rparr>)) (run_command cfg coins cmd (storage s))"

definition writeStandalone ::
    "MemConfig \<Rightarrow> (nat \<Rightarrow> bool) \<Rightarrow> wal_io \<Rightarrow> KVCommand \<Rightarrow> KVServer \<Rightarrow> (write_outcome \<times> KVServer) option" where
  "writeStandalone cfg coins io cmd s =
     (if cmdType cmd \<noteq> ''Put'' \<and> cmdType cmd \<noteq> ''Delete'' then Some (Done, s)
      else case kv_wal s of
        None \<Rightarrow> None
      | Some w \<Rightarrow>
         (case log_command io cmd w of
            (Inl e, w') \<Rightarrow> Some (Failed (WalFailed e), s\<lparr>kv_wal := Some w'\<rparr>)
          | (Inr _, w') \<Rightarrow> store_command cfg coins cmd (s\<lparr>kv_wal := Some w'\<rparr>)))"

text \<open>
  The callback of \<open>replayWAL\<close>, over a counter for the coins of the skip list and the memtable. A put that has to
  wait for credit stops the replay here; in the server it waits for the flush worker.
\<close>

definition replay_cb :: "MemConfig \<Rightarrow> (nat \<Rightarrow> nat \<Rightarrow> bool) \<Rightarrow> (write_outcome, nat \<times> MemTable) replay_fn" where
  "replay_cb cfg coins op key val st =
     (case st of (n, m) \<Rightarrow>
       (case (if op = WALOpPut then engine_Put cfg (coins n) key val m
              else if op = WALOpDelete then engine_Delete cfg (coins n) key m
              else Some (Done, m)) of
          None \<Rightarrow> None
        | Some (out, m') \<Rightarrow> Some (if out = Done then Inr () else Inl out, (n + 1, m'))))"

definition replayWAL ::
    "MemConfig \<Rightarrow> (nat \<Rightarrow> nat \<Rightarrow> bool) \<Rightarrow> KVServer \<Rightarrow> ((write_outcome + unit) \<times> KVServer) option" where
  "replayWAL cfg coins s =
     (case kv_wal s of
        None \<Rightarrow> None
      | Some w \<Rightarrow>
          map_option (\<lambda>(r, (_, m)). (r, s\<lparr>storage := m\<rparr>)) (Replay (replay_cb cfg coins) w (0, storage s)))"

text \<open>\<open>NewKVServer\<close>: \<open>m\<close> is the new memtable with the tables it has loaded, \<open>f\<close> the log file.\<close>

definition NewKVServer_standalone ::
    "MemConfig \<Rightarrow> (nat \<Rightarrow> nat \<Rightarrow> bool) \<Rightarrow> bytes option \<Rightarrow> MemTable \<Rightarrow> ((write_outcome + unit) \<times> KVServer) option" where
  "NewKVServer_standalone cfg coins f m =
     replayWAL cfg coins \<lparr>storage = m, kv_wal = Some (NewWAL f), kv_raft = None\<rparr>"

definition NewKVServer_raft :: "bytes list \<Rightarrow> nat \<Rightarrow> RaftWAL \<Rightarrow> MemTable \<Rightarrow> KVServer option" where
  "NewKVServer_raft ps i w m =
     map_option (\<lambda>r. \<lparr>storage = m, kv_wal = None, kv_raft = Some r\<rparr>) (NewRaftWithDataDir ps i w)"

section \<open>Raft mode\<close>

definition kv_AppendEntry ::
    "RaftConfig \<Rightarrow> Json \<Rightarrow> file_io \<Rightarrow> KVCommand \<Rightarrow> KVServer \<Rightarrow> ((int \<times> (nat \<times> message) list) option \<times> KVServer) option" where
  "kv_AppendEntry rcfg js io cmd s =
     (case kv_raft s of
        None \<Rightarrow> None
      | Some r \<Rightarrow>
          map_option (\<lambda>(x, r'). (map_option (\<lambda>(i, ms, _). (i, ms)) x, s\<lparr>kv_raft := Some r'\<rparr>))
            (AppendEntry rcfg io (marshal js cmd) r))"

text \<open>\<open>WaitCommitIndex\<close> returns once the commit index has reached \<open>index\<close>; it does not look at the entry there.\<close>

definition committed :: "int \<Rightarrow> KVServer \<Rightarrow> bool" where
  "committed index s \<longleftrightarrow> (case kv_raft s of None \<Rightarrow> False | Some r \<Rightarrow> index \<le> commitIndex r)"

definition kv_Write ::
    "MemConfig \<Rightarrow> RaftConfig \<Rightarrow> Json \<Rightarrow> (nat \<Rightarrow> bool) \<Rightarrow> wal_io \<Rightarrow> file_io \<Rightarrow> KVCommand \<Rightarrow> KVServer \<Rightarrow>
     (write_outcome \<times> KVServer) option" where
  "kv_Write cfg rcfg js coins wio rio cmd s =
     (if kv_raft s = None then writeStandalone cfg coins wio cmd s
      else case kv_AppendEntry rcfg js rio cmd s of
        None \<Rightarrow> None
      | Some (None, s') \<Rightarrow> Some (Failed NotLeader, s')
      | Some (Some (index, _), s') \<Rightarrow> Some (if committed index s' then Done else Waits, s'))"

text \<open>\<open>replaySnapshot\<close>: the commands that decode, written as one table.\<close>

definition snapshot_entries :: "Json \<Rightarrow> RaftEntry list \<Rightarrow> LogEntry list" where
  "snapshot_entries js es = List.map_filter (\<lambda>e. case unmarshal js (Command e) of
       None \<Rightarrow> None
     | Some cmd \<Rightarrow> (if cmdType cmd = ''Put'' then Some (cmdKey cmd, cmdValue cmd)
                    else if cmdType cmd = ''Delete'' then Some (cmdKey cmd, None) else None)) es"

definition replaySnapshot ::
    "FloatMath \<Rightarrow> (PartitionedBloom \<Rightarrow> bytes list) \<Rightarrow> MemConfig \<Rightarrow> Json \<Rightarrow> (nat \<Rightarrow> nat \<Rightarrow> bool) \<Rightarrow> nat \<Rightarrow> IOEnv \<Rightarrow>
     RaftEntry \<Rightarrow> KVServer \<Rightarrow> KVServer option" where
  "replaySnapshot fm order cfg js coins now io e s =
     (case DeserializeLogEntries (Command e) of
        None \<Rightarrow> None
      | Some es \<Rightarrow>
         (if es = [] then Some s
          else map_option (\<lambda>(_, m). s\<lparr>storage := m\<rparr>)
                 (FlushToSSTable fm order cfg coins now io (snapshot_entries js es) (storage s))))"

definition kv_Apply ::
    "FloatMath \<Rightarrow> (PartitionedBloom \<Rightarrow> bytes list) \<Rightarrow> MemConfig \<Rightarrow> Json \<Rightarrow> (nat \<Rightarrow> nat \<Rightarrow> bool) \<Rightarrow> nat \<Rightarrow> IOEnv \<Rightarrow>
     RaftEntry \<Rightarrow> KVServer \<Rightarrow> (write_outcome \<times> KVServer) option" where
  "kv_Apply fm order cfg js coins now io e s =
     (if IsSnapshot e then map_option (Pair Done) (replaySnapshot fm order cfg js coins now io e s)
      else case unmarshal js (Command e) of
        None \<Rightarrow> Some (Done, s)
      | Some cmd \<Rightarrow> map_option (\<lambda>(out, m). (out, s\<lparr>storage := m\<rparr>)) (run_command cfg (coins 0) cmd (storage s)))"

text \<open>\<open>Run\<close> over the entries Raft delivers. An entry whose put has to wait for credit holds up the rest.\<close>

fun kv_Run ::
    "FloatMath \<Rightarrow> (PartitionedBloom \<Rightarrow> bytes list) \<Rightarrow> MemConfig \<Rightarrow> Json \<Rightarrow> (nat \<Rightarrow> nat \<Rightarrow> nat \<Rightarrow> bool) \<Rightarrow>
     (nat \<Rightarrow> nat) \<Rightarrow> IOEnv \<Rightarrow> nat \<Rightarrow> RaftEntry list \<Rightarrow> KVServer \<Rightarrow> (write_outcome \<times> KVServer) option" where
  "kv_Run fm order cfg js coins now io n [] s = Some (Done, s)"
| "kv_Run fm order cfg js coins now io n (e # es) s =
     (case kv_Apply fm order cfg js (coins n) (now n) io e s of
        None \<Rightarrow> None
      | Some (Waits, s') \<Rightarrow> Some (Waits, s')
      | Some (_, s') \<Rightarrow> kv_Run fm order cfg js coins now io (n + 1) es s')"

text \<open>\<open>WaitUntilReady\<close>: whether the client port may open.\<close>

definition ready :: "nat \<Rightarrow> KVServer \<Rightarrow> bool" where
  "ready n_peers s \<longleftrightarrow> (case kv_raft s of None \<Rightarrow> True | Some r \<Rightarrow> n_peers \<noteq> 1 \<or> state r = Leader)"

section \<open>Reads\<close>

text \<open>
  The case \<open>value == nil && err == nil\<close> of \<open>Get\<close> does not arise: \<open>mt_Get\<close> returns an error for a tombstone
  and for a missing key, and a value otherwise.
\<close>

definition kv_Get :: "bytes \<Rightarrow> KVServer \<Rightarrow> ((mem_error + bytes) \<times> KVServer) option" where
  "kv_Get key s = map_option (\<lambda>(r, m). (r, s\<lparr>storage := m\<rparr>)) (mt_Get key (storage s))"

definition maxScanResults :: nat where
  "maxScanResults = 10000"

definition scan_collect :: "(bytes \<Rightarrow> bool) \<Rightarrow> bytes \<Rightarrow> bytes \<Rightarrow> (bytes \<times> bytes) list \<Rightarrow> bool \<times> (bytes \<times> bytes) list" where
  "scan_collect pred key val out =
     (if \<not> pred val then (True, out)
      else let out' = out @ [(key, val)] in (\<not> maxScanResults \<le> length out', out'))"

definition kv_Scan :: "bytes \<Rightarrow> bytes \<Rightarrow> (bytes \<Rightarrow> bool) \<Rightarrow> KVServer \<Rightarrow> (bytes \<times> bytes) list option" where
  "kv_Scan start end' pred s = ScanRange start end' (scan_collect pred) (storage s) []"

section \<open>Writes take effect\<close>

lemma mt_Delete_Put: "mt_Delete cfg coins key m = mt_Put cfg coins key None m"
  by (simp add: mt_Delete_def mt_Put_def vlen_def)

definition credit_room :: "int \<Rightarrow> MemTable \<Rightarrow> bool" where
  "credit_room n m \<longleftrightarrow> 0 \<le> used (credits m) \<and> (budget (credits m) \<le> 0 \<or> used (credits m) + n \<le> budget (credits m))"

lemma mt_Put_ok:
  assumes "mem_ok cfg m tss" and "entry_fits (key, v)" and "credit_room (cost key v + rest) m" and "0 \<le> rest"
  shows "\<exists>m'. mt_Put cfg coins key v m = Some (Some (Inr ()), m') \<and> mem_ok cfg m' tss \<and>
     raw_view m' tss = (raw_view m tss)(key \<mapsto> v) \<and> credit_room rest m'"
proof -
  define n where "n = cost key v"
  have c: "0 \<le> n" "credit_room (n + rest) m" using assms(3) by (simp_all add: n_def)
  have f: "fits (credits m) n" using c(2) assms(4) by (auto simp: credit_room_def fits_def)
  define m1 where "m1 = m\<lparr>credits := (credits m)\<lparr>used := used (credits m) + n\<rparr>\<rparr>"
  have a: "acquireCredit n m = (True, m1)" using f by (simp add: acquireCredit_def TryAcquire_def m1_def)
  have ok: "mem_ok cfg m1 tss" "raw_view m1 tss = raw_view m tss" using assms(1) by (simp_all add: m1_def mem_ok_def raw_view_def)
  obtain delta m2 where w: "write_locked cfg coins key v m1 = Some (Inr delta, m2)" "mem_ok cfg m2 tss"
      "raw_view m2 tss = (raw_view m1 tss)(key \<mapsto> v)" "delta \<le> n" "credits m2 = credits m1"
    using write_locked_ok [OF ok(1) assms(2)] unfolding n_def by blast
  let ?m3 = "release_credit (n - delta) m2"
  have "mt_Put cfg coins key v m = Some (Some (Inr ()), ?m3)" using a w(1) unfolding mt_Put_def n_def [symmetric] by (simp add: write_rest_def)
  moreover have "mem_ok cfg ?m3 tss" "raw_view ?m3 tss = raw_view m2 tss"
    using w(2) by (simp_all add: release_credit_def mem_ok_def raw_view_def)
  moreover have "credit_room rest ?m3"
    using assms(4) w(4,5) c by (auto simp: credit_room_def release_credit_def Release_def m1_def Let_def)
  ultimately show ?thesis using w(3) ok(2) by auto
qed

text \<open>A record of the log as the write it stands for, and as the write its replay performs.\<close>

definition rec_write :: "wal_record \<Rightarrow> LogEntry" where
  "rec_write r = (case r of (op, k, v) \<Rightarrow> (k, if op = WALOpPut then as_read v else None))"

lemma rec_write_pair [simp]: "rec_write (op, k, v) = (k, if op = WALOpPut then as_read v else None)"
  by (simp add: rec_write_def)

definition rec_ok :: "wal_record \<Rightarrow> bool" where
  "rec_ok r \<longleftrightarrow> rec_fits r \<and> (case r of (op, k, v) \<Rightarrow> op \<in> {WALOpPut, WALOpDelete}) \<and> entry_fits (rec_write r)"

text \<open>
  The contract the server relies on: as long as there is room, a put succeeds, uses at most its own cost, and
  changes the view at its key only. Any sequence of writes then leaves the view overridden by them in order.
\<close>

fun put_all ::
    "((nat \<Rightarrow> bool) \<Rightarrow> bytes \<Rightarrow> bytes option \<Rightarrow> 's \<Rightarrow> (write_outcome \<times> 's) option) \<Rightarrow> (nat \<Rightarrow> nat \<Rightarrow> bool) \<Rightarrow> nat \<Rightarrow>
     LogEntry list \<Rightarrow> 's \<Rightarrow> (write_outcome \<times> 's) option" where
  "put_all put coins n [] s = Some (Done, s)"
| "put_all put coins n ((k, v) # ws) s =
     (case put (coins n) k v s of
        Some (Done, s') \<Rightarrow> put_all put coins (n + 1) ws s'
      | r \<Rightarrow> r)"

definition write_cost :: "LogEntry list \<Rightarrow> int" where
  "write_cost ws = (\<Sum>(k, v) \<leftarrow> ws. cost k v)"

lemma write_cost_simps [simp]: "write_cost [] = 0" "write_cost ((k, v) # ws) = cost k v + write_cost ws"
  by (simp_all add: write_cost_def)

lemma write_cost_nonneg [simp]: "0 \<le> write_cost ws"
  by (induction ws) auto

locale write_store =
  fixes ok :: "int \<Rightarrow> 's \<Rightarrow> bool"
    and view :: "'s \<Rightarrow> bytes \<rightharpoonup> bytes option"
    and put :: "(nat \<Rightarrow> bool) \<Rightarrow> bytes \<Rightarrow> bytes option \<Rightarrow> 's \<Rightarrow> (write_outcome \<times> 's) option"
  assumes put_law: "\<lbrakk>ok (cost k v + rest) s; 0 \<le> rest; entry_fits (k, v)\<rbrakk> \<Longrightarrow>
      \<exists>s'. put coins k v s = Some (Done, s') \<and> ok rest s' \<and> view s' = (view s)(k \<mapsto> v)"
begin

lemma put_all_law:
  assumes "ok (write_cost ws) s" and "\<forall>e \<in> set ws. entry_fits e"
  shows "\<exists>s'. put_all put coins n ws s = Some (Done, s') \<and> ok 0 s' \<and> view s' = view s ++ written ws"
  using assms
proof (induction ws arbitrary: n s)
  case Nil
  then show ?case by (simp add: written_def)
next
  case (Cons e ws)
  obtain k v where e: "e = (k, v)" by (cases e)
  obtain s1 where s1: "put (coins n) k v s = Some (Done, s1)" "ok (write_cost ws) s1" "view s1 = (view s)(k \<mapsto> v)"
    using put_law [of k v "write_cost ws" s "coins n"] Cons.prems by (auto simp: e)
  obtain s' where s': "put_all put coins (n + 1) ws s1 = Some (Done, s')" "ok 0 s'" "view s' = view s1 ++ written ws"
    using Cons.IH [OF s1(2)] Cons.prems(2) by fastforce
  have "view s' = view s ++ written (e # ws)"
    unfolding s'(3) s1(3) written_Cons by (simp add: e map_add_assoc [symmetric])
  then show ?case using s' s1(1) by (simp add: e)
qed

end

interpretation engine: write_store "\<lambda>n m. mem_ok cfg m tss \<and> credit_room n m" "\<lambda>m. raw_view m tss" "engine_Put cfg"
proof
  fix k v rest m coins
  assume "mem_ok cfg m tss \<and> credit_room (cost k v + rest) m" "0 \<le> rest" "entry_fits (k, v)"
  then obtain m' where "mt_Put cfg coins k v m = Some (Some (Inr ()), m')" "mem_ok cfg m' tss"
      "raw_view m' tss = (raw_view m tss)(k \<mapsto> v)" "credit_room rest m'"
    using mt_Put_ok [of cfg m tss k v rest coins] by auto
  then show "\<exists>m'. engine_Put cfg coins k v m = Some (Done, m') \<and> (mem_ok cfg m' tss \<and> credit_room rest m') \<and>
      raw_view m' tss = (raw_view m tss)(k \<mapsto> v)"
    by (auto simp: engine_Put_def outcome_def)
qed

lemma engine_Delete_Put: "engine_Delete cfg coins key m = engine_Put cfg coins key None m"
  by (simp add: engine_Delete_def engine_Put_def mt_Delete_Put)

text \<open>Replaying a log is performing its writes.\<close>

lemma replay_put_all:
  assumes "\<forall>r \<in> set rs. rec_ok r" and "put_all (engine_Put cfg) coins n (map rec_write rs) m = Some (Done, m')"
  shows "replay_ops (replay_cb cfg coins) rs (n, m) = Some (Inr (), (n + length rs, m'))"
  using assms
proof (induction rs arbitrary: n m)
  case (Cons r rs)
  obtain op k v where r: "r = (op, k, v)" by (cases r)
  let ?v = "if op = WALOpPut then as_read v else None"
  obtain m1 where m1: "engine_Put cfg (coins n) k ?v m = Some (Done, m1)"
      "put_all (engine_Put cfg) coins (n + 1) (map rec_write rs) m1 = Some (Done, m')"
    using Cons.prems(2) by (auto simp: r split: option.splits prod.splits write_outcome.splits)
  have "op = WALOpPut \<or> op = WALOpDelete" using Cons.prems(1) by (auto simp: r rec_ok_def)
  then have "replay_cb cfg coins op k (as_read v) (n, m) = Some (Inr (), (n + 1, m1))"
    using m1(1) by (auto simp: replay_cb_def engine_Delete_Put WALOpPut_def WALOpDelete_def split: if_splits)
  then show ?case using Cons.IH [OF _ m1(2)] Cons.prems(1) by (simp add: r)
qed simp

end
