(* ===== verification/Standalone.thy ===== *)
theory Standalone
  imports Server
begin

text \<open>
  The standalone server under concurrent clients, a crash and a restart. A client's write is two steps, appending
  its record and changing the memtable; the steps of different clients interleave freely. \<open>logged\<close> holds the
  commands in the order of their records, \<open>stored\<close> those whose memtable write is done, which are the acknowledged
  ones.
\<close>

section \<open>The steps\<close>

definition cmd_rec :: "KVCommand \<Rightarrow> wal_record" where
  "cmd_rec c = (if cmdType c = ''Put'' then (WALOpPut, cmdKey c, cmdValue c) else (WALOpDelete, cmdKey c, None))"

definition cmd_write :: "KVCommand \<Rightarrow> LogEntry" where
  "cmd_write c = (cmdKey c, if cmdType c = ''Put'' then cmdValue c else None)"

definition cmd_ok :: "KVCommand \<Rightarrow> bool" where
  "cmd_ok c \<longleftrightarrow> cmdType c \<in> {''Put'', ''Delete''} \<and> rec_ok (cmd_rec c) \<and> entry_fits (cmd_write c)"

record Standalone =
  srv :: KVServer
  logged :: "KVCommand list"
  unstored :: "KVCommand list"
  stored :: "KVCommand list"

definition fresh_server :: "MemTable \<Rightarrow> Standalone" where
  "fresh_server m =
     \<lparr>srv = \<lparr>storage = m, kv_wal = Some (NewWAL None), kv_raft = None\<rparr>, logged = [], unstored = [], stored = []\<rparr>"

inductive sstep :: "MemConfig \<Rightarrow> Standalone \<Rightarrow> Standalone \<Rightarrow> bool" for cfg where
  log: "\<lbrakk>cmd_ok c; kv_wal (srv s) = Some w; log_command WalOk c w = (Inr (), w')\<rbrakk> \<Longrightarrow>
     sstep cfg s (s\<lparr>srv := (srv s)\<lparr>kv_wal := Some w'\<rparr>, logged := logged s @ [c], unstored := unstored s @ [c]\<rparr>)"
| store: "\<lbrakk>unstored s = ps @ c # qs; store_command cfg coins c (srv s) = Some (Done, s')\<rbrakk> \<Longrightarrow>
     sstep cfg s (s\<lparr>srv := s', unstored := ps @ qs, stored := stored s @ [c]\<rparr>)"
| background: "sstep cfg s (s\<lparr>srv := (srv s)\<lparr>storage := m'\<rparr>\<rparr>)"

inductive_cases sstepE: "sstep cfg s s'"

inductive srun :: "MemConfig \<Rightarrow> MemTable \<Rightarrow> Standalone \<Rightarrow> bool" for cfg m where
  srun_init: "srun cfg m (fresh_server m)"
| srun_step: "srun cfg m s \<Longrightarrow> sstep cfg s s' \<Longrightarrow> srun cfg m s'"

text \<open>
  \<open>background\<close> stands for the flush and compaction workers; nothing below depends on what they do to the memtable.
\<close>

section \<open>The log holds every acknowledged write\<close>

definition log_inv :: "Standalone \<Rightarrow> bool" where
  "log_inv s \<longleftrightarrow> kv_raft (srv s) = None \<and> (\<exists>w. kv_wal (srv s) = Some w \<and> wal_file w = Some (concat (map (enc_rec \<circ> cmd_rec) (logged s)))) \<and>
     (\<forall>c \<in> set (logged s). cmd_ok c) \<and> mset (logged s) = mset (unstored s) + mset (stored s)"

lemma log_command_ok:
  assumes "cmd_ok c" and "wal_file w = Some f"
  shows "log_command WalOk c w = (Inr (), w\<lparr>wal_file := Some (f @ enc_rec (cmd_rec c))\<rparr>)"
  using assms by (auto simp: log_command_def cmd_rec_def cmd_ok_def wal_Append_def nil_bytes_def)

lemma store_command_keeps:
  "store_command cfg coins c s = Some (out, s') \<Longrightarrow> kv_wal s' = kv_wal s \<and> kv_raft s' = kv_raft s"
  by (auto simp: store_command_def)

lemma sstep_inv:
  assumes "sstep cfg s s'" and "log_inv s"
  shows "log_inv s'"
  using assms(1)
proof (cases rule: sstepE [consumes 1, case_names log store background])
  case (log c w w')
  obtain w0 where w0: "kv_wal (srv s) = Some w0" "wal_file w0 = Some (concat (map (enc_rec \<circ> cmd_rec) (logged s)))"
    using assms(2) by (auto simp: log_inv_def)
  then have "w' = w0\<lparr>wal_file := Some (concat (map (enc_rec \<circ> cmd_rec) (logged s)) @ enc_rec (cmd_rec c))\<rparr>"
    using log log_command_ok [OF log(2) w0(2)] by simp
  then show ?thesis using log assms(2) by (auto simp: log_inv_def)
next
  case (store ps c qs coins s1)
  then show ?thesis using assms(2) store_command_keeps [OF store(3)] by (auto simp: log_inv_def)
next
  case (background m')
  then show ?thesis using assms(2) by (auto simp: log_inv_def)
qed

lemma srun_inv: "srun cfg m s \<Longrightarrow> log_inv s"
proof (induction rule: srun.induct)
  case srun_init
  then show ?case by (simp add: log_inv_def fresh_server_def NewWAL_def)
next
  case (srun_step s s')
  then show ?case using sstep_inv by blast
qed

section \<open>Restart\<close>

abbreviation replayed :: "KVCommand list \<Rightarrow> LogEntry list" where
  "replayed cs \<equiv> map (rec_write \<circ> cmd_rec) cs"

text \<open>A log of complete records and a torn tail is replayed completely onto any memtable with room for it.\<close>

lemma restart_log:
  assumes "\<forall>c \<in> set cs. cmd_ok c" and "torn t" and "mem_ok cfg m tss" and "credit_room (write_cost (replayed cs)) m"
  shows "\<exists>s. NewKVServer_standalone cfg coins (Some (concat (map (enc_rec \<circ> cmd_rec) cs) @ t)) m = Some (Inr (), s) \<and>
     mem_ok cfg (storage s) tss \<and> raw_view (storage s) tss = raw_view m tss ++ written (replayed cs)"
proof -
  let ?rs = "map cmd_rec cs"
  have ok: "\<forall>r \<in> set ?rs. rec_ok r" using assms(1) by (auto simp: cmd_ok_def)
  then have fits: "\<forall>r \<in> set ?rs. rec_fits r" "\<forall>e \<in> set (map rec_write ?rs). entry_fits e" by (auto simp: rec_ok_def)
  have "mem_ok cfg m tss \<and> credit_room (write_cost (map rec_write ?rs)) m" using assms(3,4) by (simp add: comp_def)
  from engine.put_all_law [OF this fits(2), of coins 0]
  obtain m' where m': "put_all (engine_Put cfg) coins 0 (map rec_write ?rs) m = Some (Done, m')" "mem_ok cfg m' tss"
      "raw_view m' tss = raw_view m tss ++ written (map rec_write ?rs)"
    by blast
  have "wal_file (NewWAL (Some (concat (map enc_rec ?rs) @ t))) = Some (concat (map enc_rec ?rs) @ t)" by (simp add: NewWAL_def)
  from Replay_log [OF this fits(1) assms(2), of "replay_cb cfg coins" "(0, m)"]
  have "Replay (replay_cb cfg coins) (NewWAL (Some (concat (map enc_rec ?rs) @ t))) (0, m) = Some (Inr (), (length ?rs, m'))"
    using replay_put_all [OF ok m'(1)] by simp
  then show ?thesis using m' by (simp add: NewKVServer_standalone_def replayWAL_def comp_def)
qed

text \<open>A restarted server answers from the restored view.\<close>

lemma kv_Get_ok:
  assumes "mem_ok cfg (storage s) tss"
  shows "\<exists>s'. kv_Get key s = Some (case visible (storage s) tss key of None \<Rightarrow> Inl KeyNotFound | Some v \<Rightarrow> Inr v, s')"
  using mt_Get_ok [OF assms, of key] by (auto simp: kv_Get_def)

section \<open>One write after the other\<close>

lemma run_command_put:
  assumes "cmd_ok c"
  shows "run_command cfg coins c m = engine_Put cfg coins (fst (cmd_write c)) (snd (cmd_write c)) m"
  using assms by (auto simp: run_command_def cmd_write_def cmd_ok_def engine_Delete_Put)

fun write_each :: "MemConfig \<Rightarrow> (nat \<Rightarrow> nat \<Rightarrow> bool) \<Rightarrow> nat \<Rightarrow> KVCommand list \<Rightarrow> KVServer \<Rightarrow> (write_outcome \<times> KVServer) option" where
  "write_each cfg coins n [] s = Some (Done, s)"
| "write_each cfg coins n (c # cs) s =
     (case writeStandalone cfg (coins n) WalOk c s of
        Some (Done, s') \<Rightarrow> write_each cfg coins (n + 1) cs s'
      | r \<Rightarrow> r)"

lemma write_each_put_all:
  assumes "\<forall>c \<in> set cs. cmd_ok c" and "kv_wal s = Some w" and "wal_file w = Some f"
    and "put_all (engine_Put cfg) coins n (map cmd_write cs) (storage s) = Some (Done, m')"
  shows "write_each cfg coins n cs s =
    Some (Done, s\<lparr>storage := m', kv_wal := Some (w\<lparr>wal_file := Some (f @ concat (map (enc_rec \<circ> cmd_rec) cs))\<rparr>)\<rparr>)"
  using assms
proof (induction cs arbitrary: n s w f)
  case (Cons c cs)
  let ?w = "w\<lparr>wal_file := Some (f @ enc_rec (cmd_rec c))\<rparr>"
  have c: "cmd_ok c" using Cons.prems(1) by simp
  obtain m1 where m1: "engine_Put cfg (coins n) (fst (cmd_write c)) (snd (cmd_write c)) (storage s) = Some (Done, m1)"
      "put_all (engine_Put cfg) coins (n + 1) (map cmd_write cs) m1 = Some (Done, m')"
    using Cons.prems(4) by (cases "cmd_write c") (auto split: option.splits prod.splits write_outcome.splits)
  have "writeStandalone cfg (coins n) WalOk c s = Some (Done, s\<lparr>kv_wal := Some ?w, storage := m1\<rparr>)"
    using c Cons.prems(2) log_command_ok [OF c Cons.prems(3)] m1(1)
    by (auto simp: writeStandalone_def store_command_def run_command_put [OF c] cmd_ok_def)
  then show ?case
    using Cons.IH [of "s\<lparr>kv_wal := Some ?w, storage := m1\<rparr>" ?w "f @ enc_rec (cmd_rec c)" "n + 1"] m1(2) Cons.prems(1)
    by simp
qed simp

end
