(* ===== verification/Proto.thy ===== *)
theory Proto
  imports Prelude
begin

text \<open>
  The wire protocol: message codes (\<open>pkg/proto/codes.go\<close>), frames (\<open>network/banNet/DataPack.go\<close>, \<open>message.go\<close>,
  \<open>pkg/utils\<close>), the payloads of requests and responses (\<open>pkg/proto/scan.go\<close>, the encoders of the client and of
  the ingest hook), and their round trips. A Go string is its bytes. Lengths that the code keeps in a \<open>uint16\<close>
  or \<open>uint32\<close> are words; \<open>int(uint32)\<close> is a \<open>nat\<close>, since \<open>int\<close> has 64 bits. A network connection is the bytes the
  peer sends before it closes.
\<close>

section \<open>Codes\<close>

definition MsgPut :: bytes where "MsgPut = ascii ''PUT''"
definition MsgGet :: bytes where "MsgGet = ascii ''GET''"
definition MsgDelete :: bytes where "MsgDelete = ascii ''DEL''"
definition MsgScan :: bytes where "MsgScan = ascii ''SCAN''"
definition MsgRespOK :: bytes where "MsgRespOK = ascii ''OK''"
definition MsgRespErr :: bytes where "MsgRespErr = ascii ''ERR''"

definition StatusOK :: bytes where "StatusOK = ascii ''ok''"
definition StatusError :: bytes where "StatusError = ascii ''error''"
definition StatusDropped :: bytes where "StatusDropped = ascii ''dropped''"

lemmas msg_codes = MsgPut_def MsgGet_def MsgDelete_def MsgScan_def MsgRespOK_def MsgRespErr_def ascii_def
lemmas status_codes = StatusOK_def StatusError_def StatusDropped_def ascii_def

lemma codes_neq [simp]:
  "MsgGet \<noteq> MsgPut" "MsgPut \<noteq> MsgGet" "MsgDelete \<noteq> MsgPut" "MsgPut \<noteq> MsgDelete" "MsgScan \<noteq> MsgPut" "MsgPut \<noteq> MsgScan"
  "MsgDelete \<noteq> MsgGet" "MsgGet \<noteq> MsgDelete" "MsgScan \<noteq> MsgGet" "MsgGet \<noteq> MsgScan" "MsgScan \<noteq> MsgDelete" "MsgDelete \<noteq> MsgScan"
  "StatusError \<noteq> StatusOK" "StatusDropped \<noteq> StatusOK"
  by (simp_all add: msg_codes status_codes)

lemma length_codes [simp]:
  "length MsgPut = 3" "length MsgGet = 3" "length MsgDelete = 3" "length MsgScan = 4" "length MsgRespOK = 2"
  "length MsgRespErr = 3" "length StatusOK = 2" "length StatusError = 5" "length StatusDropped = 7"
  by (simp_all add: msg_codes status_codes)

section \<open>Slices\<close>

text \<open>\<open>data[a:b]\<close>, used where the code has checked the bounds.\<close>

definition go_slice :: "nat \<Rightarrow> nat \<Rightarrow> bytes \<Rightarrow> bytes" where
  "go_slice a b bs = take (b - a) (drop a bs)"

lemma slice_seg [read_simps]: "seg f pos bs \<Longrightarrow> go_slice pos (pos + length bs) f = bs"
  by (simp add: go_slice_def seg_def)

lemma slice_segI: "seg f a bs \<Longrightarrow> b = a + length bs \<Longrightarrow> go_slice a b f = bs"
  by (simp add: slice_seg)

lemma length_slice [simp]: "b \<le> length bs \<Longrightarrow> length (go_slice a b bs) = b - a"
  by (simp add: go_slice_def)

section \<open>Frames\<close>

record Message =
  msg_Id :: bytes
  IDLen :: "16 word"
  DataLen :: "32 word"
  msg_Data :: bytes

datatype net_error = IdTooLong nat | ReadErr io_error | DataTooLarge

definition NewMessage :: "bytes \<Rightarrow> bytes \<Rightarrow> Message" where
  "NewMessage i d = \<lparr>msg_Id = i, IDLen = 0, DataLen = word_of_nat (length d), msg_Data = d\<rparr>"

definition GetHeadLen :: nat where
  "GetHeadLen = 6"

definition Pack :: "Message \<Rightarrow> net_error + bytes" where
  "Pack msg =
     (if 0xFFFF < length (msg_Id msg) then Inl (IdTooLong (length (msg_Id msg)))
      else Inr (put_le 4 (unat (DataLen msg)) @ put_le 2 (length (msg_Id msg)) @ msg_Id msg @ msg_Data msg))"

text \<open>\<open>UnPack\<close> reads the two length fields of a header and leaves identifier and data to its caller.\<close>

definition UnPack :: "32 word \<Rightarrow> bytes \<Rightarrow> net_error + Message" where
  "UnPack maxPackageSize d =
     (case ReadFull d 0 4 of
        Inl e \<Rightarrow> Inl (ReadErr e)
      | Inr (a, p) \<Rightarrow>
         (case ReadFull d p 2 of
            Inl e \<Rightarrow> Inl (ReadErr e)
          | Inr (b, _) \<Rightarrow>
             (let dataLen = word_of_nat (get_le a)
              in if 0 < maxPackageSize \<and> maxPackageSize < dataLen then Inl DataTooLarge
                 else Inr \<lparr>msg_Id = [], IDLen = word_of_nat (get_le b), DataLen = dataLen, msg_Data = []\<rparr>)))"

text \<open>One turn of the loop in \<open>StartReader\<close>: the frame at \<open>pos\<close>, and the position behind it.\<close>

definition read_frame :: "32 word \<Rightarrow> bytes \<Rightarrow> nat \<Rightarrow> net_error + Message \<times> nat" where
  "read_frame maxPackageSize f pos =
     (case ReadFull f pos GetHeadLen of
        Inl e \<Rightarrow> Inl (ReadErr e)
      | Inr (headData, p1) \<Rightarrow>
         (case UnPack maxPackageSize headData of
            Inl e \<Rightarrow> Inl e
          | Inr msg \<Rightarrow>
             (case ReadFull f p1 (unat (IDLen msg)) of
                Inl e \<Rightarrow> Inl (ReadErr e)
              | Inr (idBuf, p2) \<Rightarrow>
                 (case ReadFull f p2 (unat (DataLen msg)) of
                    Inl e \<Rightarrow> Inl (ReadErr e)
                  | Inr (d, p3) \<Rightarrow> Inr (msg\<lparr>msg_Id := idBuf, msg_Data := d\<rparr>, p3)))))"

lemma read_frame_progress: "read_frame mx f pos = Inr (msg, p) \<Longrightarrow> pos < p \<and> pos < length f"
  using ReadFull_progress [of f pos GetHeadLen]
  by (auto simp: read_frame_def GetHeadLen_def dest!: ReadFull_Inr split: sum.splits)

text \<open>\<open>StartReader\<close>: the messages handed over before the reader stops, and why it stops.\<close>

function StartReader :: "32 word \<Rightarrow> bytes \<Rightarrow> nat \<Rightarrow> Message list \<times> net_error" where
  "StartReader mx f pos =
     (case read_frame mx f pos of
        Inl e \<Rightarrow> ([], e)
      | Inr (msg, p) \<Rightarrow> (case StartReader mx f p of (ms, e) \<Rightarrow> (msg # ms, e)))"
  by pat_completeness auto
termination
  by (relation "measure (\<lambda>(mx, f, pos). length f - pos)") (auto dest: read_frame_progress)

declare StartReader.simps [simp del]

section \<open>Payloads\<close>

text \<open>\<open>pkg/utils\<close>: \<open>ByteBuilder\<close> and \<open>NewKVData\<close>; the ingest hook has its own \<open>encodePut\<close> and \<open>parsePut\<close>.\<close>

definition ByteBuilder :: "bytes list \<Rightarrow> bytes" where
  "ByteBuilder bss = concat bss"

definition NewKVData :: "bytes \<Rightarrow> bytes \<Rightarrow> bytes" where
  "NewKVData key v = ByteBuilder [put_le 4 (length key), put_le 4 (length v), key, v]"

definition encodePut :: "bytes \<Rightarrow> bytes \<Rightarrow> bytes" where
  "encodePut key v = put_le 4 (length key) @ put_le 4 (length v) @ key @ v"

definition parsePut :: "bytes \<Rightarrow> (bytes \<times> bytes) option" where
  "parsePut d =
     (if length d < 8 then None
      else let keyLen = get_le (go_slice 0 4 d); valueLen = get_le (go_slice 4 8 d)
           in if length d < 8 + keyLen + valueLen then None
              else Some (go_slice 8 (8 + keyLen) d, go_slice (8 + keyLen) (8 + keyLen + valueLen) d))"

text \<open>The payload of GET and DEL requests, \<open>client.go\<close>.\<close>

definition key_payload :: "bytes \<Rightarrow> bytes" where
  "key_payload key = ByteBuilder [put_le 4 (length key), key]"

definition statusPayload :: "bytes \<Rightarrow> bytes" where
  "statusPayload status = word_of_nat (length status) # status"

datatype client_error = EmptyPayload | TruncatedStatus | InvalidFormat | Incomplete | ServerError |
  NetErr net_error | ScanErr nat

definition parseStatus :: "bytes \<Rightarrow> client_error + bytes \<times> bytes" where
  "parseStatus payload =
     (if length payload < 1 then Inl EmptyPayload
      else let statusLen = unat (payload ! 0)
           in if length payload < 1 + statusLen then Inl TruncatedStatus
              else Inr (go_slice 1 (1 + statusLen) payload, drop (1 + statusLen) payload))"

section \<open>Scan requests and responses\<close>

record Predicate =
  pr_Field :: bytes
  pr_Op :: byte
  pr_Operand :: bytes

record ScanRequest =
  sr_Start :: bytes
  sr_End :: bytes
  sr_Pred :: Predicate

type_synonym ScanEntry = "bytes \<times> bytes"

definition scanReqHeaderLen :: nat where
  "scanReqHeaderLen = 13"

definition EncodeScanRequest :: "ScanRequest \<Rightarrow> bytes" where
  "EncodeScanRequest r =
     put_le 4 (length (sr_Start r)) @ put_le 4 (length (sr_End r)) @ put_le 4 (length (pr_Field (sr_Pred r))) @
     [pr_Op (sr_Pred r)] @ sr_Start r @ sr_End r @ pr_Field (sr_Pred r) @ pr_Operand (sr_Pred r)"

definition DecodeScanRequest :: "bytes \<Rightarrow> ScanRequest option" where
  "DecodeScanRequest d =
     (if length d < scanReqHeaderLen then None
      else let startLen = get_le (go_slice 0 4 d); endLen = get_le (go_slice 4 8 d); fieldLen = get_le (go_slice 8 12 d);
               op = d ! 12; off = scanReqHeaderLen
           in if length d < off + startLen + endLen + fieldLen then None
              else Some \<lparr>sr_Start = go_slice off (off + startLen) d,
                         sr_End = go_slice (off + startLen) (off + startLen + endLen) d,
                         sr_Pred = \<lparr>pr_Field = go_slice (off + startLen + endLen) (off + startLen + endLen + fieldLen) d,
                                    pr_Op = op, pr_Operand = drop (off + startLen + endLen + fieldLen) d\<rparr>\<rparr>)"

definition enc_scan_entry :: "ScanEntry \<Rightarrow> bytes" where
  "enc_scan_entry e = (case e of (k, v) \<Rightarrow> put_le 4 (length k) @ put_le 4 (length v) @ k @ v)"

definition EncodeScanResponse :: "bytes \<Rightarrow> ScanEntry list \<Rightarrow> bytes" where
  "EncodeScanResponse status entries =
     [word_of_nat (length status)] @ status @ put_le 4 (length entries) @ concat (map enc_scan_entry entries)"

text \<open>The loop of \<open>DecodeScanResponse\<close> over the number of entries still to read; an error carries the entry's index.\<close>

fun decode_entries :: "bytes \<Rightarrow> nat \<Rightarrow> nat \<Rightarrow> nat \<Rightarrow> client_error + ScanEntry list" where
  "decode_entries payload 0 i off = Inr []"
| "decode_entries payload (Suc n) i off =
     (if length payload < off + 8 then Inl (ScanErr i)
      else let keyLen = get_le (go_slice off (off + 4) payload); valueLen = get_le (go_slice (off + 4) (off + 8) payload);
               o8 = off + 8
           in if length payload < o8 + keyLen + valueLen then Inl (ScanErr i)
              else case decode_entries payload n (i + 1) (o8 + keyLen + valueLen) of
                     Inl e \<Rightarrow> Inl e
                   | Inr es \<Rightarrow> Inr ((go_slice o8 (o8 + keyLen) payload,
                                    go_slice (o8 + keyLen) (o8 + keyLen + valueLen) payload) # es))"

definition DecodeScanResponse :: "bytes \<Rightarrow> client_error + bytes \<times> ScanEntry list" where
  "DecodeScanResponse payload =
     (if length payload < 1 then Inl EmptyPayload
      else let statusLen = unat (payload ! 0); off = 1
           in if length payload < off + statusLen + 4 then Inl TruncatedStatus
              else let status = go_slice off (off + statusLen) payload;
                       count = get_le (go_slice (off + statusLen) (off + statusLen + 4) payload)
                   in case decode_entries payload count 0 (off + statusLen + 4) of
                        Inl e \<Rightarrow> Inl e
                      | Inr es \<Rightarrow> Inr (status, es))"

section \<open>Round trips of the payloads\<close>

lemma get_le_seg [read_simps]: "seg f pos (put_le n v) \<Longrightarrow> v < 256 ^ n \<Longrightarrow> get_le (go_slice pos (pos + n) f) = v"
  using slice_seg [of f pos "put_le n v"] by (simp add: get_put_le)

lemma seg_Cons_nth: "seg f pos (x # xs) \<Longrightarrow> f ! pos = x"
proof -
  assume "seg f pos (x # xs)"
  then have "take (Suc (length xs)) (drop pos f) ! 0 = x" "pos < length f" by (simp_all add: seg_def)
  then show ?thesis by simp
qed

lemma encodePut_NewKVData: "encodePut = NewKVData"
  by (intro ext) (simp add: encodePut_def NewKVData_def ByteBuilder_def)

lemma parsePut_encodePut:
  assumes "length key < 2 ^ 32" and "length v < 2 ^ 32"
  shows "parsePut (encodePut key v @ rest) = Some (key, v)"
proof -
  let ?d = "encodePut key v @ rest"
  have "seg ?d 0 (put_le 4 (length key) @ put_le 4 (length v) @ key @ v)"
    by (rule segI [of _ "[]" _ rest]) (simp_all add: encodePut_def)
  then have s: "seg ?d 0 (put_le 4 (length key))" "seg ?d 4 (put_le 4 (length v))" "seg ?d 8 key" "seg ?d (8 + length key) v"
    unfolding seg_append by simp_all
  have "get_le (go_slice 0 4 ?d) = length key" "get_le (go_slice 4 8 ?d) = length v"
    using get_le_seg [OF s(1)] get_le_seg [OF s(2)] assms by simp_all
  moreover have "go_slice 8 (8 + length key) ?d = key" "go_slice (8 + length key) (8 + length key + length v) ?d = v"
    using slice_seg [OF s(3)] slice_seg [OF s(4)] by simp_all
  ultimately show ?thesis using seg_length [OF s(4)] by (simp add: parsePut_def Let_def)
qed

lemma parseStatus_payload:
  assumes "length status < 256"
  shows "parseStatus (statusPayload status @ rest) = Inr (status, rest)"
proof -
  have "unat (word_of_nat (length status) :: byte) = length status" using assms by (simp add: unat_of_nat)
  then show ?thesis by (simp add: parseStatus_def statusPayload_def Let_def go_slice_def)
qed

definition request_fits :: "ScanRequest \<Rightarrow> bool" where
  "request_fits r \<longleftrightarrow> length (sr_Start r) < 2 ^ 32 \<and> length (sr_End r) < 2 ^ 32 \<and> length (pr_Field (sr_Pred r)) < 2 ^ 32"

lemma DecodeScanRequest_Encode:
  assumes "request_fits r"
  shows "DecodeScanRequest (EncodeScanRequest r) = Some r"
proof -
  obtain st en fld op opd where r: "r = \<lparr>sr_Start = st, sr_End = en, sr_Pred = \<lparr>pr_Field = fld, pr_Op = op, pr_Operand = opd\<rparr>\<rparr>"
    by (metis (full_types) ScanRequest.cases Predicate.cases old.unit.exhaust)
  let ?d = "EncodeScanRequest r"
  have "seg ?d 0 (put_le 4 (length st) @ put_le 4 (length en) @ put_le 4 (length fld) @ [op] @ st @ en @ fld @ opd)"
    by (rule segI [of _ "[]" _ "[]"]) (simp_all add: EncodeScanRequest_def r)
  then have s: "seg ?d 0 (put_le 4 (length st))" "seg ?d 4 (put_le 4 (length en))" "seg ?d 8 (put_le 4 (length fld))"
      "seg ?d 12 [op]" "seg ?d 13 st" "seg ?d (13 + length st) en" "seg ?d (13 + length st + length en) fld"
    unfolding seg_append by (simp_all add: add.assoc)
  have len: "length ?d = 13 + length st + length en + length fld + length opd" by (simp add: EncodeScanRequest_def r)
  have "get_le (go_slice 0 4 ?d) = length st" "get_le (go_slice 4 8 ?d) = length en" "get_le (go_slice 8 12 ?d) = length fld"
    using get_le_seg [OF s(1)] get_le_seg [OF s(2)] get_le_seg [OF s(3)] assms by (simp_all add: request_fits_def r)
  moreover have "?d ! 12 = op" by (rule seg_Cons_nth [OF s(4)])
  moreover have "drop (13 + length st + length en + length fld) ?d = opd" by (simp add: EncodeScanRequest_def r)
  ultimately show ?thesis
    using slice_seg [OF s(5)] slice_seg [OF s(6)] slice_seg [OF s(7)] len
    by (simp add: DecodeScanRequest_def scanReqHeaderLen_def Let_def) (simp add: r)
qed

definition entry_codable :: "ScanEntry \<Rightarrow> bool" where
  "entry_codable e \<longleftrightarrow> length (fst e) < 2 ^ 32 \<and> length (snd e) < 2 ^ 32"

lemma enc_scan_entry_pair: "enc_scan_entry (k, v) = put_le 4 (length k) @ put_le 4 (length v) @ k @ v"
  by (simp add: enc_scan_entry_def)

lemma decode_entries_seg:
  assumes "seg f off (concat (map enc_scan_entry es))" and "\<forall>e \<in> set es. entry_codable e"
  shows "decode_entries f (length es) i off = Inr es"
  using assms
proof (induction es arbitrary: i off)
  case Nil
  then show ?case by simp
next
  case (Cons e es)
  obtain k v where e: "e = (k, v)" by (cases e)
  have s: "seg f off (put_le 4 (length k))" "seg f (off + 4) (put_le 4 (length v))" "seg f (off + 8) k"
      "seg f (off + 8 + length k) v" "seg f (off + 8 + length k + length v) (concat (map enc_scan_entry es))"
    using Cons.prems(1) enc_scan_entry_pair [of k v] by (simp_all add: e seg_append add.assoc)
  have "get_le (go_slice off (off + 4) f) = length k" "get_le (go_slice (off + 4) (off + 8) f) = length v"
    using get_le_seg [OF s(1)] get_le_seg [OF s(2)] Cons.prems(2) by (simp_all add: e entry_codable_def add.assoc)
  moreover have "decode_entries f (length es) (i + 1) (off + 8 + length k + length v) = Inr es"
    using Cons.IH [OF s(5)] Cons.prems(2) by simp
  ultimately show ?case
    using slice_seg [OF s(3)] slice_seg [OF s(4)] seg_length [OF s(4)] by (simp add: e Let_def)
qed

lemma DecodeScanResponse_Encode:
  assumes "length status < 256" and "length es < 2 ^ 32" and "\<forall>e \<in> set es. entry_codable e"
  shows "DecodeScanResponse (EncodeScanResponse status es) = Inr (status, es)"
proof -
  let ?d = "EncodeScanResponse status es"
  have "seg ?d 0 ([word_of_nat (length status)] @ status @ put_le 4 (length es) @ concat (map enc_scan_entry es))"
    by (rule segI [of _ "[]" _ "[]"]) (simp_all add: EncodeScanResponse_def)
  then have s: "seg ?d 0 [word_of_nat (length status)]" "seg ?d 1 status" "seg ?d (1 + length status) (put_le 4 (length es))"
      "seg ?d (1 + length status + 4) (concat (map enc_scan_entry es))"
    unfolding seg_append by (simp_all add: add.assoc)
  have "unat (?d ! 0) = length status" using assms(1) by (simp add: seg_Cons_nth [OF s(1)] unat_of_nat)
  moreover have "get_le (go_slice (1 + length status) (1 + length status + 4) ?d) = length es"
    using get_le_seg [OF s(3)] assms(2) by simp
  moreover have "1 + length status + 4 \<le> length ?d" using seg_length [OF s(4)] by simp
  moreover have "?d \<noteq> []" by (simp add: EncodeScanResponse_def)
  ultimately show ?thesis
    using slice_seg [OF s(2)] decode_entries_seg [OF s(4) assms(3)] by (simp add: DecodeScanResponse_def Let_def)
qed

section \<open>Round trip of the frames\<close>

definition frame_fits :: "32 word \<Rightarrow> bytes \<times> bytes \<Rightarrow> bool" where
  "frame_fits mx m \<longleftrightarrow> length (fst m) \<le> 0xFFFF \<and> length (snd m) < 2 ^ 32 \<and> (mx = 0 \<or> length (snd m) \<le> unat mx)"

definition frame :: "bytes \<times> bytes \<Rightarrow> bytes" where
  "frame m = put_le 4 (length (snd m)) @ put_le 2 (length (fst m)) @ fst m @ snd m"

text \<open>The message a reader builds for an identifier and data.\<close>

definition received :: "bytes \<times> bytes \<Rightarrow> Message" where
  "received m = \<lparr>msg_Id = fst m, IDLen = word_of_nat (length (fst m)), DataLen = word_of_nat (length (snd m)), msg_Data = snd m\<rparr>"

lemma Pack_frame: "frame_fits mx (i, d) \<Longrightarrow> Pack (NewMessage i d) = Inr (frame (i, d))"
  by (simp add: Pack_def NewMessage_def frame_def frame_fits_def unat_of_nat)

lemma UnPack_frame:
  assumes "frame_fits mx m"
  shows "UnPack mx (put_le 4 (length (snd m)) @ put_le 2 (length (fst m))) = Inr ((received m)\<lparr>msg_Id := [], msg_Data := []\<rparr>)"
proof -
  let ?d = "put_le 4 (length (snd m)) @ put_le 2 (length (fst m))"
  have s: "seg ?d 0 (put_le 4 (length (snd m)))" "seg ?d 4 (put_le 2 (length (fst m)))"
    by (rule segI [of _ "[]"], simp, simp) (rule segI [of _ "put_le 4 (length (snd m))" _ "[]"], simp_all)
  have "\<not> (0 < mx \<and> mx < word_of_nat (length (snd m)))"
    using assms by (auto simp: frame_fits_def word_less_nat_alt unat_of_nat)
  then show ?thesis
    using ReadFull_seg [OF s(1), of 4] ReadFull_seg [OF s(2), of 2] assms
    by (simp add: UnPack_def Let_def received_def get_put_le frame_fits_def)
qed

lemma read_frame_seg:
  assumes "seg f pos (frame m)" and "frame_fits mx m"
  shows "read_frame mx f pos = Inr (received m, pos + length (frame m))"
proof -
  let ?h = "put_le 4 (length (snd m)) @ put_le 2 (length (fst m))"
  have "seg f pos (?h @ fst m @ snd m)" using assms(1) by (simp add: frame_def)
  then have s: "seg f pos ?h" "seg f (pos + 6) (fst m)" "seg f (pos + 6 + length (fst m)) (snd m)"
    unfolding seg_append by simp_all
  have l: "unat (IDLen (received m)) = length (fst m)" "unat (DataLen (received m)) = length (snd m)"
    using assms(2) by (simp_all add: received_def frame_fits_def unat_of_nat)
  show ?thesis
    using ReadFull_seg [OF s(1), of 6] ReadFull_seg [OF s(2) refl] ReadFull_seg [OF s(3) refl] UnPack_frame [OF assms(2)] l
    by (simp add: read_frame_def GetHeadLen_def frame_def received_def add.assoc)
qed

text \<open>A frame that is cut short stops the reader with a read error.\<close>

lemma read_frame_torn:
  assumes "drop pos f = take n (frame m)" and "n < length (frame m)" and "frame_fits mx m"
  shows "\<exists>e. read_frame mx f pos = Inl (ReadErr e)"
proof -
  let ?h = "put_le 4 (length (snd m)) @ put_le 2 (length (fst m))"
  have len: "length f - pos = n" using arg_cong [OF assms(1), of length] assms(2) by simp
  have short: "n < 6 + length (fst m) + length (snd m)" using assms(2) by (simp add: frame_def)
  have l: "unat (IDLen (received m)) = length (fst m)" "unat (DataLen (received m)) = length (snd m)"
    using assms(3) by (simp_all add: received_def frame_fits_def unat_of_nat)
  show ?thesis
  proof (cases "n < 6")
    case True
    then show ?thesis using len by (auto simp: read_frame_def GetHeadLen_def ReadFull_def)
  next
    case False
    then have f: "length f = pos + n" using len by simp
    have "take 6 (drop pos f) = take 6 (frame m)" using False assms(1) by (simp add: min_def)
    also have "\<dots> = ?h" by (simp add: frame_def)
    finally have r: "ReadFull f pos 6 = Inr (?h, pos + 6)" using False f by (simp add: ReadFull_def)
    show ?thesis
      using r UnPack_frame [OF assms(3)] l short f
      by (auto simp: read_frame_def GetHeadLen_def ReadFull_def split: if_splits)
  qed
qed

definition frame_prefix :: "32 word \<Rightarrow> bytes \<Rightarrow> bool" where
  "frame_prefix mx t \<longleftrightarrow> (\<exists>m n. frame_fits mx m \<and> n < length (frame m) \<and> t = take n (frame m))"

lemma frame_prefix_Nil [simp]: "frame_prefix mx []"
  unfolding frame_prefix_def by (intro exI [of _ "([], [])"] exI [of _ 0]) (simp add: frame_fits_def frame_def)

lemma StartReader_frames:
  assumes "f = a @ concat (map frame ms) @ t" and "\<forall>m \<in> set ms. frame_fits mx m" and "frame_prefix mx t"
  shows "\<exists>e. StartReader mx f (length a) = (map received ms, ReadErr e)"
  using assms(1,2)
proof (induction ms arbitrary: a)
  case Nil
  obtain m n where m: "frame_fits mx m" "n < length (frame m)" "t = take n (frame m)"
    using assms(3) by (auto simp: frame_prefix_def)
  then have "\<exists>e. read_frame mx f (length a) = Inl (ReadErr e)" using read_frame_torn [of "length a" f n m] Nil by simp
  then show ?case by (subst StartReader.simps) auto
next
  case (Cons m ms)
  have f: "f = (a @ frame m) @ concat (map frame ms) @ t" using Cons.prems by simp
  have "seg f (length a) (frame m)" by (rule segI [of _ a _ "concat (map frame ms) @ t"]) (simp_all add: f)
  then have r: "read_frame mx f (length a) = Inr (received m, length a + length (frame m))"
    using read_frame_seg Cons.prems by simp
  obtain e where "StartReader mx f (length (a @ frame m)) = (map received ms, ReadErr e)"
    using Cons.IH [OF f] Cons.prems by auto
  then show ?case using r by (subst StartReader.simps) simp
qed

end
