(* ===== verification/Ingest.thy ===== *)
theory Ingest
  imports Proto
begin

text \<open>
  What happens to the bytes of a request and of a value outside the store: the counters of \<open>pkg/metrics\<close>, the
  request of \<open>network/banNet/request.go\<close>, the ingest filter of \<open>service/ingesthook/filter.go\<close> and the value predicate
  of \<open>pkg/predicate/predicate.go\<close>. What they use of \<open>encoding/json\<close> and of floating-point parsing is the record
  \<open>JsonValues\<close>; \<open>strconv.ParseInt\<close> is written out.
\<close>

section \<open>Counters\<close>

record Metrics =
  FramesDroppedMalformed :: "64 word"
  FramesDroppedOversized :: "64 word"
  FramesDroppedNonMonotonic :: "64 word"
  Writes :: "64 word"
  Reads :: "64 word"
  Scans :: "64 word"
  Deletes :: "64 word"
  WriteErrors :: "64 word"
  BackpressureStalls :: "64 word"

record Snapshot = Metrics +
  MemTableInflightBytes :: int
  MemTableBudgetBytes :: int

text \<open>\<open>Take\<close>: \<open>inflight\<close> is the registered callback, if any.\<close>

definition metrics_Take :: "(unit \<Rightarrow> int) option \<Rightarrow> int \<Rightarrow> Metrics \<Rightarrow> Snapshot" where
  "metrics_Take inflight bud m =
     Metrics.extend m \<lparr>MemTableInflightBytes = (case inflight of Some f \<Rightarrow> f () | None \<Rightarrow> 0), MemTableBudgetBytes = bud\<rparr>"

section \<open>Requests\<close>

datatype HookAction = HookPass | HookDrop

record Request =
  rq_msg :: Message
  rq_conn :: "32 word"

definition SetMsgData :: "bytes \<Rightarrow> Request \<Rightarrow> Request" where
  "SetMsgData d req = req\<lparr>rq_msg := (rq_msg req)\<lparr>msg_Data := d, DataLen := word_of_nat (length d)\<rparr>\<rparr>"

section \<open>JSON values\<close>

text \<open>
  \<open>json.Unmarshal\<close> of a value into a map of raw fields, a number or a string, \<open>json.Marshal\<close> of such a map, and
  \<open>strconv.ParseFloat\<close> with the order of \<open>float64\<close>. \<open>json_compact\<close> is what \<open>Marshal\<close> makes of a raw field.
\<close>

record 'f JsonValues =
  parse_object :: "bytes \<Rightarrow> (bytes \<rightharpoonup> bytes) option"
  print_object :: "(bytes \<rightharpoonup> bytes) \<Rightarrow> bytes option"
  json_compact :: "bytes \<Rightarrow> bytes"
  json_number :: "bytes \<Rightarrow> 'f option"
  json_string :: "bytes \<Rightarrow> bytes option"
  ParseFloat :: "bytes \<Rightarrow> 'f option"
  flt_less :: "'f \<Rightarrow> 'f \<Rightarrow> bool"
  flt_le :: "'f \<Rightarrow> 'f \<Rightarrow> bool"

definition redactedValue :: bytes where
  "redactedValue = ascii ''\"[REDACTED]\"''"

definition masked :: "bytes list \<Rightarrow> (bytes \<rightharpoonup> bytes) \<Rightarrow> bytes \<rightharpoonup> bytes" where
  "masked flds obj = (\<lambda>k. if k \<in> set flds \<and> obj k \<noteq> None then Some redactedValue else obj k)"

text \<open>
  \<open>Marshal\<close> of a parsed object, with fields replaced by the placeholder, succeeds; what it prints is read back with the
  same fields, each compacted.
\<close>

definition json_ok :: "'f JsonValues \<Rightarrow> bool" where
  "json_ok js \<longleftrightarrow> json_compact js redactedValue = redactedValue \<and>
     (\<forall>v obj flds. parse_object js v = Some obj \<longrightarrow> print_object js (masked flds obj) \<noteq> None) \<and>
     (\<forall>m out. print_object js m = Some out \<longrightarrow> parse_object js out = Some (\<lambda>k. map_option (json_compact js) (m k)))"

section \<open>The ingest filter\<close>

record Filter =
  redactFields :: "bytes list"
  maxValueLen :: int
  dropBackward :: bool
  lastTS :: "bytes \<rightharpoonup> int"

definition NewFilter :: "bytes list \<Rightarrow> int \<Rightarrow> bool \<Rightarrow> Filter" where
  "NewFilter flds mx back = \<lparr>redactFields = flds, maxValueLen = mx, dropBackward = back, lastTS = Map.empty\<rparr>"

text \<open>\<open>strconv.ParseInt(s, 10, 64)\<close>: a sign, at least one digit, nothing else, and the value in range.\<close>

definition is_digit :: "byte \<Rightarrow> bool" where
  "is_digit b \<longleftrightarrow> 48 \<le> b \<and> b \<le> 57"

definition ParseInt :: "bytes \<Rightarrow> int option" where
  "ParseInt s =
     (let neg = (s \<noteq> [] \<and> hd s = 45); ds = (if s \<noteq> [] \<and> (hd s = 45 \<or> hd s = 43) then tl s else s)
      in if ds = [] \<or> \<not> list_all is_digit ds then None
         else if \<not> neg \<and> 2 ^ 63 \<le> dec_value ds then None
         else if neg \<and> 2 ^ 63 < dec_value ds then None
         else Some (if neg then - int (dec_value ds) else int (dec_value ds)))"

text \<open>\<open>strings.LastIndexByte\<close>.\<close>

fun LastIndexByte :: "bytes \<Rightarrow> byte \<Rightarrow> nat option" where
  "LastIndexByte [] c = None"
| "LastIndexByte (x # xs) c =
     (case LastIndexByte xs c of Some i \<Rightarrow> Some (Suc i) | None \<Rightarrow> if x = c then Some 0 else None)"

definition parseKey :: "bytes \<Rightarrow> (bytes \<times> int) option" where
  "parseKey s =
     (case LastIndexByte s 58 of
        None \<Rightarrow> None
      | Some i \<Rightarrow>
         (if i = 0 \<or> i = length s - 1 then None
          else map_option (Pair (take i s)) (ParseInt (drop (i + 1) s))))"

text \<open>The loop of \<open>redact\<close> over the fields, and \<open>redact\<close>: \<open>None\<close> when the value is left as it is.\<close>

fun redact_loop :: "bytes list \<Rightarrow> (bytes \<rightharpoonup> bytes) \<Rightarrow> bool \<Rightarrow> (bytes \<rightharpoonup> bytes) \<times> bool" where
  "redact_loop [] m changed = (m, changed)"
| "redact_loop (field # flds) m changed =
     (if m field \<noteq> None then redact_loop flds (m(field \<mapsto> redactedValue)) True
      else redact_loop flds m changed)"

definition redact :: "'f JsonValues \<Rightarrow> bytes \<Rightarrow> bytes list \<Rightarrow> bytes option" where
  "redact js v flds =
     (if flds = [] then None
      else case parse_object js v of
             None \<Rightarrow> None
           | Some m \<Rightarrow>
              (case redact_loop flds m False of
                 (m', changed) \<Rightarrow> (if changed then print_object js m' else None)))"

text \<open>The monotonicity check under the filter's lock: whether the frame passes, and the new watermarks.\<close>

definition check_ts :: "bytes \<Rightarrow> (bytes \<rightharpoonup> int) \<Rightarrow> bool \<times> (bytes \<rightharpoonup> int)" where
  "check_ts key marks =
     (case parseKey key of
        None \<Rightarrow> (True, marks)
      | Some (device, ts) \<Rightarrow>
         (case marks device of
            Some l \<Rightarrow> (if ts \<le> l then (False, marks) else (True, marks(device \<mapsto> ts)))
          | None \<Rightarrow> (True, marks(device \<mapsto> ts))))"

definition filter_Handle ::
    "'f JsonValues \<Rightarrow> Request \<Rightarrow> Filter \<Rightarrow> Metrics \<Rightarrow> HookAction \<times> Request \<times> Filter \<times> Metrics" where
  "filter_Handle js req f m =
     (if msg_Id (rq_msg req) \<noteq> MsgPut then (HookPass, req, f, m)
      else case parsePut (msg_Data (rq_msg req)) of
        None \<Rightarrow> (HookDrop, req, f, m\<lparr>FramesDroppedMalformed := FramesDroppedMalformed m + 1\<rparr>)
      | Some (key, v) \<Rightarrow>
         (if 0 < maxValueLen f \<and> maxValueLen f < int (length v)
          then (HookDrop, req, f, m\<lparr>FramesDroppedOversized := FramesDroppedOversized m + 1\<rparr>)
          else case (if dropBackward f then check_ts key (lastTS f) else (True, lastTS f)) of
                 (False, _) \<Rightarrow> (HookDrop, req, f, m\<lparr>FramesDroppedNonMonotonic := FramesDroppedNonMonotonic m + 1\<rparr>)
               | (True, marks) \<Rightarrow>
                   (HookPass,
                    (case redact js v (redactFields f) of None \<Rightarrow> req | Some v' \<Rightarrow> SetMsgData (encodePut key v') req),
                    f\<lparr>lastTS := marks\<rparr>, m)))"

section \<open>Predicates\<close>

definition OpNone :: byte where "OpNone = 0"
definition OpGT :: byte where "OpGT = 1"
definition OpGTE :: byte where "OpGTE = 2"
definition OpLT :: byte where "OpLT = 3"
definition OpLTE :: byte where "OpLTE = 4"
definition OpEQ :: byte where "OpEQ = 5"
definition OpNE :: byte where "OpNE = 6"

lemmas op_codes = OpNone_def OpGT_def OpGTE_def OpLT_def OpLTE_def OpEQ_def OpNE_def

definition asFloat :: "'f JsonValues \<Rightarrow> bytes \<Rightarrow> 'f option" where
  "asFloat js raw =
     (case json_number js raw of
        Some f \<Rightarrow> Some f
      | None \<Rightarrow> (case json_string js raw of None \<Rightarrow> None | Some s \<Rightarrow> ParseFloat js s))"

definition asScalar :: "'f JsonValues \<Rightarrow> bytes \<Rightarrow> bytes" where
  "asScalar js raw = (case json_string js raw of Some s \<Rightarrow> s | None \<Rightarrow> raw)"

definition pred_Eval :: "'f JsonValues \<Rightarrow> Predicate \<Rightarrow> bytes \<Rightarrow> bool" where
  "pred_Eval js p v =
     (if pr_Op p = OpNone then True
      else case parse_object js v of
        None \<Rightarrow> False
      | Some obj \<Rightarrow>
         (case obj (pr_Field p) of
            None \<Rightarrow> False
          | Some raw \<Rightarrow>
             (if pr_Op p \<in> {OpGT, OpGTE, OpLT, OpLTE} then
                (case (asFloat js raw, ParseFloat js (pr_Operand p)) of
                   (Some fv, Some ov) \<Rightarrow>
                     (if pr_Op p = OpGT then flt_less js ov fv
                      else if pr_Op p = OpGTE then flt_le js ov fv
                      else if pr_Op p = OpLT then flt_less js fv ov
                      else flt_le js fv ov)
                 | _ \<Rightarrow> False)
              else if pr_Op p = OpEQ then asScalar js raw = pr_Operand p
              else if pr_Op p = OpNE then asScalar js raw \<noteq> pr_Operand p
              else False)))"

section \<open>What the filter lets through\<close>

text \<open>The frames a filter passes, in order: each as it came and as it goes on.\<close>

fun filter_run ::
    "'f JsonValues \<Rightarrow> Request list \<Rightarrow> Filter \<Rightarrow> Metrics \<Rightarrow> (Request \<times> Request) list \<times> Filter \<times> Metrics" where
  "filter_run js [] f m = ([], f, m)"
| "filter_run js (r # rs) f m =
     (case filter_Handle js r f m of
        (act, r', f', m') \<Rightarrow>
          (case filter_run js rs f' m' of
             (out, f'', m'') \<Rightarrow> ((if act = HookPass then (r, r') # out else out), f'', m'')))"

text \<open>The timestamp of a PUT for a device, if its key has one.\<close>

definition put_ts :: "bytes \<Rightarrow> Request \<Rightarrow> int option" where
  "put_ts device r =
     (if msg_Id (rq_msg r) \<noteq> MsgPut then None
      else case parsePut (msg_Data (rq_msg r)) of
             None \<Rightarrow> None
           | Some (k, _) \<Rightarrow> (case parseKey k of Some (d, ts) \<Rightarrow> if d = device then Some ts else None | None \<Rightarrow> None))"

text \<open>One call, seen from one device: the frame passes only above the watermark, and moves it to its own timestamp.\<close>

lemma filter_step_ts:
  assumes "filter_Handle js r f m = (act, r', f', m')" and "dropBackward f"
  shows "dropBackward f'"
    and "act = HookPass \<Longrightarrow> put_ts d r = Some ts \<Longrightarrow> (\<forall>l. lastTS f d = Some l \<longrightarrow> l < ts) \<and> lastTS f' d = Some ts"
    and "act = HookDrop \<or> put_ts d r = None \<Longrightarrow> lastTS f' d = lastTS f d"
  using assms
  by (auto simp: filter_Handle_def put_ts_def check_ts_def split: if_splits option.splits prod.splits bool.splits)

definition device_ts :: "bytes \<Rightarrow> (Request \<times> Request) list \<Rightarrow> int list" where
  "device_ts d out = List.map_filter (\<lambda>p. put_ts d (fst p)) out"

lemma device_ts_simps [simp]:
  "device_ts d [] = []"
  "device_ts d ((r, r') # out) = (case put_ts d r of None \<Rightarrow> device_ts d out | Some ts \<Rightarrow> ts # device_ts d out)"
  by (simp_all add: device_ts_def List.map_filter_def split: option.splits)

lemma filter_run_ts:
  assumes "filter_run js rs f m = (out, f', m')" and "dropBackward f"
  shows "sorted_wrt (<) (device_ts d out) \<and>
    (\<forall>ts \<in> set (device_ts d out). \<forall>l. lastTS f d = Some l \<longrightarrow> l < ts)"
  using assms
proof (induction rs arbitrary: f m out)
  case Nil
  then show ?case by simp
next
  case (Cons r rs)
  obtain act r' f1 m1 where h: "filter_Handle js r f m = (act, r', f1, m1)" by (metis prod_cases4)
  obtain out1 where o: "filter_run js rs f1 m1 = (out1, f', m')" "out = (if act = HookPass then (r, r') # out1 else out1)"
    using Cons.prems(1) h by (auto split: prod.splits)
  note s = filter_step_ts [OF h Cons.prems(2)]
  note ih = Cons.IH [OF o(1) s(1)]
  show ?case
  proof (cases "act = HookPass \<and> put_ts d r \<noteq> None")
    case True
    then obtain ts where ts: "put_ts d r = Some ts" by blast
    note p = s(2) [OF conjunct1 [OF True] ts]
    define xs where "xs = device_ts d out1"
    have eq: "device_ts d out = ts # xs" using True ts o(2) by (simp add: xs_def)
    have "sorted_wrt (<) xs" "\<forall>x \<in> set xs. ts < x" using ih p unfolding xs_def by auto
    then show ?thesis using p unfolding eq by (auto intro: less_trans)
  next
    case False
    then have "device_ts d out = device_ts d out1"
      using o(2) by auto
    moreover have "lastTS f1 d = lastTS f d" using False s(3) by (cases act) auto
    ultimately show ?thesis using ih by simp
  qed
qed

text \<open>Redaction: every listed field the object has comes out as the placeholder, the others as they were.\<close>

lemma redact_loop_result: "redact_loop flds m c = (masked flds m, c \<or> (\<exists>k \<in> set flds. m k \<noteq> None))"
proof (induction flds arbitrary: m c)
  case (Cons a flds)
  show ?case by (auto simp: Cons.IH masked_def fun_eq_iff)
qed (simp add: masked_def)

lemma redact_result:
  assumes "json_ok js" and "parse_object js v = Some obj" and "k \<in> set flds" and "obj k \<noteq> None"
  shows "\<exists>v'. redact js v flds = Some v' \<and> parse_object js v' = Some (masked flds (\<lambda>k. map_option (json_compact js) (obj k)))"
proof -
  obtain v' where v': "print_object js (masked flds obj) = Some v'" using assms(1,2) by (fastforce simp: json_ok_def)
  then have "redact js v flds = Some v'" using assms(2-4) by (auto simp: redact_def redact_loop_result)
  moreover have "parse_object js v' = Some (\<lambda>k. map_option (json_compact js) (masked flds obj k))" using assms(1) v' by (simp add: json_ok_def)
  moreover have "(\<lambda>k. map_option (json_compact js) (masked flds obj k)) = masked flds (\<lambda>k. map_option (json_compact js) (obj k))"
    using assms(1) by (auto simp: json_ok_def masked_def fun_eq_iff)
  ultimately show ?thesis by auto
qed

text \<open>Every frame that passes went through one call of the filter, whose fields never change.\<close>

lemma filter_run_mem:
  assumes "filter_run js rs f m = (out, f', m')" and "(r, r') \<in> set out"
  shows "\<exists>f1 m1 f2 m2. filter_Handle js r f1 m1 = (HookPass, r', f2, m2) \<and> redactFields f1 = redactFields f"
  using assms
proof (induction rs arbitrary: f m out)
  case (Cons x xs)
  obtain act x' f1 m1 where h: "filter_Handle js x f m = (act, x', f1, m1)" by (metis prod_cases4)
  obtain out1 where o: "filter_run js xs f1 m1 = (out1, f', m')" "out = (if act = HookPass then (x, x') # out1 else out1)"
    using Cons.prems(1) h by (auto split: prod.splits)
  have flds: "redactFields f1 = redactFields f"
    using h by (auto simp: filter_Handle_def split: if_splits option.splits prod.splits bool.splits)
  show ?case
  proof (cases "(r, r') \<in> set out1")
    case True
    then show ?thesis using Cons.IH [OF o(1)] flds by metis
  next
    case False
    then show ?thesis using Cons.prems(2) h o(2) by (metis Pair_inject set_ConsD)
  qed
qed simp

lemma filter_Handle_redacts:
  assumes "filter_Handle js r f m = (HookPass, r', f', m')" and "msg_Id (rq_msg r) = MsgPut"
    and "parsePut (msg_Data (rq_msg r)) = Some (key, v)" and "redact js v (redactFields f) = Some v'"
  shows "msg_Data (rq_msg r') = encodePut key v'"
  using assms by (auto simp: filter_Handle_def SetMsgData_def split: if_splits prod.splits bool.splits)

end
