(* ===== verification/Router.thy ===== *)
theory Router
  imports Server Ingest
begin

text \<open>
  \<open>service/router.go\<close> and the dispatch of \<open>network/banNet/msgHandle.go\<close>: from a request to the responses put into
  the connection's buffer. A handler that waits for credit or for a commit has not answered yet (\<open>Blocked\<close>); a
  handler that panics is \<open>None\<close>. The gRPC front end of \<open>test_grpc/grpc_server.go\<close> is at the end.
\<close>

section \<open>Responses\<close>

record Env =
  e_cfg :: MemConfig
  e_rcfg :: RaftConfig
  e_js :: Json
  e_coins :: "nat \<Rightarrow> bool"
  e_wio :: wal_io
  e_rio :: file_io

type_synonym response = "bytes \<times> bytes"

datatype handled = Sent "response list" | Blocked

record App =
  app_kv :: KVServer
  app_filter :: "Filter option"
  app_mets :: Metrics

definition sendErr :: response where
  "sendErr = (MsgRespErr, statusPayload StatusError)"

definition sendOK :: response where
  "sendOK = (MsgRespOK, statusPayload StatusOK)"

definition sendDropped :: response where
  "sendDropped = (MsgRespErr, statusPayload StatusDropped)"

definition env_Write :: "Env \<Rightarrow> KVCommand \<Rightarrow> KVServer \<Rightarrow> (write_outcome \<times> KVServer) option" where
  "env_Write env cmd s = kv_Write (e_cfg env) (e_rcfg env) (e_js env) (e_coins env) (e_wio env) (e_rio env) cmd s"

section \<open>Handlers\<close>

definition handlePut :: "Env \<Rightarrow> bytes \<Rightarrow> App \<Rightarrow> (handled \<times> App) option" where
  "handlePut env d app =
     (if length d < 8 then Some (Sent [], app)
      else let keyLen = get_le (go_slice 0 4 d); valueLen = get_le (go_slice 4 8 d)
           in if length d < 8 + keyLen + valueLen then Some (Sent [], app)
              else let key = go_slice 8 (8 + keyLen) d; v = go_slice (8 + keyLen) (8 + keyLen + valueLen) d; m = app_mets app
                   in (case env_Write env \<lparr>cmdType = ''Put'', cmdKey = key, cmdValue = Some v\<rparr> (app_kv app) of
                         None \<Rightarrow> None
                       | Some (Failed _, s) \<Rightarrow>
                           Some (Sent [sendErr], app\<lparr>app_kv := s, app_mets := m\<lparr>WriteErrors := WriteErrors m + 1\<rparr>\<rparr>)
                       | Some (Done, s) \<Rightarrow> Some (Sent [sendOK], app\<lparr>app_kv := s, app_mets := m\<lparr>Writes := Writes m + 1\<rparr>\<rparr>)
                       | Some (Waits, s) \<Rightarrow> Some (Blocked, app\<lparr>app_kv := s\<rparr>)))"

definition get_response :: "bytes \<Rightarrow> bytes" where
  "get_response v = [word_of_nat (length StatusOK)] @ StatusOK @ put_le 4 (length v) @ v"

definition handleGet :: "bytes \<Rightarrow> App \<Rightarrow> (handled \<times> App) option" where
  "handleGet d app =
     (if length d < 4 then Some (Sent [], app)
      else let keyLen = get_le (go_slice 0 4 d)
           in if length d < 4 + keyLen then Some (Sent [], app)
              else let key = go_slice 4 (4 + keyLen) d; m = app_mets app;
                       app' = app\<lparr>app_mets := m\<lparr>Reads := Reads m + 1\<rparr>\<rparr>
                   in (case kv_Get key (app_kv app) of
                         None \<Rightarrow> None
                       | Some (Inl _, s) \<Rightarrow> Some (Sent [sendErr], app'\<lparr>app_kv := s\<rparr>)
                       | Some (Inr v, s) \<Rightarrow> Some (Sent [(MsgRespOK, get_response v)], app'\<lparr>app_kv := s\<rparr>)))"

definition handleDelete :: "Env \<Rightarrow> bytes \<Rightarrow> App \<Rightarrow> (handled \<times> App) option" where
  "handleDelete env d app =
     (if length d < 4 then Some (Sent [], app)
      else let keyLen = get_le (go_slice 0 4 d)
           in if length d < 4 + keyLen then Some (Sent [], app)
              else let key = go_slice 4 (4 + keyLen) d; m = app_mets app
                   in (case env_Write env \<lparr>cmdType = ''Delete'', cmdKey = key, cmdValue = None\<rparr> (app_kv app) of
                         None \<Rightarrow> None
                       | Some (Failed _, s) \<Rightarrow>
                           Some (Sent [sendErr], app\<lparr>app_kv := s, app_mets := m\<lparr>WriteErrors := WriteErrors m + 1\<rparr>\<rparr>)
                       | Some (Done, s) \<Rightarrow> Some (Sent [sendOK], app\<lparr>app_kv := s, app_mets := m\<lparr>Deletes := Deletes m + 1\<rparr>\<rparr>)
                       | Some (Waits, s) \<Rightarrow> Some (Blocked, app\<lparr>app_kv := s\<rparr>)))"

definition handleScan :: "'f JsonValues \<Rightarrow> bytes \<Rightarrow> App \<Rightarrow> (handled \<times> App) option" where
  "handleScan js d app =
     (case DecodeScanRequest d of
        None \<Rightarrow> Some (Sent [sendErr], app)
      | Some req \<Rightarrow>
         (let m = app_mets app
          in case kv_Scan (sr_Start req) (sr_End req) (pred_Eval js (sr_Pred req)) (app_kv app) of
               None \<Rightarrow> None
             | Some ents \<Rightarrow> Some (Sent [(MsgRespOK, EncodeScanResponse StatusOK ents)], app\<lparr>app_mets := m\<lparr>Scans := Scans m + 1\<rparr>\<rparr>)))"

definition Router_Handle :: "'f JsonValues \<Rightarrow> Env \<Rightarrow> Request \<Rightarrow> App \<Rightarrow> (handled \<times> App) option" where
  "Router_Handle js env req app =
     (let msgID = msg_Id (rq_msg req); d = msg_Data (rq_msg req)
      in if msgID = MsgPut then handlePut env d app
         else if msgID = MsgGet then handleGet d app
         else if msgID = MsgDelete then handleDelete env d app
         else if msgID = MsgScan then handleScan js d app
         else Some (Sent [], app))"

definition Router_PreHandle :: "'f JsonValues \<Rightarrow> Request \<Rightarrow> App \<Rightarrow> HookAction \<times> response list \<times> Request \<times> App" where
  "Router_PreHandle js req app =
     (case app_filter app of
        None \<Rightarrow> (HookPass, [], req, app)
      | Some f \<Rightarrow>
         (case filter_Handle js req f (app_mets app) of
            (act, req', f', m') \<Rightarrow>
              (act, if act = HookDrop then [sendDropped] else [], req', app\<lparr>app_filter := Some f', app_mets := m'\<rparr>)))"

section \<open>Dispatch\<close>

text \<open>A router, as the interface \<open>IRouter\<close> has it; the server's own router has no post-handler.\<close>

record 'a IRouter =
  PreHandle :: "Request \<Rightarrow> 'a \<Rightarrow> HookAction \<times> response list \<times> Request \<times> 'a"
  Handle :: "Request \<Rightarrow> 'a \<Rightarrow> (handled \<times> 'a) option"
  PostHandle :: "Request \<Rightarrow> 'a \<Rightarrow> 'a"

definition AddRouter :: "bytes \<Rightarrow> 'a IRouter \<Rightarrow> (bytes \<rightharpoonup> 'a IRouter) \<Rightarrow> bytes \<rightharpoonup> 'a IRouter" where
  "AddRouter msgID r arip = (if arip msgID \<noteq> None then arip else arip(msgID \<mapsto> r))"

definition DoMsgHandle :: "(bytes \<rightharpoonup> 'a IRouter) \<Rightarrow> Request \<Rightarrow> 'a \<Rightarrow> (handled \<times> 'a) option" where
  "DoMsgHandle arip req s =
     (case arip (msg_Id (rq_msg req)) of
        None \<Rightarrow> Some (Sent [], s)
      | Some handler \<Rightarrow>
         (case PreHandle handler req s of
            (act, out, req', s1) \<Rightarrow>
              (if act = HookDrop then Some (Sent out, s1)
               else case Handle handler req' s1 of
                 None \<Rightarrow> None
               | Some (Blocked, s2) \<Rightarrow> Some (Blocked, s2)
               | Some (Sent out', s2) \<Rightarrow> Some (Sent (out @ out'), PostHandle handler req' s2))))"

definition NewRouter :: "'f JsonValues \<Rightarrow> Env \<Rightarrow> App IRouter" where
  "NewRouter js env = \<lparr>PreHandle = Router_PreHandle js, Handle = Router_Handle js env, PostHandle = (\<lambda>_ s. s)\<rparr>"

text \<open>\<open>Server/server.go\<close>: the routes and the filter of the server's \<open>main\<close>.\<close>

definition server_routes :: "'f JsonValues \<Rightarrow> Env \<Rightarrow> bytes \<rightharpoonup> App IRouter" where
  "server_routes js env =
     AddRouter MsgScan (NewRouter js env) (AddRouter MsgDelete (NewRouter js env)
       (AddRouter MsgGet (NewRouter js env) (AddRouter MsgPut (NewRouter js env) Map.empty)))"

definition server_filter :: Filter where
  "server_filter = NewFilter [ascii ''gps'', ascii ''user_id''] 0 True"

definition server_app :: "KVServer \<Rightarrow> App" where
  "server_app kv =
     \<lparr>app_kv = kv, app_filter = Some server_filter,
      app_mets = \<lparr>FramesDroppedMalformed = 0, FramesDroppedOversized = 0, FramesDroppedNonMonotonic = 0, Writes = 0, Reads = 0,
                  Scans = 0, Deletes = 0, WriteErrors = 0, BackpressureStalls = 0\<rparr>\<rparr>"

section \<open>The gRPC front end\<close>

definition grpc_write :: "RaftConfig \<Rightarrow> Json \<Rightarrow> file_io \<Rightarrow> KVCommand \<Rightarrow> KVServer \<Rightarrow> (bool option \<times> KVServer) option" where
  "grpc_write rcfg js io cmd s =
     (case kv_AppendEntry rcfg js io cmd s of
        None \<Rightarrow> None
      | Some (None, s') \<Rightarrow> Some (Some False, s')
      | Some (Some (index, _), s') \<Rightarrow> Some (if committed index s' then Some True else None, s'))"

text \<open>The value of a put is \<open>None\<close> where the decoded message has a \<open>nil\<close> slice.\<close>

definition grpc_Put :: "RaftConfig \<Rightarrow> Json \<Rightarrow> file_io \<Rightarrow> bytes \<Rightarrow> bytes option \<Rightarrow> KVServer \<Rightarrow> (bool option \<times> KVServer) option" where
  "grpc_Put rcfg js io key v s = grpc_write rcfg js io \<lparr>cmdType = ''Put'', cmdKey = key, cmdValue = v\<rparr> s"

definition grpc_Delete :: "RaftConfig \<Rightarrow> Json \<Rightarrow> file_io \<Rightarrow> bytes \<Rightarrow> KVServer \<Rightarrow> (bool option \<times> KVServer) option" where
  "grpc_Delete rcfg js io key s = grpc_write rcfg js io \<lparr>cmdType = ''Delete'', cmdKey = key, cmdValue = None\<rparr> s"

definition grpc_Get :: "bytes \<Rightarrow> KVServer \<Rightarrow> ((bool \<times> bytes) \<times> KVServer) option" where
  "grpc_Get key s =
     (case kv_Get key s of
        None \<Rightarrow> None
      | Some (Inl _, s') \<Rightarrow> Some ((False, []), s')
      | Some (Inr v, s') \<Rightarrow> Some ((True, v), s'))"

section \<open>One response for each request\<close>

definition key_request_ok :: "bytes \<Rightarrow> bool" where
  "key_request_ok d \<longleftrightarrow> 4 \<le> length d \<and> 4 + get_le (go_slice 0 4 d) \<le> length d"

definition put_request_ok :: "bytes \<Rightarrow> bool" where
  "put_request_ok d \<longleftrightarrow> parsePut d \<noteq> None"

lemma handlePut_responses:
  "handlePut env d app = Some (Sent out, app') \<Longrightarrow> length out = (if put_request_ok d then 1 else 0)"
  by (auto simp: handlePut_def put_request_ok_def parsePut_def Let_def split: if_splits option.splits write_outcome.splits)

lemma handleGet_responses:
  "handleGet d app = Some (Sent out, app') \<Longrightarrow> length out = (if key_request_ok d then 1 else 0)"
  by (auto simp: handleGet_def key_request_ok_def Let_def split: if_splits option.splits sum.splits)

lemma handleDelete_responses:
  "handleDelete env d app = Some (Sent out, app') \<Longrightarrow> length out = (if key_request_ok d then 1 else 0)"
  by (auto simp: handleDelete_def key_request_ok_def Let_def split: if_splits option.splits write_outcome.splits)

lemma handleScan_responses: "handleScan js d app = Some (Sent out, app') \<Longrightarrow> length out = 1"
  by (auto simp: handleScan_def Let_def split: option.splits)

text \<open>A frame the filter has rewritten can be parsed again, whatever the length of the new value.\<close>

lemma put_request_encodePut: "length key < 2 ^ 32 \<Longrightarrow> put_request_ok (encodePut key v)"
proof -
  assume k: "length key < 2 ^ 32"
  let ?d = "encodePut key v"
  have "get_le (go_slice 0 4 ?d) = length key"
    using k by (simp add: go_slice_def encodePut_def get_put_le)
  moreover have "get_le (go_slice 4 8 ?d) = length v mod 2 ^ 32"
    by (simp add: go_slice_def encodePut_def get_le_def put_le_def get_put_be_mod)
  moreover have "length v mod 2 ^ 32 \<le> length v" by simp
  ultimately show ?thesis by (simp add: put_request_ok_def parsePut_def Let_def encodePut_def)
qed

lemma parsePut_key_length: "parsePut d = Some (key, v) \<Longrightarrow> length key < 2 ^ 32"
proof -
  assume "parsePut d = Some (key, v)"
  then have "8 \<le> length d" "key = go_slice 8 (8 + get_le (go_slice 0 4 d)) d"
    by (auto simp: parsePut_def Let_def split: if_splits)
  then have "length key \<le> get_le (go_slice 0 4 d)" "length (go_slice 0 4 d) = 4" by (auto simp: go_slice_def)
  then show ?thesis using get_le_bound [of "go_slice 0 4 d"] by simp
qed

lemma filter_Handle_pass:
  assumes "filter_Handle js req f m = (HookPass, req', f', m')"
  shows "msg_Id (rq_msg req') = msg_Id (rq_msg req)"
    and "msg_Id (rq_msg req) = MsgPut \<Longrightarrow> put_request_ok (msg_Data (rq_msg req'))"
    and "msg_Id (rq_msg req) \<noteq> MsgPut \<Longrightarrow> req' = req"
  using assms put_request_encodePut [OF parsePut_key_length]
  by (auto simp: filter_Handle_def SetMsgData_def put_request_ok_def split: if_splits option.splits prod.splits bool.splits)

definition served_ids :: "bytes set" where
  "served_ids = {MsgPut, MsgGet, MsgDelete, MsgScan}"

lemma server_routes_ids: "server_routes js env i = (if i \<in> served_ids then Some (NewRouter js env) else None)"
  by (auto simp: server_routes_def AddRouter_def served_ids_def)

text \<open>What each branch of the dispatch answers, for the server's router.\<close>

lemma DoMsgHandle_cases:
  assumes "DoMsgHandle (server_routes js env) req app = Some (Sent out, app')" and "msg_Id (rq_msg req) \<in> served_ids"
    and "Router_PreHandle js req app = (act, pre, req', app1)"
  shows "if act = HookDrop then out = pre else \<exists>out'. Router_Handle js env req' app1 = Some (Sent out', app') \<and> out = pre @ out'"
  using assms by (auto simp: DoMsgHandle_def server_routes_ids NewRouter_def split: option.splits prod.splits handled.splits if_splits)

lemma response_count:
  assumes "DoMsgHandle (server_routes js env) req app = Some (Sent out, app')" and "app_filter app \<noteq> None"
  shows "length out = (if msg_Id (rq_msg req) \<notin> served_ids \<or>
      msg_Id (rq_msg req) \<in> {MsgGet, MsgDelete} \<and> \<not> key_request_ok (msg_Data (rq_msg req)) then 0 else 1)"
proof (cases "msg_Id (rq_msg req) \<in> served_ids")
  case False
  then show ?thesis using assms(1) by (auto simp: DoMsgHandle_def server_routes_ids)
next
  case served: True
  obtain f where f: "app_filter app = Some f" using assms(2) by blast
  obtain act req' f' m' where h: "filter_Handle js req f (app_mets app) = (act, req', f', m')" by (metis prod_cases4)
  let ?app1 = "app\<lparr>app_filter := Some f', app_mets := m'\<rparr>"
  have pre: "Router_PreHandle js req app = (act, if act = HookDrop then [sendDropped] else [], req', ?app1)"
    by (simp add: Router_PreHandle_def f h)
  note c = DoMsgHandle_cases [OF assms(1) served pre]
  show ?thesis
  proof (cases act)
    case HookDrop
    then have "msg_Id (rq_msg req) = MsgPut"
      using h by (auto simp: filter_Handle_def split: if_splits)
    then show ?thesis using c HookDrop served by auto
  next
    case HookPass
    note p = filter_Handle_pass [OF h [unfolded HookPass]]
    have out: "Router_Handle js env req' ?app1 = Some (Sent out, app')" using c HookPass by simp
    let ?d = "msg_Data (rq_msg req')"
    consider (put) "msg_Id (rq_msg req) = MsgPut" | (get) "msg_Id (rq_msg req) = MsgGet"
      | (del) "msg_Id (rq_msg req) = MsgDelete" | (scan) "msg_Id (rq_msg req) = MsgScan"
      using served by (auto simp: served_ids_def)
    then show ?thesis
    proof cases
      case put
      then have "handlePut env ?d ?app1 = Some (Sent out, app')" using out p(1) by (simp add: Router_Handle_def)
      from handlePut_responses [OF this] show ?thesis using p(2) put served by simp
    next
      case get
      then have "handleGet ?d ?app1 = Some (Sent out, app')" using out p(1) by (auto simp: Router_Handle_def)
      from handleGet_responses [OF this] show ?thesis using p(3) get served by auto
    next
      case del
      then have "handleDelete env ?d ?app1 = Some (Sent out, app')"
        using out p(1) by (auto simp: Router_Handle_def)
      from handleDelete_responses [OF this] show ?thesis using p(3) del served by auto
    next
      case scan
      then have "handleScan js ?d ?app1 = Some (Sent out, app')"
        using out p(1) by (auto simp: Router_Handle_def)
      from handleScan_responses [OF this] show ?thesis using scan served by auto
    qed
  qed
qed

end
