(* ===== verification/Client.thy ===== *)
theory Client
  imports Ingest
begin

text \<open>
  The client: \<open>client/client.go\<close>, the commands of \<open>client/interactive.go\<close> and the command line of \<open>client/main.go\<close>.
  The server at the other end is a function from the bytes sent to the bytes received until the deadline or the
  end of the connection, over its own state. \<open>strings.Fields\<close> and \<open>strings.ToLower\<close> are arguments.
\<close>

section \<open>Requests\<close>

type_synonym 's peer = "bytes \<Rightarrow> 's \<Rightarrow> bytes \<times> 's"

definition readResponse :: "32 word \<Rightarrow> bytes \<Rightarrow> nat \<Rightarrow> client_error + bytes \<times> bytes \<times> nat" where
  "readResponse maxPackageSize f pos =
     (case ReadFull f pos GetHeadLen of
        Inl e \<Rightarrow> Inl (NetErr (ReadErr e))
      | Inr (header, p1) \<Rightarrow>
         (case UnPack maxPackageSize header of
            Inl e \<Rightarrow> Inl (NetErr e)
          | Inr tempMsg \<Rightarrow>
             (case ReadFull f p1 (unat (IDLen tempMsg)) of
                Inl e \<Rightarrow> Inl (NetErr (ReadErr e))
              | Inr (msgID, p2) \<Rightarrow>
                 (case ReadFull f p2 (unat (DataLen tempMsg)) of
                    Inl e \<Rightarrow> Inl (NetErr (ReadErr e))
                  | Inr (d, p3) \<Rightarrow> Inr (msgID, d, p3)))))"

text \<open>\<open>send\<close> and \<open>readResponse\<close>: the payload of the answer.\<close>

definition client_call :: "32 word \<Rightarrow> 's peer \<Rightarrow> bytes \<Rightarrow> bytes \<Rightarrow> 's \<Rightarrow> (client_error + bytes) \<times> 's" where
  "client_call mx peer i d s =
     (case Pack (NewMessage i d) of
        Inl e \<Rightarrow> (Inl (NetErr e), s)
      | Inr packet \<Rightarrow>
         (case peer packet s of
            (f, s') \<Rightarrow> ((case readResponse mx f 0 of Inl e \<Rightarrow> Inl e | Inr (_, payload, _) \<Rightarrow> Inr payload), s')))"

definition check_status :: "client_error + bytes \<Rightarrow> client_error + bytes" where
  "check_status r =
     (case r of
        Inl e \<Rightarrow> Inl e
      | Inr payload \<Rightarrow>
         (case parseStatus payload of
            Inl e \<Rightarrow> Inl e
          | Inr (status, rest) \<Rightarrow> (if status \<noteq> StatusOK then Inl ServerError else Inr rest)))"

definition SendPut :: "32 word \<Rightarrow> 's peer \<Rightarrow> bytes \<Rightarrow> bytes \<Rightarrow> 's \<Rightarrow> (client_error + unit) \<times> 's" where
  "SendPut mx peer key v s = apfst (map_sum id (\<lambda>_. ()) \<circ> check_status) (client_call mx peer MsgPut (NewKVData key v) s)"

definition value_of_rest :: "bytes \<Rightarrow> client_error + bytes" where
  "value_of_rest rest =
     (if length rest < 4 then Inl InvalidFormat
      else let valueLen = get_le (go_slice 0 4 rest)
           in if length rest < 4 + valueLen then Inl Incomplete else Inr (go_slice 4 (4 + valueLen) rest))"

definition SendGet :: "32 word \<Rightarrow> 's peer \<Rightarrow> bytes \<Rightarrow> 's \<Rightarrow> (client_error + bytes) \<times> 's" where
  "SendGet mx peer key s =
     apfst (\<lambda>r. case check_status r of Inl e \<Rightarrow> Inl e | Inr rest \<Rightarrow> value_of_rest rest)
       (client_call mx peer MsgGet (key_payload key) s)"

definition SendDelete :: "32 word \<Rightarrow> 's peer \<Rightarrow> bytes \<Rightarrow> 's \<Rightarrow> (client_error + unit) \<times> 's" where
  "SendDelete mx peer key s = apfst (map_sum id (\<lambda>_. ()) \<circ> check_status) (client_call mx peer MsgDelete (key_payload key) s)"

definition scan_answer :: "client_error + bytes \<Rightarrow> client_error + ScanEntry list" where
  "scan_answer r =
     (case r of
        Inl e \<Rightarrow> Inl e
      | Inr payload \<Rightarrow>
         (case DecodeScanResponse payload of
            Inl e \<Rightarrow> Inl e
          | Inr (status, ents) \<Rightarrow> (if status \<noteq> StatusOK then Inl ServerError else Inr ents)))"

definition SendScan :: "32 word \<Rightarrow> 's peer \<Rightarrow> ScanRequest \<Rightarrow> 's \<Rightarrow> (client_error + ScanEntry list) \<times> 's" where
  "SendScan mx peer req s = apfst scan_answer (client_call mx peer MsgScan (EncodeScanRequest req) s)"

section \<open>The interactive client\<close>

text \<open>What a command line does: a request, a message to the user only, or nothing.\<close>

datatype client_action = DoPut bytes bytes | DoGet bytes | DoDelete bytes | DoScan ScanRequest | Usage bytes | Help | Unknown bytes |
  Ignored | Quit

definition dashToEmpty :: "bytes \<Rightarrow> bytes" where
  "dashToEmpty s = (if s = ascii ''-'' then [] else s)"

definition parseOp :: "bytes \<Rightarrow> byte option" where
  "parseOp s =
     (if s = ascii ''>'' then Some OpGT
      else if s = ascii ''>='' then Some OpGTE
      else if s = ascii ''<'' then Some OpLT
      else if s = ascii ''<='' then Some OpLTE
      else if s = ascii ''=='' then Some OpEQ
      else if s = ascii ''!='' then Some OpNE
      else None)"

fun join_space :: "bytes list \<Rightarrow> bytes" where
  "join_space [] = []"
| "join_space [p] = p"
| "join_space (p # q # ps) = p @ ascii '' '' @ join_space (q # ps)"

definition ic_handlePut :: "bytes list \<Rightarrow> client_action" where
  "ic_handlePut parts = (if length parts < 3 then Usage (ascii ''put'') else DoPut (parts ! 1) (join_space (drop 2 parts)))"

definition ic_handleGet :: "bytes list \<Rightarrow> client_action" where
  "ic_handleGet parts = (if length parts < 2 then Usage (ascii ''get'') else DoGet (parts ! 1))"

definition ic_handleDelete :: "bytes list \<Rightarrow> client_action" where
  "ic_handleDelete parts = (if length parts < 2 then Usage (ascii ''delete'') else DoDelete (parts ! 1))"

definition ic_handleScan :: "bytes list \<Rightarrow> client_action" where
  "ic_handleScan parts =
     (if length parts < 3 then Usage (ascii ''scan'')
      else let req = (\<lambda>p. \<lparr>sr_Start = dashToEmpty (parts ! 1), sr_End = dashToEmpty (parts ! 2), sr_Pred = p\<rparr>)
           in if 6 \<le> length parts then
                (case parseOp (parts ! 4) of
                   None \<Rightarrow> Usage (parts ! 4)
                 | Some op \<Rightarrow> DoScan (req \<lparr>pr_Field = parts ! 3, pr_Op = op, pr_Operand = join_space (drop 5 parts)\<rparr>))
              else if 3 < length parts then Usage (ascii ''scan'')
              else DoScan (req \<lparr>pr_Field = [], pr_Op = OpNone, pr_Operand = []\<rparr>))"

definition executeCommand :: "(bytes \<Rightarrow> bytes list) \<Rightarrow> (bytes \<Rightarrow> bytes) \<Rightarrow> bytes \<Rightarrow> client_action" where
  "executeCommand flds lower line =
     (let parts = flds line
      in if parts = [] then Ignored
         else let cmd = lower (parts ! 0)
              in if cmd = ascii ''put'' then ic_handlePut parts
                 else if cmd = ascii ''get'' then ic_handleGet parts
                 else if cmd = ascii ''delete'' then ic_handleDelete parts
                 else if cmd = ascii ''scan'' then ic_handleScan parts
                 else if cmd = ascii ''help'' then Help
                 else Unknown cmd)"

text \<open>The loop of \<open>Run\<close> over the lines of the input, trimmed: the actions up to the end of the input or a quit.\<close>

fun ic_Run :: "(bytes \<Rightarrow> bytes list) \<Rightarrow> (bytes \<Rightarrow> bytes) \<Rightarrow> bytes list \<Rightarrow> client_action list" where
  "ic_Run flds lower [] = []"
| "ic_Run flds lower (line # lines) =
     (if line = [] then ic_Run flds lower lines
      else if lower line = ascii ''quit'' \<or> lower line = ascii ''exit'' then [Quit]
      else executeCommand flds lower line # ic_Run flds lower lines)"

section \<open>The command line\<close>

datatype client_mode = Interactive bytes | CommandLine client_action

definition runCommandLineMode :: "bytes list \<Rightarrow> client_action" where
  "runCommandLineMode args =
     (if length args < 2 then Usage []
      else let cmd = args ! 1
           in if cmd = ascii ''put'' then (if length args < 4 then Usage cmd else DoPut (args ! 2) (args ! 3))
              else if cmd = ascii ''get'' then (if length args < 3 then Usage cmd else DoGet (args ! 2))
              else if cmd = ascii ''delete'' then (if length args < 3 then Usage cmd else DoDelete (args ! 2))
              else Usage [])"

definition client_main :: "bytes list \<Rightarrow> client_mode" where
  "client_main args =
     (if 2 \<le> length args then CommandLine (runCommandLineMode args)
      else Interactive (if 2 \<le> length args then args ! 1 else ascii ''localhost:8080''))"

section \<open>Reading a response\<close>

text \<open>The client reads a frame as the server's reader does.\<close>

lemma readResponse_frame:
  "readResponse mx f pos =
     (case read_frame mx f pos of Inl e \<Rightarrow> Inl (NetErr e) | Inr (m, p) \<Rightarrow> Inr (msg_Id m, msg_Data m, p))"
  by (simp add: readResponse_def read_frame_def split: sum.splits prod.splits)

lemma client_call_frame:
  assumes "frame_fits mx (i, d)" and "peer (frame (i, d)) s = (frame (j, payload) @ rest, s')" and "frame_fits mx' (j, payload)"
  shows "client_call mx' peer i d s = (Inr payload, s')"
proof -
  have "seg (frame (j, payload) @ rest) 0 (frame (j, payload))" by (rule segI [of _ "[]"]) simp_all
  from read_frame_seg [OF this assms(3)]
  have "readResponse mx' (frame (j, payload) @ rest) 0 = Inr (j, payload, length (frame (j, payload)))"
    by (simp add: readResponse_frame received_def)
  then show ?thesis using Pack_frame [OF assms(1)] assms(2) by (simp add: client_call_def)
qed

lemma check_status_ok: "check_status (Inr (statusPayload StatusOK @ rest)) = Inr rest"
  using parseStatus_payload [of StatusOK rest] by (simp add: check_status_def)

lemma check_status_other: "length st < 256 \<Longrightarrow> st \<noteq> StatusOK \<Longrightarrow> check_status (Inr (statusPayload st @ rest)) = Inl ServerError"
  using parseStatus_payload [of st rest] by (simp add: check_status_def)

lemma value_of_rest_encoded:
  assumes "length v < 2 ^ 32"
  shows "value_of_rest (put_le 4 (length v) @ v) = Inr v"
  using assms by (simp add: value_of_rest_def go_slice_def Let_def get_put_le)

end
