(* ===== verification/EndToEnd.thy ===== *)
theory EndToEnd
  imports Standalone Router Client
begin

text \<open>
  The path of a request through all layers: the client's frame, the server's reader, the ingest filter, the router,
  the write-ahead log and the memtable, and the response back to the client. One connection, whose requests are
  handled in order, and a standalone server.
\<close>

section \<open>The server as the client's peer\<close>

definition pack_response :: "response \<Rightarrow> bytes" where
  "pack_response r = (case Pack (NewMessage (fst r) (snd r)) of Inl _ \<Rightarrow> [] | Inr g \<Rightarrow> g)"

text \<open>A blocked handler holds up the requests behind it; a panic ends the server.\<close>

fun serve_msgs :: "(bytes \<rightharpoonup> 'a IRouter) \<Rightarrow> 32 word \<Rightarrow> Message list \<Rightarrow> 'a \<Rightarrow> (bytes \<times> 'a) option" where
  "serve_msgs arip cid [] s = Some ([], s)"
| "serve_msgs arip cid (m # ms) s =
     (case DoMsgHandle arip \<lparr>rq_msg = m, rq_conn = cid\<rparr> s of
        None \<Rightarrow> None
      | Some (Blocked, s') \<Rightarrow> Some ([], s')
      | Some (Sent out, s') \<Rightarrow> map_option (apfst ((@) (concat (map pack_response out)))) (serve_msgs arip cid ms s'))"

definition server_peer :: "'f JsonValues \<Rightarrow> Env \<Rightarrow> 32 word \<Rightarrow> 32 word \<Rightarrow> App peer" where
  "server_peer js env mx cid f app =
     (case serve_msgs (server_routes js env) cid (fst (StartReader mx f 0)) app of None \<Rightarrow> ([], app) | Some r \<Rightarrow> r)"

lemma pack_response_frame: "frame_fits mx r \<Longrightarrow> pack_response r = frame r"
  using Pack_frame [of mx "fst r" "snd r"] by (simp add: pack_response_def)

lemma server_peer_one:
  assumes "frame_fits mx (i, d)" and "frame_fits mx r"
    and "DoMsgHandle (server_routes js env) \<lparr>rq_msg = received (i, d), rq_conn = cid\<rparr> app = Some (Sent [r], app')"
  shows "server_peer js env mx cid (frame (i, d)) app = (frame r, app')"
proof -
  obtain e where "StartReader mx (frame (i, d)) 0 = ([received (i, d)], ReadErr e)"
    using StartReader_frames [of "frame (i, d)" "[]" "[(i, d)]" "[]" mx] assms(1) by auto
  then show ?thesis using assms(3) pack_response_frame [OF assms(2)] by (simp add: server_peer_def)
qed

lemma client_call_server:
  assumes "frame_fits mx (i, d)" and "frame_fits mx r"
    and "DoMsgHandle (server_routes js env) \<lparr>rq_msg = received (i, d), rq_conn = cid\<rparr> app = Some (Sent [r], app')"
  shows "client_call mx (server_peer js env mx cid) i d app = (Inr (snd r), app')"
  using client_call_frame [of mx i d "server_peer js env mx cid" app "fst r" "snd r" "[]" app' mx] server_peer_one [OF assms] assms(1,2)
  by simp

section \<open>A put\<close>

definition filter_accepts :: "'f JsonValues \<Rightarrow> Filter \<Rightarrow> bytes \<Rightarrow> bytes \<Rightarrow> bool" where
  "filter_accepts js f key v \<longleftrightarrow> \<not> (0 < maxValueLen f \<and> maxValueLen f < int (length v)) \<and>
     (dropBackward f \<longrightarrow> fst (check_ts key (lastTS f))) \<and> redact js v (redactFields f) = None"

lemma received_simps [simp]: "msg_Id (received (i, d)) = i" "msg_Data (received (i, d)) = d"
  by (simp_all add: received_def)

lemma filter_Handle_accepts:
  assumes "filter_accepts js f key v" and "length key < 2 ^ 32" and "length v < 2 ^ 32"
    and "req = \<lparr>rq_msg = received (MsgPut, NewKVData key v), rq_conn = cid\<rparr>"
  shows "\<exists>f'. filter_Handle js req f m = (HookPass, req, f', m)"
  using assms parsePut_encodePut [of key v "[]"]
  by (cases "check_ts key (lastTS f)") (auto simp: filter_Handle_def filter_accepts_def encodePut_NewKVData [symmetric] split: bool.splits)

definition put_cmd :: "bytes \<Rightarrow> bytes \<Rightarrow> KVCommand" where
  "put_cmd key v = \<lparr>cmdType = ''Put'', cmdKey = key, cmdValue = Some v\<rparr>"

lemma put_cmd_ok: "entry_fits (key, Some v) \<Longrightarrow> cmd_ok (put_cmd key v)"
  by (auto simp: cmd_ok_def put_cmd_def rec_ok_def cmd_rec_def cmd_write_def rec_fits_def nil_bytes_def entry_fits_def tombstoneValLen_def
      as_read_def)

lemma env_Write_put:
  assumes "kv_raft s = None" and "kv_wal s = Some w" and "wal_file w = Some file" and "e_wio env = WalOk"
    and "mem_ok (e_cfg env) (storage s) tss" and "entry_fits (key, Some v)" and "credit_room (cost key (Some v)) (storage s)"
  shows "\<exists>m'. env_Write env (put_cmd key v) s =
      Some (Done, s\<lparr>kv_wal := Some (w\<lparr>wal_file := Some (file @ enc_rec (cmd_rec (put_cmd key v)))\<rparr>), storage := m'\<rparr>) \<and>
    mem_ok (e_cfg env) m' tss \<and> raw_view m' tss = (raw_view (storage s) tss)(key \<mapsto> Some v)"
proof -
  let ?c = "put_cmd key v"
  note c = put_cmd_ok [OF assms(6)]
  have "mem_ok (e_cfg env) (storage s) tss \<and> credit_room (cost key (Some v) + 0) (storage s)" using assms(5,7) by simp
  from engine.put_law [OF this _ assms(6), of "e_coins env"]
  obtain m' where m': "engine_Put (e_cfg env) (e_coins env) key (Some v) (storage s) = Some (Done, m')"
      "mem_ok (e_cfg env) m' tss" "raw_view m' tss = (raw_view (storage s) tss)(key \<mapsto> Some v)"
    by auto
  have "run_command (e_cfg env) (e_coins env) ?c (storage s) = Some (Done, m')"
    using m'(1) by (simp add: run_command_def put_cmd_def)
  then show ?thesis
    using m' assms(1,2,4) log_command_ok [OF c assms(3)]
    by (auto simp: env_Write_def kv_Write_def writeStandalone_def store_command_def put_cmd_def)
qed

lemma handlePut_done:
  assumes "length key < 2 ^ 32" and "length v < 2 ^ 32"
    and "env_Write env (put_cmd key v) (app_kv app) = Some (Done, s)"
  shows "\<exists>m. handlePut env (NewKVData key v) app = Some (Sent [sendOK], app\<lparr>app_kv := s, app_mets := m\<rparr>)"
proof -
  have p: "parsePut (NewKVData key v) = Some (key, v)" using parsePut_encodePut [of key v "[]"] assms(1,2) by (simp add: encodePut_NewKVData)
  let ?d = "NewKVData key v"
  have "\<not> length ?d < 8" "\<not> length ?d < 8 + get_le (go_slice 0 4 ?d) + get_le (go_slice 4 8 ?d)"
      "go_slice 8 (8 + get_le (go_slice 0 4 ?d)) ?d = key"
      "go_slice (8 + get_le (go_slice 0 4 ?d)) (8 + get_le (go_slice 0 4 ?d) + get_le (go_slice 4 8 ?d)) ?d = v"
    using p by (simp_all add: parsePut_def Let_def split: if_splits)
  then show ?thesis using assms(3) by (intro exI [of _ "(app_mets app)\<lparr>Writes := Writes (app_mets app) + 1\<rparr>"]) (simp add: handlePut_def Let_def put_cmd_def)
qed

lemma DoMsgHandle_pass:
  assumes "app_filter app = Some f" and "filter_Handle js req f (app_mets app) = (HookPass, req, f', m')"
    and "msg_Id (rq_msg req) \<in> served_ids"
    and "Router_Handle js env req (app\<lparr>app_filter := Some f', app_mets := m'\<rparr>) = Some (Sent out, app')"
  shows "DoMsgHandle (server_routes js env) req app = Some (Sent out, app')"
  using assms by (simp add: DoMsgHandle_def server_routes_ids NewRouter_def Router_PreHandle_def)

section \<open>A get\<close>

lemma key_payload_fields:
  assumes "length key < 2 ^ 32"
  shows "get_le (go_slice 0 4 (key_payload key)) = length key" and "go_slice 4 (4 + length key) (key_payload key) = key"
    and "length (key_payload key) = 4 + length key"
  using assms by (simp_all add: key_payload_def ByteBuilder_def go_slice_def get_put_le)

definition get_answer :: "bytes option \<Rightarrow> response" where
  "get_answer r = (case r of None \<Rightarrow> sendErr | Some v \<Rightarrow> (MsgRespOK, get_response v))"

lemma handleGet_answer:
  assumes "mem_ok cfg (storage (app_kv app)) tss" and "length key < 2 ^ 32"
  shows "\<exists>app'. handleGet (key_payload key) app = Some (Sent [get_answer (visible (storage (app_kv app)) tss key)], app')"
  using kv_Get_ok [OF assms(1), of key] key_payload_fields [OF assms(2)]
  by (cases "visible (storage (app_kv app)) tss key") (auto simp: handleGet_def Let_def get_answer_def)

lemma DoMsgHandle_get:
  assumes "app_filter app = Some f" and "mem_ok cfg (storage (app_kv app)) tss" and "length key < 2 ^ 32"
  shows "\<exists>app'. DoMsgHandle (server_routes js env) \<lparr>rq_msg = received (MsgGet, key_payload key), rq_conn = cid\<rparr> app =
     Some (Sent [get_answer (visible (storage (app_kv app)) tss key)], app')"
proof -
  let ?req = "\<lparr>rq_msg = received (MsgGet, key_payload key), rq_conn = cid\<rparr>"
  have f: "filter_Handle js ?req f (app_mets app) = (HookPass, ?req, f, app_mets app)"
    by (simp add: filter_Handle_def)
  obtain app' where "handleGet (key_payload key) (app\<lparr>app_filter := Some f, app_mets := app_mets app\<rparr>) =
      Some (Sent [get_answer (visible (storage (app_kv app)) tss key)], app')"
    using handleGet_answer [of cfg "app\<lparr>app_filter := Some f, app_mets := app_mets app\<rparr>" tss key] assms(2,3) by auto
  then have "Router_Handle js env ?req (app\<lparr>app_filter := Some f, app_mets := app_mets app\<rparr>) =
      Some (Sent [get_answer (visible (storage (app_kv app)) tss key)], app')"
    by (simp add: Router_Handle_def)
  from DoMsgHandle_pass [OF assms(1) f _ this] show ?thesis by (auto simp: served_ids_def)
qed

text \<open>What the client makes of the answer.\<close>

definition get_result :: "bytes option \<Rightarrow> client_error + bytes" where
  "get_result r = (case r of None \<Rightarrow> Inl ServerError | Some v \<Rightarrow> Inr v)"

lemma get_response_status: "get_response v = statusPayload StatusOK @ put_le 4 (length v) @ v"
  by (simp add: get_response_def statusPayload_def)

lemma answer_result:
  assumes "\<forall>v. r = Some v \<longrightarrow> length v < 2 ^ 32"
  shows "(case check_status (Inr (snd (get_answer r))) of Inl e \<Rightarrow> Inl e | Inr rest \<Rightarrow> value_of_rest rest) = get_result r"
proof (cases r)
  case None
  have "check_status (Inr (statusPayload StatusError @ [])) = Inl ServerError"
    by (rule check_status_other) simp_all
  then show ?thesis using None by (simp add: get_answer_def sendErr_def get_result_def)
next
  case (Some v)
  then show ?thesis
    using assms check_status_ok [of "put_le 4 (length v) @ v"] value_of_rest_encoded [of v]
    by (simp add: get_answer_def get_response_status get_result_def)
qed

lemma frame_fits_status:
  assumes "mx = 0 \<or> 64 \<le> unat mx"
  shows "frame_fits mx sendErr" and "frame_fits mx sendOK"
  using assms by (auto simp: frame_fits_def sendErr_def sendOK_def statusPayload_def)

lemma SendGet_server:
  assumes "app_filter app = Some f" and "mem_ok cfg (storage (app_kv app)) tss" and "mx = 0 \<or> 64 \<le> unat mx"
    and "frame_fits mx (MsgGet, key_payload key)"
    and "\<forall>v. visible (storage (app_kv app)) tss key = Some v \<longrightarrow> frame_fits mx (MsgRespOK, get_response v)"
  shows "fst (SendGet mx (server_peer js env mx cid) key app) = get_result (visible (storage (app_kv app)) tss key)"
proof -
  let ?r = "visible (storage (app_kv app)) tss key"
  have key: "length key < 2 ^ 32" using assms(4) by (simp add: frame_fits_def key_payload_def ByteBuilder_def)
  have v: "\<forall>v. ?r = Some v \<longrightarrow> length v < 2 ^ 32" using assms(5) by (auto simp: frame_fits_def get_response_def)
  have fits: "frame_fits mx (get_answer ?r)"
    using frame_fits_status(1) [OF assms(3)] assms(5) by (cases ?r) (auto simp: get_answer_def)
  obtain app' where "DoMsgHandle (server_routes js env) \<lparr>rq_msg = received (MsgGet, key_payload key), rq_conn = cid\<rparr> app =
      Some (Sent [get_answer ?r], app')"
    using DoMsgHandle_get [OF assms(1,2) key] by blast
  from client_call_server [OF assms(4) fits this]
  have "client_call mx (server_peer js env mx cid) MsgGet (key_payload key) app = (Inr (snd (get_answer ?r)), app')" .
  then show ?thesis using answer_result [OF v] by (simp add: SendGet_def)
qed

section \<open>A put, then a get\<close>

lemma SendPut_server:
  assumes "app_filter app = Some f" and "filter_accepts js f key v" and "mx = 0 \<or> 64 \<le> unat mx"
    and "frame_fits mx (MsgPut, NewKVData key v)" and "e_wio env = WalOk"
    and "kv_raft (app_kv app) = None" and "kv_wal (app_kv app) = Some w" and "wal_file w = Some file"
    and "mem_ok (e_cfg env) (storage (app_kv app)) tss" and "entry_fits (key, Some v)"
    and "credit_room (cost key (Some v)) (storage (app_kv app))"
  shows "\<exists>app' f'. SendPut mx (server_peer js env mx cid) key v app = (Inr (), app') \<and> app_filter app' = Some f' \<and>
    mem_ok (e_cfg env) (storage (app_kv app')) tss \<and>
    visible (storage (app_kv app')) tss = (visible (storage (app_kv app)) tss)(key \<mapsto> v) \<and>
    map_option wal_file (kv_wal (app_kv app')) = Some (Some (file @ enc_rec (cmd_rec (put_cmd key v))))"
proof -
  let ?req = "\<lparr>rq_msg = received (MsgPut, NewKVData key v), rq_conn = cid\<rparr>"
  have len: "length key < 2 ^ 32" "length v < 2 ^ 32" using assms(4) by (auto simp: frame_fits_def NewKVData_def ByteBuilder_def)
  obtain f' where f': "filter_Handle js ?req f (app_mets app) = (HookPass, ?req, f', app_mets app)"
    using filter_Handle_accepts [OF assms(2) len refl] by blast
  let ?app1 = "app\<lparr>app_filter := Some f', app_mets := app_mets app\<rparr>"
  let ?w = "w\<lparr>wal_file := Some (file @ enc_rec (cmd_rec (put_cmd key v)))\<rparr>"
  obtain m' where m': "env_Write env (put_cmd key v) (app_kv ?app1) = Some (Done, (app_kv app)\<lparr>kv_wal := Some ?w, storage := m'\<rparr>)"
      "mem_ok (e_cfg env) m' tss" "raw_view m' tss = (raw_view (storage (app_kv app)) tss)(key \<mapsto> Some v)"
    using env_Write_put [OF assms(6,7,8,5,9,10,11)] by auto
  obtain mt where "handlePut env (NewKVData key v) ?app1 =
      Some (Sent [sendOK], ?app1\<lparr>app_kv := (app_kv app)\<lparr>kv_wal := Some ?w, storage := m'\<rparr>, app_mets := mt\<rparr>)"
    using handlePut_done [OF len m'(1)] by blast
  then have "Router_Handle js env ?req ?app1 =
      Some (Sent [sendOK], ?app1\<lparr>app_kv := (app_kv app)\<lparr>kv_wal := Some ?w, storage := m'\<rparr>, app_mets := mt\<rparr>)"
    by (simp add: Router_Handle_def)
  from DoMsgHandle_pass [OF assms(1) f' _ this]
  have d: "DoMsgHandle (server_routes js env) ?req app =
      Some (Sent [sendOK], ?app1\<lparr>app_kv := (app_kv app)\<lparr>kv_wal := Some ?w, storage := m'\<rparr>, app_mets := mt\<rparr>)"
    by (simp add: served_ids_def)
  let ?app' = "?app1\<lparr>app_kv := (app_kv app)\<lparr>kv_wal := Some ?w, storage := m'\<rparr>, app_mets := mt\<rparr>"
  from client_call_server [OF assms(4) frame_fits_status(2) [OF assms(3)] d]
  have "client_call mx (server_peer js env mx cid) MsgPut (NewKVData key v) app = (Inr (statusPayload StatusOK @ []), ?app')"
    by (simp add: sendOK_def)
  then have "SendPut mx (server_peer js env mx cid) key v app = (Inr (), ?app')"
    using check_status_ok [of "[]"] by (simp add: SendPut_def)
  moreover have "visible m' tss = (visible (storage (app_kv app)) tss)(key \<mapsto> v)"
    by (auto simp: visible_def fun_eq_iff m'(3))
  ultimately show ?thesis using m'(2) by (intro exI [of _ ?app'] exI [of _ f']) simp
qed

end
