(* ===== verification/Replicated.thy ===== *)
theory Replicated
  imports Standalone Router ClusterCorrect
begin

text \<open>
  The store behind Raft: the entries of commands as the apply loop of \<open>service/fsm.go\<close> reads them, the gRPC client of
  \<open>test_grpc/grpc_client.go\<close> in front of the server, and the health monitor of \<open>service/ha.go\<close>.
\<close>

section \<open>The apply loop\<close>

definition cmd_entry :: "Json \<Rightarrow> int \<Rightarrow> int \<Rightarrow> KVCommand \<Rightarrow> RaftEntry" where
  "cmd_entry js i t c = \<lparr>Index = i, EntryTerm = t, Command = marshal js c, IsSnapshot = False\<rparr>"

definition json_reads :: "Json \<Rightarrow> KVCommand \<Rightarrow> bool" where
  "json_reads js c \<longleftrightarrow> unmarshal js (marshal js c) = Some c"

lemma kv_Run_put_all:
  assumes "\<forall>(i, t, c) \<in> set xs. cmd_ok c \<and> json_reads js c"
    and "put_all (engine_Put cfg) (\<lambda>n. coins n 0) n (map (\<lambda>(i, t, c). cmd_write c) xs) (storage s) = Some (Done, m')"
  shows "kv_Run fm order cfg js coins now io n (map (\<lambda>(i, t, c). cmd_entry js i t c) xs) s = Some (Done, s\<lparr>storage := m'\<rparr>)"
  using assms
proof (induction xs arbitrary: n s)
  case (Cons x xs)
  obtain i t c where x: "x = (i, t, c)" by (cases x)
  have c: "cmd_ok c" "unmarshal js (marshal js c) = Some c" using Cons.prems(1) by (auto simp: x json_reads_def)
  obtain m1 where m1: "engine_Put cfg (coins n 0) (fst (cmd_write c)) (snd (cmd_write c)) (storage s) = Some (Done, m1)"
      "put_all (engine_Put cfg) (\<lambda>n. coins n 0) (n + 1) (map (\<lambda>(i, t, c). cmd_write c) xs) m1 = Some (Done, m')"
    using Cons.prems(2) by (cases "cmd_write c") (auto simp: x split: option.splits prod.splits write_outcome.splits)
  have "kv_Apply fm order cfg js (coins n) (now n) io (cmd_entry js i t c) s = Some (Done, s\<lparr>storage := m1\<rparr>)"
    using c m1(1) by (simp add: kv_Apply_def cmd_entry_def run_command_put [OF c(1)])
  then show ?case using Cons.IH [of "n + 1" "s\<lparr>storage := m1\<rparr>"] Cons.prems(1) m1(2) by (simp add: x)
qed simp

lemma kv_Run_commands:
  assumes "mem_ok cfg (storage s) tss" and "\<forall>(i, t, c) \<in> set xs. cmd_ok c \<and> json_reads js c"
    and "credit_room (write_cost (map (\<lambda>(i, t, c). cmd_write c) xs)) (storage s)"
  shows "\<exists>s'. kv_Run fm order cfg js coins now io n (map (\<lambda>(i, t, c). cmd_entry js i t c) xs) s = Some (Done, s') \<and>
    mem_ok cfg (storage s') tss \<and> raw_view (storage s') tss = raw_view (storage s) tss ++ written (map (\<lambda>(i, t, c). cmd_write c) xs)"
proof -
  have "\<forall>e \<in> set (map (\<lambda>(i, t, c). cmd_write c) xs). entry_fits e" using assms(2) by (auto simp: cmd_ok_def)
  moreover have "mem_ok cfg (storage s) tss \<and> credit_room (write_cost (map (\<lambda>(i, t, c). cmd_write c) xs)) (storage s)"
    using assms(1,3) by simp
  ultimately obtain m' where m': "put_all (engine_Put cfg) (\<lambda>n. coins n 0) n (map (\<lambda>(i, t, c). cmd_write c) xs) (storage s) = Some (Done, m')"
      "mem_ok cfg m' tss" "raw_view m' tss = raw_view (storage s) tss ++ written (map (\<lambda>(i, t, c). cmd_write c) xs)"
    using engine.put_all_law [of cfg "storage s" tss "map (\<lambda>(i, t, c). cmd_write c) xs" "\<lambda>n. coins n 0" n] by blast
  from kv_Run_put_all [of xs js cfg coins n s m', OF assms(2) m'(1)] m'(2,3) show ?thesis by (intro exI [of _ "s\<lparr>storage := m'\<rparr>"]) simp
qed

text \<open>Entries whose commands are the encoded \<open>cs\<close>.\<close>

lemma command_entries:
  assumes "map Command es = map (marshal js) cs" and "\<forall>e \<in> set es. \<not> IsSnapshot e"
  shows "\<exists>xs. es = map (\<lambda>(i, t, c). cmd_entry js i t c) xs \<and> map (\<lambda>(i, t, c). c) xs = cs"
  using assms
proof (induction es arbitrary: cs)
  case (Cons e es)
  then obtain c cs' where c: "cs = c # cs'" "Command e = marshal js c" by (cases cs) auto
  with Cons obtain xs where "es = map (\<lambda>(i, t, c). cmd_entry js i t c) xs" "map (\<lambda>(i, t, c). c) xs = cs'" by auto
  moreover have "e = cmd_entry js (Index e) (EntryTerm e) c" using Cons.prems(2) c(2) by (cases e) (simp add: cmd_entry_def)
  ultimately show ?case using c(1) by (intro exI [of _ "(Index e, EntryTerm e, c) # xs"]) simp
qed simp

lemma kv_Run_entries:
  assumes "mem_ok cfg (storage s) tss" and "map Command es = map (marshal js) cs" and "\<forall>e \<in> set es. \<not> IsSnapshot e"
    and "\<forall>c \<in> set cs. cmd_ok c \<and> json_reads js c" and "credit_room (write_cost (map cmd_write cs)) (storage s)"
  shows "\<exists>s'. kv_Run fm order cfg js coins now io n es s = Some (Done, s') \<and> mem_ok cfg (storage s') tss \<and>
     raw_view (storage s') tss = raw_view (storage s) tss ++ written (map cmd_write cs)"
proof -
  obtain xs where xs: "es = map (\<lambda>(i, t, c). cmd_entry js i t c) xs" "map (\<lambda>(i, t, c). c) xs = cs"
    using command_entries [OF assms(2,3)] by blast
  have w: "map (\<lambda>(i, t, c). cmd_write c) xs = map cmd_write cs" using xs(2) by (auto simp: split_def)
  have "cmd_ok c \<and> json_reads js c" if "(i, t, c) \<in> set xs" for i t c using assms(4) imageI [OF that, of "\<lambda>(i, t, c). c"] xs(2) by auto
  then have "\<forall>(i, t, c) \<in> set xs. cmd_ok c \<and> json_reads js c" by blast
  from kv_Run_commands [OF assms(1) this, of fm order coins now io n] assms(5) show ?thesis unfolding w xs(1) by blast
qed

section \<open>The gRPC client\<close>

text \<open>
  A call over a link: without a connection the server does nothing; a lost reply, or a handler that is still waiting when the
  deadline passes, is an error to the client although the server may have acted. \<open>wire\<close> is what the decoded message holds of a byte
  field (\<open>None\<close> for a \<open>nil\<close> slice).
\<close>

datatype grpc_error = RpcFailed | ServerFailure | GrpcNotFound

definition gc_write :: "link \<Rightarrow> (KVServer \<Rightarrow> (bool option \<times> KVServer) option) \<Rightarrow> KVServer \<Rightarrow> ((grpc_error + unit) \<times> KVServer) option" where
  "gc_write lk handler s =
     (if lk = NoDial then Some (Inl RpcFailed, s)
      else map_option (\<lambda>(resp, s').
        (if lk = NoReply then Inl RpcFailed
         else case resp of None \<Rightarrow> Inl RpcFailed | Some success \<Rightarrow> if success then Inr () else Inl ServerFailure, s')) (handler s))"

definition gc_Put ::
    "link \<Rightarrow> (bytes \<Rightarrow> bytes option) \<Rightarrow> RaftConfig \<Rightarrow> Json \<Rightarrow> file_io \<Rightarrow> bytes \<Rightarrow> bytes \<Rightarrow> KVServer \<Rightarrow> ((grpc_error + unit) \<times> KVServer) option" where
  "gc_Put lk wire rcfg js io key v s = gc_write lk (grpc_Put rcfg js io key (wire v)) s"

definition gc_Delete ::
    "link \<Rightarrow> RaftConfig \<Rightarrow> Json \<Rightarrow> file_io \<Rightarrow> bytes \<Rightarrow> KVServer \<Rightarrow> ((grpc_error + unit) \<times> KVServer) option" where
  "gc_Delete lk rcfg js io key s = gc_write lk (grpc_Delete rcfg js io key) s"

definition gc_Get :: "link \<Rightarrow> bytes \<Rightarrow> KVServer \<Rightarrow> ((grpc_error + bytes) \<times> KVServer) option" where
  "gc_Get lk key s =
     (if lk = NoDial then Some (Inl RpcFailed, s)
      else map_option (\<lambda>((success, v), s').
        (if lk = NoReply then Inl RpcFailed else if success then Inr v else Inl GrpcNotFound, s')) (grpc_Get key s))"

section \<open>The health monitor\<close>

record HA =
  isHealthy :: bool
  lastCheck :: int

definition NewHA :: "int \<Rightarrow> HA" where
  "NewHA now = \<lparr>isHealthy = True, lastCheck = now\<rparr>"

text \<open>\<open>checkHealth\<close> asks the node for its state, and looks no further at it.\<close>

definition checkHealth :: "KVServer \<Rightarrow> int \<Rightarrow> HA \<Rightarrow> HA" where
  "checkHealth kv now h = h\<lparr>isHealthy := True, lastCheck := now\<rparr>"

fun healthCheckLoop :: "(KVServer \<times> int) list \<Rightarrow> HA \<Rightarrow> HA" where
  "healthCheckLoop [] h = h"
| "healthCheckLoop ((kv, now) # ticks) h = healthCheckLoop ticks (checkHealth kv now h)"

lemma never_unhealthy: "isHealthy (healthCheckLoop ticks (NewHA now))"
proof -
  have "isHealthy h \<Longrightarrow> isHealthy (healthCheckLoop ticks h)" for h
    by (induction ticks h rule: healthCheckLoop.induct) (simp_all add: checkHealth_def)
  then show ?thesis by (simp add: NewHA_def)
qed

end
