(* ===== verification/ServerClaims.thy ===== *)
theory ServerClaims
  imports StorageClaims EndToEnd Replicated
begin

text \<open>
  The properties of the server: durability of the standalone mode, the replicated state machine, scans, and the path
  of a request from the client through the server and back.
\<close>

definition coins0 :: "nat \<Rightarrow> nat \<Rightarrow> bool" where
  "coins0 = (\<lambda>_ _. False)"

definition m0 :: MemTable where
  "m0 = NewMemTable cfg0 Map.empty"

lemma m0_ok: "mem_ok cfg0 m0 []"
  by (simp add: m0_def mem_ok_new)

lemma m0_room: "n \<le> 10 \<Longrightarrow> credit_room n m0"
  by (simp add: credit_room_def m0_def NewMemTable_def New_def cfg0_def)

lemma m0_view [simp]: "raw_view m0 [] = Map.empty"
  using contents_newSkipList [of 4] by (simp add: raw_view_def m0_def NewMemTable_def sl_map_def cfg0_def)

lemma put_small: "length k < 100 \<Longrightarrow> length v < 100 \<Longrightarrow> cmd_ok (put_cmd k v)"
  using fits_small [of k "Some v"] by (intro put_cmd_ok) (simp add: vlen_def)

section \<open>Standalone mode\<close>





lemma store_put:
  assumes "mem_ok cfg (storage s) tss" and "credit_room (cost k (Some v) + rest) (storage s)" and "0 \<le> rest" and "entry_fits (k, Some v)"
  shows "\<exists>m'. store_command cfg coins (put_cmd k v) s = Some (Done, s\<lparr>storage := m'\<rparr>) \<and> mem_ok cfg m' tss \<and> credit_room rest m' \<and>
    raw_view m' tss = (raw_view (storage s) tss)(k \<mapsto> Some v)"
proof -
  have "mem_ok cfg (storage s) tss \<and> credit_room (cost k (Some v) + rest) (storage s)" using assms(1,2) by simp
  from engine.put_law [OF this assms(3,4), of coins] show ?thesis by (auto simp: store_command_def run_command_def put_cmd_def)
qed

text \<open>
  C33. The record of a write is appended, and the memtable changed, under different locks (\<open>fsm.go\<close>, lines 101 to
  104): two concurrent puts of one key can end with the first one's value readable and acknowledged while the
  second one's value is what a restart brings back.
\<close>

theorem wal_order_diverges:
  assumes "mem_ok cfg m tss" and "entry_fits (k, Some v1)" and "entry_fits (k, Some v2)" and "v1 \<noteq> []" and "v2 \<noteq> []"
    and "credit_room (cost k (Some v1) + cost k (Some v2)) m"
  shows "\<exists>s w fl s' x y. srun cfg m s \<and> unstored s = [] \<and> logged s = [put_cmd k v1, put_cmd k v2] \<and>
    kv_Get k (srv s) = Some (Inr v1, x) \<and> kv_wal (srv s) = Some w \<and> wal_file w = Some fl \<and>
    NewKVServer_standalone cfg coins (Some fl) m = Some (Inr (), s') \<and> kv_Get k s' = Some (Inr v2, y)"
proof -
  let ?c1 = "put_cmd k v1" and ?c2 = "put_cmd k v2"
  have ok: "cmd_ok ?c1" "cmd_ok ?c2" using assms(2,3) put_cmd_ok by blast+
  define W where "W = (\<lambda>cs. \<lparr>wal_file = Some (concat (map (enc_rec \<circ> cmd_rec) cs))\<rparr>)"
  define S where "S = (\<lambda>m ls us ss. \<lparr>srv = \<lparr>storage = m, kv_wal = Some (W ls), kv_raft = None\<rparr>, logged = ls, unstored = us, stored = ss\<rparr>)"
  have w: "log_command WalOk ?c1 (W []) = (Inr (), W [?c1])" "log_command WalOk ?c2 (W [?c1]) = (Inr (), W [?c1, ?c2])"
    using log_command_ok [OF ok(1), of "W []"] log_command_ok [OF ok(2), of "W [?c1]"] by (simp_all add: W_def)
  have r0: "srun cfg m (S m [] [] [])" using srun_init [of cfg m] by (simp add: fresh_server_def S_def W_def NewWAL_def)
  have r1: "srun cfg m (S m [?c1] [?c1] [])"
    using srun_step [OF r0 sstep.log [OF ok(1) _ w(1)]] by (simp add: S_def)
  have r2: "srun cfg m (S m [?c1, ?c2] [?c1, ?c2] [])"
    using srun_step [OF r1 sstep.log [OF ok(2) _ w(2)]] by (simp add: S_def)
  obtain ma where ma: "store_command cfg (\<lambda>_. False) ?c2 (srv (S m [?c1, ?c2] [?c1, ?c2] [])) = Some (Done, srv (S ma [?c1, ?c2] [] []))"
      "mem_ok cfg ma tss" "credit_room (cost k (Some v1)) ma" "raw_view ma tss = (raw_view m tss)(k \<mapsto> Some v2)"
    using store_put [of cfg "srv (S m [?c1, ?c2] [?c1, ?c2] [])" tss k v2 "cost k (Some v1)" "\<lambda>_. False"] assms(1,3,6)
    by (auto simp: S_def add.commute)
  have r3: "srun cfg m (S ma [?c1, ?c2] [?c1] [?c2])"
    using srun_step [OF r2 sstep.store [OF _ ma(1), of "[?c1]" "[]"]] by (simp add: S_def)
  obtain mb where mb: "store_command cfg (\<lambda>_. False) ?c1 (srv (S ma [?c1, ?c2] [?c1] [?c2])) = Some (Done, srv (S mb [?c1, ?c2] [] []))"
      "mem_ok cfg mb tss" "raw_view mb tss = (raw_view ma tss)(k \<mapsto> Some v1)"
    using store_put [of cfg "srv (S ma [?c1, ?c2] [?c1] [?c2])" tss k v1 0 "\<lambda>_. False"] ma(2,3) assms(2)
    by (auto simp: S_def)
  have r4: "srun cfg m (S mb [?c1, ?c2] [] [?c2, ?c1])"
    using srun_step [OF r3 sstep.store [OF _ mb(1), of "[]" "[]"]] by (simp add: S_def)
  have rep: "replayed [?c1, ?c2] = [(k, Some v1), (k, Some v2)]"
    using assms(4,5) by (simp add: cmd_rec_def put_cmd_def as_read_def nil_bytes_def)
  have "\<forall>c \<in> set [?c1, ?c2]. cmd_ok c" "credit_room (write_cost (replayed [?c1, ?c2])) m"
    using ok assms(6) unfolding rep by simp_all
  from restart_log [OF this(1) torn_Nil assms(1) this(2), of coins] obtain s' where
    s': "NewKVServer_standalone cfg coins (Some (concat (map (enc_rec \<circ> cmd_rec) [?c1, ?c2]))) m = Some (Inr (), s')"
      "mem_ok cfg (storage s') tss" "raw_view (storage s') tss = raw_view m tss ++ written (replayed [?c1, ?c2])"
    by auto
  have "visible (storage s') tss k = Some v2" unfolding visible_def s'(3) rep by (simp add: written_def)
  moreover have "visible mb tss k = Some v1" by (simp add: visible_def mb(3))
  ultimately show ?thesis
    using r4 s'(1) kv_Get_ok [OF s'(2), of k] kv_Get_ok [of cfg "srv (S mb [?c1, ?c2] [] [?c2, ?c1])" tss k] mb(2)
    by (intro exI [of _ "S mb [?c1, ?c2] [] [?c2, ?c1]"]) (auto simp: S_def W_def)
qed

theorem wal_order_diverges_witness:
  "\<exists>s s' x y. srun cfg0 m0 s \<and> unstored s = [] \<and> kv_Get ka (srv s) = Some (Inr [1], x) \<and> kv_Get ka s' = Some (Inr [2], y)"
proof -
  have "credit_room (cost ka (Some [1]) + cost ka (Some [2])) m0" using m0_room [of 4] by (simp add: vlen_def)
  from wal_order_diverges [OF m0_ok fits_small fits_small _ _ this, of coins0] show ?thesis by (fastforce simp: vlen_def)
qed

section \<open>Replication\<close>

text \<open>
  C9. Applying the entries of a list of commands, as they come out of Raft, performs the commands: the view is
  overridden by their writes in order. So replicas that start from the same view and apply the same entries agree.
\<close>

theorem raft_apply:
  assumes "mem_ok cfg (storage s) tss" and "\<forall>(i, t, c) \<in> set xs. cmd_ok c \<and> json_reads js c"
    and "credit_room (write_cost (map (\<lambda>(i, t, c). cmd_write c) xs)) (storage s)"
  shows "\<exists>s'. kv_Run fm order cfg js coins now io n (map (\<lambda>(i, t, c). cmd_entry js i t c) xs) s = Some (Done, s') \<and>
    mem_ok cfg (storage s') tss \<and> raw_view (storage s') tss = raw_view (storage s) tss ++ written (map (\<lambda>(i, t, c). cmd_write c) xs)"
  by (rule kv_Run_commands [OF assms])

definition js0 :: Json where
  "js0 = \<lparr>marshal = (\<lambda>c. (if cmdType c = ''Put'' then 1 else 0) # (if cmdValue c = None then 0 else 1) # put_be 4 (length (cmdKey c)) @
            cmdKey c @ nil_bytes (cmdValue c)),
     unmarshal = (\<lambda>bs. if length bs < 6 then None
        else let body = tl (tl bs); k = get_be (take 4 body) in
          Some \<lparr>cmdType = (if bs ! 0 = 1 then ''Put'' else ''Delete''), cmdKey = take k (drop 4 body),
                cmdValue = (if bs ! 1 = 0 then None else Some (drop k (drop 4 body)))\<rparr>)\<rparr>"

lemma json_reads_js0: "cmdType c \<in> {''Put'', ''Delete''} \<Longrightarrow> length (cmdKey c) < 2 ^ 32 \<Longrightarrow> json_reads js0 c"
  by (cases c; cases "cmdValue c") (auto simp: json_reads_def js0_def get_put_be nil_bytes_def Let_def)

theorem raft_apply_witness:
  "\<exists>s'. kv_Run fm0 order0 cfg0 js0 (\<lambda>_ _ _. False) (\<lambda>_. 0) io_good 0
       [cmd_entry js0 1 1 (put_cmd ka [1]), cmd_entry js0 2 1 (put_cmd ka [2])] \<lparr>storage = m0, kv_wal = None, kv_raft = None\<rparr> = Some (Done, s') \<and>
     raw_view (storage s') [] ka = Some (Some [2])"
proof -
  let ?xs = "[(1, 1, put_cmd ka [1]), (2, 1, put_cmd ka [2])]"
  have "\<forall>(i, t, c) \<in> set ?xs. cmd_ok c \<and> json_reads js0 c"
    using put_small [of ka "[1]"] put_small [of ka "[2]"] json_reads_js0 by (simp add: put_cmd_def)
  moreover have "credit_room (write_cost (map (\<lambda>(i, t, c). cmd_write c) ?xs)) m0"
    using m0_room [of 4] by (simp add: cmd_write_def put_cmd_def vlen_def)
  ultimately show ?thesis
    using raft_apply [of cfg0 "\<lparr>storage = m0, kv_wal = None, kv_raft = None\<rparr>" "[]" ?xs js0 fm0 order0 "\<lambda>_ _ _. False" "\<lambda>_. 0" io_good 0] m0_ok
    by (auto simp: written_def cmd_write_def put_cmd_def)
qed

section \<open>Scans\<close>

definition scan_matches :: "bytes \<Rightarrow> bytes \<Rightarrow> (bytes \<Rightarrow> bool) \<Rightarrow> LogEntry list \<Rightarrow> (bytes \<times> bytes) list" where
  "scan_matches lo hi p es = List.map_filter
     (\<lambda>(k, v). case v of None \<Rightarrow> None | Some w \<Rightarrow> if lo \<le> k \<and> (hi = [] \<or> k \<le> hi) \<and> p w then Some (k, w) else None) es"

lemma scan_matches_simps [simp]:
  "scan_matches lo hi p [] = []"
  "scan_matches lo hi p ((k, v) # es) = (case v of None \<Rightarrow> [] | Some w \<Rightarrow>
     if lo \<le> k \<and> (hi = [] \<or> k \<le> hi) \<and> p w then [(k, w)] else []) @ scan_matches lo hi p es"
  by (auto simp: scan_matches_def List.map_filter_def split: option.splits)

lemma scan_collect_step:
  "p w \<Longrightarrow> scan_collect p k w out = (\<not> maxScanResults \<le> Suc (length out), out @ [(k, w)])"
  "\<not> p w \<Longrightarrow> scan_collect p k w out = (True, out)"
  by (simp_all add: scan_collect_def Let_def)

lemma scan_matches_above: "hi \<noteq> [] \<Longrightarrow> \<forall>e \<in> set es. hi < fst e \<Longrightarrow> scan_matches lo hi p es = []"
  by (induction es) (auto split: option.splits)

lemma feed_collect:
  assumes "sorted_keys es" and "length out < maxScanResults"
  shows "feed hi (scan_collect p) (filter (\<lambda>e. lo \<le> fst e) es) out = out @ take (maxScanResults - length out) (scan_matches lo hi p es)"
  using assms
proof (induction es arbitrary: out)
  case (Cons e es)
  obtain k v where e: "e = (k, v)" by (cases e)
  have IH: "feed hi (scan_collect p) (filter (\<lambda>e. lo \<le> fst e) es) o' = o' @ take (maxScanResults - length o') (scan_matches lo hi p es)"
    if "length o' < maxScanResults" for o'
    using Cons.IH that Cons.prems(1) by simp
  show ?case
  proof (cases "hi \<noteq> [] \<and> hi < k")
    case True
    then have "\<forall>x \<in> set es. hi < fst x" using Cons.prems(1) by (auto simp: e intro: less_trans)
    then have "scan_matches lo hi p es = []" using True scan_matches_above by blast
    moreover have "feed hi (scan_collect p) (filter (\<lambda>e. lo \<le> fst e) es) out = out" using IH [OF Cons.prems(2)] calculation by simp
    ultimately show ?thesis using True by (auto simp: e split: option.splits)
  next
    case False
    then have hi: "hi = [] \<or> k \<le> hi" by auto
    show ?thesis
    proof (cases "\<exists>w. v = Some w \<and> lo \<le> k \<and> p w")
      case True
      then obtain w where w: "v = Some w" "lo \<le> k" "p w" by blast
      let ?out = "out @ [(k, w)]"
      have "Suc (length out) \<le> maxScanResults" using Cons.prems(2) by simp
      then show ?thesis
        using w hi False Cons.prems(2) IH [of ?out]
        by (cases "maxScanResults = Suc (length out)") (auto simp: e scan_collect_step Suc_diff_Suc [symmetric])
    next
      case no: False
      then show ?thesis using hi False IH [OF Cons.prems(2)] by (cases v) (auto simp: e scan_collect_step)
    qed
  qed
qed simp

text \<open>
  C19. A scan returns, in ascending order and at most ten thousand of them, the live entries of the two memory tables
  (the active one winning) with a key in the closed range, an empty bound being no bound, whose value satisfies the
  predicate. Entries that were already flushed are not part of it.
\<close>

theorem scan_results:
  assumes "mem_ok cfg (storage s) tss"
  shows "kv_Scan lo hi p s =
    Some (take maxScanResults (scan_matches lo hi p (merge_entries [sl_entries (dirty (storage s)), sl_entries (active (storage s))])))"
  using feed_collect [OF sorted_merge_entries, of "[]" hi p lo "[sl_entries (dirty (storage s)), sl_entries (active (storage s))]"]
  unfolding kv_Scan_def ScanRange_ok [OF assms] by (simp add: maxScanResults_def)

theorem scan_results_witness:
  "\<exists>m. raw_view m [] = [ka \<mapsto> Some [1]] \<and>
     kv_Scan [] kb (\<lambda>_. True) \<lparr>storage = m, kv_wal = None, kv_raft = None\<rparr> = Some [(ka, [1])]"
proof -
  obtain m where m: "mem_ok cfg0 m []" "raw_view m [] = [ka \<mapsto> Some [1]]" "dirty m = None"
      "sl_entries (active m) = [(ka, Some [1])]"
    using demo_write by (elim exE conjE)
  from scan_results [of cfg0 "\<lparr>storage = m, kv_wal = None, kv_raft = None\<rparr>" "[]" "[]" kb "\<lambda>_. True"] m
  show ?thesis by (intro exI [of _ m]) (simp add: merge_entries_def maxScanResults_def)
qed

section \<open>From client to store and back\<close>

text \<open>
  C3. A client's put over a connection to a standalone server: framed, read, passed by the filter, logged, stored and
  acknowledged; from then on a get of any key through the same path returns what the map with the new value says.
\<close>

theorem client_put_get:
  assumes "app_filter app = Some f" and "filter_accepts js f key v" and "mx = 0 \<or> 64 \<le> unat mx"
    and "frame_fits mx (MsgPut, NewKVData key v)" and "e_wio env = WalOk"
    and "kv_raft (app_kv app) = None" and "kv_wal (app_kv app) = Some w" and "wal_file w = Some fl"
    and "mem_ok (e_cfg env) (storage (app_kv app)) tss" and "entry_fits (key, Some v)"
    and "credit_room (cost key (Some v)) (storage (app_kv app))"
    and "frame_fits mx (MsgGet, key_payload key')"
    and "\<forall>u. ((visible (storage (app_kv app)) tss)(key \<mapsto> v)) key' = Some u \<longrightarrow> frame_fits mx (MsgRespOK, get_response u)"
  shows "\<exists>app'. SendPut mx (server_peer js env mx cid) key v app = (Inr (), app') \<and>
    map_option wal_file (kv_wal (app_kv app')) = Some (Some (fl @ enc_record WALOpPut key (Some v))) \<and>
    fst (SendGet mx (server_peer js env mx cid) key' app') = get_result (((visible (storage (app_kv app)) tss)(key \<mapsto> v)) key')"
proof -
  obtain app' f' where a: "SendPut mx (server_peer js env mx cid) key v app = (Inr (), app')" "app_filter app' = Some f'"
      "mem_ok (e_cfg env) (storage (app_kv app')) tss"
      "visible (storage (app_kv app')) tss = (visible (storage (app_kv app)) tss)(key \<mapsto> v)"
      "map_option wal_file (kv_wal (app_kv app')) = Some (Some (fl @ enc_rec (cmd_rec (put_cmd key v))))"
    using SendPut_server [OF assms(1-11)] by blast
  have "\<forall>u. visible (storage (app_kv app')) tss key' = Some u \<longrightarrow> frame_fits mx (MsgRespOK, get_response u)"
    using assms(13) unfolding a(4) .
  from SendGet_server [OF a(2,3) assms(3,12) this, of js env cid]
  have "fst (SendGet mx (server_peer js env mx cid) key' app') = get_result (((visible (storage (app_kv app)) tss)(key \<mapsto> v)) key')"
    unfolding a(4) .
  then show ?thesis using a(1,5) by (auto simp: cmd_rec_def put_cmd_def)
qed

definition jv0 :: "int JsonValues" where
  "jv0 = \<lparr>parse_object = (\<lambda>v. case v of [] \<Rightarrow> None | b # bs \<Rightarrow> if b = 123 then Some [ascii ''gps'' \<mapsto> bs] else None),
     print_object = (\<lambda>m. case m (ascii ''gps'') of None \<Rightarrow> None | Some x \<Rightarrow> if m = [ascii ''gps'' \<mapsto> x] then Some (123 # x) else None),
     json_compact = id, json_number = (\<lambda>_. None), json_string = (\<lambda>_. None), ParseFloat = ParseInt, flt_less = (<), flt_le = (\<le>)\<rparr>"

definition env0 :: Env where
  "env0 = \<lparr>e_cfg = cfg0, e_rcfg = \<lparr>RaftSnapshotThreshold = 1000, RaftSnapshotKeepEntries = 100\<rparr>, e_js = js0, e_coins = (\<lambda>_. False),
     e_wio = WalOk, e_rio = FileOk\<rparr>"

definition app0 :: App where
  "app0 = server_app \<lparr>storage = m0, kv_wal = Some (NewWAL None), kv_raft = None\<rparr>"

lemma app0_simps [simp]:
  "app_filter app0 = Some server_filter" "app_kv app0 = \<lparr>storage = m0, kv_wal = Some (NewWAL None), kv_raft = None\<rparr>"
  by (simp_all add: app0_def server_app_def)

theorem client_put_get_witness:
  "\<exists>app'. SendPut 1024 (server_peer jv0 env0 1024 7) ka [1] app0 = (Inr (), app') \<and>
     fst (SendGet 1024 (server_peer jv0 env0 1024 7) ka app') = Inr [1]"
proof -
  have f: "filter_accepts jv0 server_filter ka [1]"
    by (simp add: filter_accepts_def server_filter_def NewFilter_def check_ts_def parseKey_def redact_def jv0_def)
  have fits: "frame_fits 1024 (MsgPut, NewKVData ka [1])" "frame_fits 1024 (MsgGet, key_payload ka)" "frame_fits 1024 (MsgRespOK, get_response [1])"
    by (simp_all add: frame_fits_def NewKVData_def ByteBuilder_def key_payload_def get_response_def)
  have room: "credit_room (cost ka (Some [1])) m0" using m0_room [of 2] by (simp add: vlen_def)
  have "e_wio env0 = WalOk" "e_cfg env0 = cfg0" by (simp_all add: env0_def)
  then show ?thesis
    using client_put_get [of app0 server_filter jv0 ka "[1]" 1024 env0 "NewWAL None" "[]" "[]" ka 7] f fits room m0_ok fits_small [of ka "Some [1]"]
    by (auto simp: NewWAL_def vlen_def get_result_def)
qed

text \<open>
  C23. With the filter of \<open>main\<close> installed, a handled request is answered exactly once, unless its identifier is not
  served or it is a GET or DEL whose length field does not fit (\<open>router.go\<close>, lines 130 to 138 and 162 to 170): those get
  no answer at all, although clients wait for one answer to each request.
\<close>

theorem response_per_request:
  assumes "DoMsgHandle (server_routes js env) req app = Some (Sent out, app')" and "app_filter app \<noteq> None"
  shows "length out = (if msg_Id (rq_msg req) \<notin> served_ids \<or>
      msg_Id (rq_msg req) \<in> {MsgGet, MsgDelete} \<and> \<not> key_request_ok (msg_Data (rq_msg req)) then 0 else 1)"
  by (rule response_count [OF assms])

theorem response_per_request_witness:
  "DoMsgHandle (server_routes jv0 env0) \<lparr>rq_msg = received (MsgGet, [1, 2, 3]), rq_conn = 7\<rparr> app0 = Some (Sent [], app0) \<and>
   length ([] :: response list) = (if MsgGet \<notin> served_ids \<or> MsgGet \<in> {MsgGet, MsgDelete} \<and> \<not> key_request_ok [1, 2, 3] then 0 else 1)"
proof -
  have "filter_Handle jv0 \<lparr>rq_msg = received (MsgGet, [1, 2, 3]), rq_conn = 7\<rparr> server_filter (app_mets app0) =
      (HookPass, \<lparr>rq_msg = received (MsgGet, [1, 2, 3]), rq_conn = 7\<rparr>, server_filter, app_mets app0)"
    by (simp add: filter_Handle_def)
  then have d: "DoMsgHandle (server_routes jv0 env0) \<lparr>rq_msg = received (MsgGet, [1, 2, 3]), rq_conn = 7\<rparr> app0 = Some (Sent [], app0)"
    by (simp add: DoMsgHandle_def server_routes_ids served_ids_def NewRouter_def Router_PreHandle_def Router_Handle_def handleGet_def
        app0_def server_app_def)
  from response_per_request [OF d] d show ?thesis by simp
qed

end
