(* ===== verification/ServiceClaims.thy ===== *)
theory ServiceClaims
  imports ServerClaims ClusterClaims
begin

text \<open>The store behind Raft: what the nodes of a cluster serve, and what a write that was acknowledged is worth.\<close>

lemma credit_room_mono: "n \<le> n' \<Longrightarrow> credit_room n' m \<Longrightarrow> credit_room n m"
  by (auto simp: credit_room_def)

lemma write_cost_butlast: "write_cost (map cmd_write (butlast cs)) \<le> write_cost (map cmd_write cs)"
proof (induction cs)
  case (Cons c cs)
  then show ?case by (cases "cmd_write c") auto
qed simp


definition kc :: "nat \<Rightarrow> KVCommand" where
  "kc i = (if i = 0 then put_cmd ka [1] else put_cmd ka [2])"


text \<open>
  C35. On a single node without a snapshot an acknowledged write is not visible: the gRPC put succeeds, but the apply loop has been
  handed everything except that command, so that a get answers as if the put had not happened, until another write follows.
\<close>

theorem acked_write_invisible:
  assumes "append_all rcfg FileOk (map (marshal js) cs) (becomeLeader (new_node [p] 0 w)) = Some r"
    and "mem_ok cfg m tss" and "credit_room (write_cost (map cmd_write cs)) m"
    and "\<forall>c \<in> set cs. cmd_ok c \<and> json_reads js c"
  shows "\<exists>s' r' s'' x. gc_Put Up Some rcfg js FileOk key v \<lparr>storage = m, kv_wal = None, kv_raft = Some r\<rparr> = Some (Inr (), s') \<and>
     kv_raft s' = Some r' \<and> kv_Run fm order cfg js coins now io 0 (ApplyCh r') s' = Some (Done, s'') \<and>
     gc_Get Up key s'' = Some (case Option.bind ((raw_view m tss ++ written (map cmd_write cs)) key) id of
        None \<Rightarrow> Inl GrpcNotFound | Some u \<Rightarrow> Inr u, x)"
proof -
  have "lagging (becomeLeader (new_node [p] 0 w))" by (simp add: lagging_def becomeLeader_def new_node_def wf_log_def)
  from lagging_append_all [OF this, of rcfg FileOk "map (marshal js) cs"] assms(1)
  have r: "lagging r" "map Command (rlog r) = map (marshal js) cs" by (auto simp: becomeLeader_def new_node_def)
  let ?c = "\<lparr>cmdType = ''Put'', cmdKey = key, cmdValue = Some v\<rparr>"
  let ?s = "\<lparr>storage = m, kv_wal = None, kv_raft = Some r\<rparr>"
  have l: "state r = Leader" "length (peers r) = 1" "wf_log r" using r(1) by (simp_all add: lagging_def)
  obtain y r' where a: "AppendEntry rcfg FileOk (marshal js ?c) r = Some (y, r')" "lagging r'"
      "map Command (rlog r') = map (marshal js) (cs @ [?c])"
    using lagging_append [OF r(1), of rcfg FileOk "marshal js ?c"] r(2) by auto
  define e where "e = \<lparr>Index = log_base r + int (length (rlog r)), EntryTerm = Term r, Command = marshal js ?c, IsSnapshot = False\<rparr>"
  have y: "\<exists>z. y = Some (Index e, z)" "commitIndex r' = Index e"
    using AppendEntry_single [OF l, of rcfg FileOk "marshal js ?c"] a(1) by (auto simp: e_def)
  let ?s' = "\<lparr>storage = m, kv_wal = None, kv_raft = Some r'\<rparr>"
  have put: "gc_Put Up Some rcfg js FileOk key v ?s = Some (Inr (), ?s')"
    using a(1) y by (auto simp: gc_Put_def gc_write_def grpc_Put_def grpc_write_def kv_AppendEntry_def committed_def)
  have ch: "ApplyCh r' = butlast (rlog r')" using a(2) by (simp add: lagging_def)
  have "map Command (ApplyCh r') = map (marshal js) cs" using a(3) by (simp add: ch map_butlast)
  moreover have "\<forall>e \<in> set (ApplyCh r'). \<not> IsSnapshot e" using a(2) by (auto simp: ch lagging_def dest: in_set_butlastD)
  ultimately obtain s'' where s'': "kv_Run fm order cfg js coins now io 0 (ApplyCh r') ?s' = Some (Done, s'')" "mem_ok cfg (storage s'') tss"
      "raw_view (storage s'') tss = raw_view m tss ++ written (map cmd_write cs)"
    using kv_Run_entries [of cfg ?s' tss "ApplyCh r'" js cs fm order coins now io 0] assms(2-4) by auto
  let ?o = "Option.bind ((raw_view m tss ++ written (map cmd_write cs)) key) id"
  obtain x where "kv_Get key s'' = Some (case ?o of None \<Rightarrow> Inl KeyNotFound | Some u \<Rightarrow> Inr u, x)"
    using kv_Get_ok [OF s''(2), of key] unfolding visible_def s''(3) by blast
  then have "gc_Get Up key s'' = Some (case ?o of None \<Rightarrow> Inl GrpcNotFound | Some u \<Rightarrow> Inr u, x)"
    by (cases ?o) (simp_all only: gc_Get_def grpc_Get_def option.case sum.case prod.case option.map, simp_all)
  then show ?thesis using put s''(1) by (intro exI [of _ ?s'] exI [of _ r'] exI [of _ s''] exI [of _ x]) simp
qed

theorem acked_write_invisible_witness:
  "\<exists>r s' r' s'' x. append_all rcfg0 FileOk (map (marshal js0) [kc 0]) (becomeLeader (new_node [[1]] 0 wal0)) = Some r \<and>
     gc_Put Up Some rcfg0 js0 FileOk ka [2] \<lparr>storage = m0, kv_wal = None, kv_raft = Some r\<rparr> = Some (Inr (), s') \<and> kv_raft s' = Some r' \<and>
     kv_Run fm0 order0 cfg0 js0 (\<lambda>_ _ _. False) (\<lambda>_. 0) io_good 0 (ApplyCh r') s' = Some (Done, s'') \<and> gc_Get Up ka s'' = Some (Inr [1], x)"
proof -
  have "lagging (becomeLeader (new_node [[1]] 0 wal0))" by (simp add: lagging_def becomeLeader_def new_node_def wf_log_def)
  from lagging_append_all [OF this, of rcfg0 FileOk "map (marshal js0) [kc 0]"]
  obtain r where r: "append_all rcfg0 FileOk (map (marshal js0) [kc 0]) (becomeLeader (new_node [[1]] 0 wal0)) = Some r" by blast
  have c: "\<forall>c \<in> set [kc 0]. cmd_ok c \<and> json_reads js0 c"
    using put_small [of ka "[1]"] json_reads_js0 by (simp add: kc_def put_cmd_def)
  have m: "credit_room (write_cost (map cmd_write [kc 0])) m0" using m0_room [of 2] by (simp add: cmd_write_def kc_def put_cmd_def vlen_def)
  have v: "Option.bind ((raw_view m0 [] ++ written (map cmd_write [kc 0])) ka) id = Some [1]"
    by (simp add: kc_def put_cmd_def cmd_write_def written_def)
  from acked_write_invisible [OF r m0_ok m c, of ka "[2]" fm0 order0 "\<lambda>_ _ _. False" "\<lambda>_. 0" io_good, unfolded v option.case] r
  show ?thesis by blast
qed

end
