(* ===== verification/Network.thy ===== *)
theory Network
  imports Ingest "HOL-Library.AList"
begin

text \<open>
  The connection layer: \<open>network/banNet/connection.go\<close> (channels, writer loop, shutdown), \<open>ConnManager.go\<close>
  and one turn of the accept loop of \<open>server.go\<close>. A channel is the list of the values in it.
  An operation that blocks for good is \<open>None\<close>.
\<close>

section \<open>Connections\<close>

text \<open>Where the goroutines of a connection are; \<open>Outer\<close> and \<open>Inner\<close> are the two selects of \<open>StartWriter\<close>.\<close>

datatype writer_pc = Outer | Inner | WriterDone
datatype reader_pc = Reading | ReaderStops | ReaderDone
datatype start_pc = Starting | StartDone

record Connection =
  ConnID :: "32 word"
  msgChan :: "bytes list"
  msgBuffChan :: "bytes list"
  exits :: nat
  stopped :: bool
  property :: "(bytes \<rightharpoonup> bytes) option"
  wpc :: writer_pc
  rpc :: reader_pc
  spc :: start_pc
  wire :: "(bool \<times> bytes) list"

text \<open>
  \<open>NewConnection\<close>; the map \<open>property\<close> is declared but not made. \<open>wire\<close> records what was written to the socket, and
  from which channel.
\<close>

definition NewConnection :: "32 word \<Rightarrow> Connection" where
  "NewConnection i =
     \<lparr>ConnID = i, msgChan = [], msgBuffChan = [], exits = 0, stopped = False, property = None, wpc = Outer, rpc = Reading,
      spc = Starting, wire = []\<rparr>"

definition msgChanCap :: nat where "msgChanCap = 10"

text \<open>\<open>SendMsg\<close> and \<open>SendBuffMsg\<close>: the error of \<open>Pack\<close>, or the frame in its channel, or blocked on a full channel.\<close>

definition SendMsg :: "bytes \<Rightarrow> bytes \<Rightarrow> Connection \<Rightarrow> ((net_error + unit) \<times> Connection) option" where
  "SendMsg i d c =
     (case Pack (NewMessage i d) of
        Inl e \<Rightarrow> Some (Inl e, c)
      | Inr g \<Rightarrow> (if length (msgChan c) < msgChanCap then Some (Inr (), c\<lparr>msgChan := msgChan c @ [g]\<rparr>) else None))"

definition SendBuffMsg :: "nat \<Rightarrow> bytes \<Rightarrow> bytes \<Rightarrow> Connection \<Rightarrow> ((net_error + unit) \<times> Connection) option" where
  "SendBuffMsg maxMsgChanLen i d c =
     (case Pack (NewMessage i d) of
        Inl e \<Rightarrow> Some (Inl e, c)
      | Inr g \<Rightarrow> (if length (msgBuffChan c) < maxMsgChanLen then Some (Inr (), c\<lparr>msgBuffChan := msgBuffChan c @ [g]\<rparr>) else None))"

text \<open>A write to a \<open>nil\<close> map panics; a read and a delete do not.\<close>

definition SetProperty :: "bytes \<Rightarrow> bytes \<Rightarrow> Connection \<Rightarrow> Connection option" where
  "SetProperty k v c = (case property c of None \<Rightarrow> None | Some m \<Rightarrow> Some (c\<lparr>property := Some (m(k \<mapsto> v))\<rparr>))"

definition GetProperty :: "bytes \<Rightarrow> Connection \<Rightarrow> bytes option" where
  "GetProperty k c = (case property c of None \<Rightarrow> None | Some m \<Rightarrow> m k)"

definition RemoveProperty :: "bytes \<Rightarrow> Connection \<Rightarrow> Connection" where
  "RemoveProperty k c = c\<lparr>property := map_option (\<lambda>m. m(k := None)) (property c)\<rparr>"

text \<open>\<open>Stop\<close> without its part in the connection manager: once, and it leaves one exit token unless there is one.\<close>

definition conn_Stop :: "Connection \<Rightarrow> Connection" where
  "conn_Stop c = (if stopped c then c else c\<lparr>stopped := True, exits := 1\<rparr>)"

text \<open>The writer: a step of \<open>StartWriter\<close>. A write to a closed socket fails and ends the loop.\<close>

inductive wstep :: "Connection \<Rightarrow> Connection \<Rightarrow> bool" where
  outer_exit: "\<lbrakk>wpc c = Outer; 0 < exits c\<rbrakk> \<Longrightarrow> wstep c (conn_Stop (c\<lparr>exits := exits c - 1, wpc := WriterDone\<rparr>))"
| outer_msg: "\<lbrakk>wpc c = Outer; msgChan c = g # gs; \<not> stopped c\<rbrakk> \<Longrightarrow>
     wstep c (c\<lparr>msgChan := gs, wire := wire c @ [(True, g)]\<rparr>)"
| outer_default: "\<lbrakk>wpc c = Outer; exits c = 0; msgChan c = []\<rbrakk> \<Longrightarrow> wstep c (c\<lparr>wpc := Inner\<rparr>)"
| inner_exit: "\<lbrakk>wpc c = Inner; 0 < exits c\<rbrakk> \<Longrightarrow> wstep c (conn_Stop (c\<lparr>exits := exits c - 1, wpc := WriterDone\<rparr>))"
| inner_buff: "\<lbrakk>wpc c = Inner; msgBuffChan c = g # gs; \<not> stopped c\<rbrakk> \<Longrightarrow>
     wstep c (c\<lparr>msgBuffChan := gs, wire := wire c @ [(False, g)], wpc := Outer\<rparr>)"
| outer_fail: "\<lbrakk>wpc c = Outer; msgChan c = g # gs\<rbrakk> \<Longrightarrow> wstep c (conn_Stop (c\<lparr>msgChan := gs, wpc := WriterDone\<rparr>))"
| inner_fail: "\<lbrakk>wpc c = Inner; msgBuffChan c = g # gs\<rbrakk> \<Longrightarrow> wstep c (conn_Stop (c\<lparr>msgBuffChan := gs, wpc := WriterDone\<rparr>))"

inductive_cases wstepE: "wstep c c'"

text \<open>The other goroutines of the connection: the reader ends on a read error, \<open>Start\<close> waits for a token.\<close>

inductive cstep :: "Connection \<Rightarrow> Connection \<Rightarrow> bool" where
  writer: "wstep c c' \<Longrightarrow> cstep c c'"
| read_error: "\<lbrakk>rpc c = Reading; exits c = 0\<rbrakk> \<Longrightarrow> cstep c (c\<lparr>exits := 1, rpc := ReaderStops\<rparr>)"
| reader_stop: "rpc c = ReaderStops \<Longrightarrow> cstep c (conn_Stop (c\<lparr>rpc := ReaderDone\<rparr>))"
| start_exit: "\<lbrakk>spc c = Starting; 0 < exits c\<rbrakk> \<Longrightarrow> cstep c (c\<lparr>exits := exits c - 1, spc := StartDone\<rparr>)"

inductive_cases cstepE: "cstep c c'"

text \<open>A run with handlers that send: the history holds the frames accepted into a channel, in order, with the channel.\<close>

inductive crun :: "nat \<Rightarrow> 32 word \<Rightarrow> (bool \<times> bytes) list \<Rightarrow> Connection \<Rightarrow> bool" for mx i where
  crun_init: "crun mx i [] (NewConnection i)"
| crun_step: "\<lbrakk>crun mx i h c; cstep c c'\<rbrakk> \<Longrightarrow> crun mx i h c'"
| crun_send: "\<lbrakk>crun mx i h c; Pack (NewMessage j d) = Inr g; SendMsg j d c = Some (Inr (), c')\<rbrakk> \<Longrightarrow>
     crun mx i (h @ [(True, g)]) c'"
| crun_send_buff: "\<lbrakk>crun mx i h c; Pack (NewMessage j d) = Inr g; SendBuffMsg mx j d c = Some (Inr (), c')\<rbrakk> \<Longrightarrow>
     crun mx i (h @ [(False, g)]) c'"

section \<open>The connection manager\<close>

record ConnManager =
  cm_locked :: bool
  connections :: "(32 word \<times> Connection) list"

definition NewConnManager :: ConnManager where
  "NewConnManager = \<lparr>cm_locked = False, connections = []\<rparr>"

text \<open>The mutex is not reentrant: taking it while it is held blocks for good when the holder is the caller.\<close>

definition cm_lock :: "ConnManager \<Rightarrow> ConnManager option" where
  "cm_lock cm = (if cm_locked cm then None else Some (cm\<lparr>cm_locked := True\<rparr>))"

definition cm_Add :: "Connection \<Rightarrow> ConnManager \<Rightarrow> ConnManager option" where
  "cm_Add c cm = map_option (\<lambda>m. m\<lparr>connections := AList.update (ConnID c) c (connections m), cm_locked := False\<rparr>) (cm_lock cm)"

definition cm_Remove :: "Connection \<Rightarrow> ConnManager \<Rightarrow> ConnManager option" where
  "cm_Remove c cm = map_option (\<lambda>m. m\<lparr>connections := AList.delete (ConnID c) (connections m), cm_locked := False\<rparr>) (cm_lock cm)"

definition cm_Get :: "32 word \<Rightarrow> ConnManager \<Rightarrow> Connection option" where
  "cm_Get i cm = map_of (connections cm) i"

definition cm_Len :: "ConnManager \<Rightarrow> int" where
  "cm_Len cm = int (length (connections cm))"

text \<open>\<open>Connection.Stop\<close> with the manager: the first call removes the connection from it.\<close>

definition Stop :: "Connection \<Rightarrow> ConnManager \<Rightarrow> (Connection \<times> ConnManager) option" where
  "Stop c cm = (if stopped c then Some (c, cm) else map_option (Pair (conn_Stop c)) (cm_Remove c cm))"

text \<open>\<open>ClearConn\<close> holds the lock while it stops the connections, in any order.\<close>

fun clear_loop :: "(32 word \<times> Connection) list \<Rightarrow> ConnManager \<Rightarrow> ConnManager option" where
  "clear_loop [] cm = Some cm"
| "clear_loop ((i, c) # cs) cm =
     (case Stop c cm of
        None \<Rightarrow> None
      | Some (_, cm') \<Rightarrow> clear_loop cs (cm'\<lparr>connections := AList.delete i (connections cm')\<rparr>))"

definition ClearConn :: "ConnManager \<Rightarrow> ConnManager option" where
  "ClearConn cm = (case cm_lock cm of
     None \<Rightarrow> None
   | Some cm1 \<Rightarrow> map_option (\<lambda>m. m\<lparr>cm_locked := False\<rparr>) (clear_loop (connections cm) cm1))"

text \<open>One turn of the accept loop of \<open>Server.Start\<close> for a new socket; the identifier wraps.\<close>

definition accept_conn :: "int \<Rightarrow> 32 word \<times> ConnManager \<Rightarrow> (32 word \<times> ConnManager) option" where
  "accept_conn maxConn st =
     (case st of (cid, cm) \<Rightarrow>
       (if maxConn \<le> cm_Len cm then Some (cid, cm)
        else map_option (Pair (cid + 1)) (cm_Add (NewConnection cid) cm)))"

section \<open>Order of the responses\<close>

text \<open>The frames of one channel in a history or on the wire.\<close>

definition chan :: "bool \<Rightarrow> (bool \<times> bytes) list \<Rightarrow> bytes list" where
  "chan b h = map snd (filter (\<lambda>x. fst x = b) h)"

lemma chan_simps [simp]: "chan b [] = []" "chan b (h @ [(b', g)]) = chan b h @ (if b' = b then [g] else [])"
  by (simp_all add: chan_def)

definition queued :: "bool \<Rightarrow> Connection \<Rightarrow> bytes list" where
  "queued b c = (if b then msgChan c else msgBuffChan c)"

definition chan_inv :: "bool \<Rightarrow> (bool \<times> bytes) list \<Rightarrow> Connection \<Rightarrow> bool" where
  "chan_inv b h c \<longleftrightarrow> (\<exists>lost. chan b h = chan b (wire c) @ lost @ queued b c \<and> (wpc c \<noteq> WriterDone \<longrightarrow> lost = []))"

definition chan_bounds :: "nat \<Rightarrow> Connection \<Rightarrow> bool" where
  "chan_bounds mx c \<longleftrightarrow> exits c \<le> 1 \<and> length (msgChan c) \<le> msgChanCap \<and> length (msgBuffChan c) \<le> mx"

lemma chan_inv_keep:
  assumes "chan_inv b h c" and "wire c' = wire c" and "queued b c' = queued b c" and "wpc c' \<noteq> WriterDone \<longrightarrow> wpc c \<noteq> WriterDone"
  shows "chan_inv b h c'"
  using assms by (auto simp: chan_inv_def)

lemma chan_inv_write:
  assumes "chan_inv b h c" and "wpc c \<noteq> WriterDone" and "wire c' = wire c @ [(b', g)]"
    and "queued b c = (if b' = b then g # queued b c' else queued b c')"
  shows "chan_inv b h c'"
  using assms by (auto simp: chan_inv_def)

lemma chan_inv_lose:
  assumes "chan_inv b h c" and "wpc c \<noteq> WriterDone" and "wpc c' = WriterDone" and "wire c' = wire c"
    and "queued b c = ls @ queued b c'"
  shows "chan_inv b h c'"
  using assms by (auto simp: chan_inv_def)

lemma conn_Stop_simps [simp]:
  "msgChan (conn_Stop c) = msgChan c" "msgBuffChan (conn_Stop c) = msgBuffChan c" "wire (conn_Stop c) = wire c"
  "wpc (conn_Stop c) = wpc c" "queued b (conn_Stop c) = queued b c" "stopped (conn_Stop c)"
  by (simp_all add: conn_Stop_def queued_def)

lemma wstep_chan: "wstep c c' \<Longrightarrow> chan_inv b h c \<Longrightarrow> chan_inv b h c'"
proof (induction rule: wstep.induct)
  case (outer_exit c)
  then show ?case by - (rule chan_inv_keep [of b h c], auto simp: queued_def)
next
  case (outer_msg c g gs)
  then show ?case by - (rule chan_inv_write [of b h c _ True g], auto simp: queued_def)
next
  case (outer_default c)
  then show ?case by - (rule chan_inv_keep [of b h c], auto simp: queued_def)
next
  case (inner_exit c)
  then show ?case by - (rule chan_inv_keep [of b h c], auto simp: queued_def)
next
  case (inner_buff c g gs)
  then show ?case by - (rule chan_inv_write [of b h c _ False g], auto simp: queued_def)
next
  case (outer_fail c g gs)
  then show ?case by - (rule chan_inv_lose [of b h c _ "if b then [g] else []"], auto simp: queued_def)
next
  case (inner_fail c g gs)
  then show ?case by - (rule chan_inv_lose [of b h c _ "if b then [] else [g]"], auto simp: queued_def)
qed

lemma wstep_bounds: "wstep c c' \<Longrightarrow> chan_bounds mx c \<Longrightarrow> chan_bounds mx c'"
  by (induction rule: wstep.induct) (auto simp: chan_bounds_def conn_Stop_def)

lemma cstep_chan: "cstep c c' \<Longrightarrow> chan_inv b h c \<Longrightarrow> chan_inv b h c'"
proof (induction rule: cstep.induct)
  case (writer c c')
  then show ?case using wstep_chan by blast
next
  case (read_error c)
  then show ?case by - (rule chan_inv_keep [of b h c], auto simp: queued_def)
next
  case (reader_stop c)
  then show ?case by - (rule chan_inv_keep [of b h c], auto simp: queued_def)
next
  case (start_exit c)
  then show ?case by - (rule chan_inv_keep [of b h c], auto simp: queued_def)
qed

lemma cstep_bounds: "cstep c c' \<Longrightarrow> chan_bounds mx c \<Longrightarrow> chan_bounds mx c'"
  by (induction rule: cstep.induct) (simp_all add: wstep_bounds, auto simp: chan_bounds_def conn_Stop_def)

lemma SendMsg_step:
  assumes "SendMsg j d c = Some (Inr (), c')" and "Pack (NewMessage j d) = Inr g"
  shows "chan_inv b h c \<Longrightarrow> chan_inv b (h @ [(True, g)]) c'" and "chan_bounds mx c \<Longrightarrow> chan_bounds mx c'"
  using assms by (auto simp: SendMsg_def chan_inv_def chan_bounds_def queued_def split: if_splits)

lemma SendBuffMsg_step:
  assumes "SendBuffMsg mx j d c = Some (Inr (), c')" and "Pack (NewMessage j d) = Inr g"
  shows "chan_inv b h c \<Longrightarrow> chan_inv b (h @ [(False, g)]) c'" and "chan_bounds mx c \<Longrightarrow> chan_bounds mx c'"
  using assms by (auto simp: SendBuffMsg_def chan_inv_def chan_bounds_def queued_def split: if_splits)

lemma crun_inv: "crun mx i h c \<Longrightarrow> chan_inv b h c \<and> chan_bounds mx c"
proof (induction rule: crun.induct)
  case crun_init
  then show ?case by (simp add: chan_inv_def chan_bounds_def NewConnection_def queued_def)
next
  case (crun_step h c c')
  then show ?case using cstep_chan cstep_bounds by blast
next
  case (crun_send h c j d g c')
  then show ?case using SendMsg_step by blast
next
  case (crun_send_buff h c j d g c')
  then show ?case using SendBuffMsg_step by blast
qed

section \<open>Connections that get stuck\<close>

text \<open>
  A frame sent with \<open>SendMsg\<close> while the writer waits in its inner select: nothing in the writer's reach is ready.
\<close>

definition stuck_conn :: "32 word \<Rightarrow> bytes \<Rightarrow> Connection" where
  "stuck_conn i g = (NewConnection i)\<lparr>wpc := Inner, msgChan := [g]\<rparr>"

lemma stuck_conn_run:
  assumes "Pack (NewMessage j d) = Inr g"
  shows "crun mx i [(True, g)] (stuck_conn i g)"
proof -
  let ?c1 = "(NewConnection i)\<lparr>wpc := Inner\<rparr>"
  have "wstep (NewConnection i) ?c1" by (rule wstep.outer_default) (simp_all add: NewConnection_def)
  then have "crun mx i [] ?c1" by (intro crun_step [OF crun_init] cstep.writer)
  moreover have "SendMsg j d ?c1 = Some (Inr (), stuck_conn i g)"
    using assms by (simp add: SendMsg_def stuck_conn_def msgChanCap_def NewConnection_def)
  ultimately show ?thesis using crun_send [of mx i "[]" ?c1 j d g] assms by simp
qed

lemma stuck_conn_no_wstep: "\<not> wstep (stuck_conn i g) c'"
  by (auto simp: stuck_conn_def NewConnection_def elim!: wstepE)

text \<open>
  After a read error the reader's token and the one of \<open>Stop\<close> can be the same one. \<open>Start\<close> takes it, and the writer
  waits for ever.
\<close>

definition leaked_conn :: "32 word \<Rightarrow> Connection" where
  "leaked_conn i = (NewConnection i)\<lparr>wpc := Inner, rpc := ReaderDone, stopped := True, spc := StartDone\<rparr>"

lemma leaked_conn_run: "crun mx i [] (leaked_conn i)"
proof -
  let ?c1 = "(NewConnection i)\<lparr>wpc := Inner\<rparr>"
  let ?c2 = "?c1\<lparr>exits := 1, rpc := ReaderStops\<rparr>"
  let ?c3 = "conn_Stop (?c2\<lparr>rpc := ReaderDone\<rparr>)"
  have "wstep (NewConnection i) ?c1" by (rule wstep.outer_default) (simp_all add: NewConnection_def)
  then have "crun mx i [] ?c1" by (intro crun_step [OF crun_init] cstep.writer)
  moreover have "cstep ?c1 ?c2" by (rule cstep.read_error) (simp_all add: NewConnection_def)
  moreover have "cstep ?c2 ?c3" by (rule cstep.reader_stop) simp
  moreover have "cstep ?c3 (leaked_conn i)"
    using cstep.start_exit [of ?c3] by (simp add: conn_Stop_def leaked_conn_def NewConnection_def)
  ultimately show ?thesis by (meson crun_step)
qed

lemma leaked_conn_no_step: "\<not> cstep (leaked_conn i) c'"
  by (auto simp: leaked_conn_def NewConnection_def elim!: cstepE wstepE)

section \<open>The manager and the limit on connections\<close>

lemma Stop_locked: "\<not> stopped c \<Longrightarrow> cm_locked cm \<Longrightarrow> Stop c cm = None"
  by (simp add: Stop_def cm_Remove_def cm_lock_def)

lemma clear_loop_blocks: "\<exists>(i, c) \<in> set cs. \<not> stopped c \<Longrightarrow> cm_locked cm \<Longrightarrow> clear_loop cs cm = None"
proof (induction cs arbitrary: cm)
  case (Cons ic cs)
  obtain i c where ic: "ic = (i, c)" by (cases ic)
  show ?case
  proof (cases "stopped c")
    case True
    then show ?thesis using Cons ic by (auto simp: Stop_def)
  next
    case False
    then show ?thesis using Stop_locked Cons.prems(2) ic by simp
  qed
qed simp

lemma ClearConn_blocks: "\<exists>(i, c) \<in> set (connections cm). \<not> stopped c \<Longrightarrow> ClearConn cm = None"
  by (auto simp: ClearConn_def cm_lock_def clear_loop_blocks)

lemma length_AList_update: "length (AList.update k v xs) \<le> Suc (length xs)"
  by (induction xs) auto

lemma accept_bound:
  assumes "accept_conn mx (cid, cm) = Some (cid', cm')" and "cm_Len cm \<le> mx"
  shows "cm_Len cm' \<le> mx"
  using assms length_AList_update [of cid "NewConnection cid" "connections cm"]
  by (auto simp: accept_conn_def cm_Len_def cm_Add_def cm_lock_def NewConnection_def split: if_splits)

end
