(* ===== verification/Workers.thy ===== *)
theory Workers
  imports Network
begin

text \<open>
  The worker pool of \<open>network/banNet/msgHandle.go\<close> and the server of \<open>server.go\<close>. A task queue is a channel: \<open>nil\<close>
  before the pool is started, open with the requests in it, or closed with what is left. The senders are the reader
  goroutines of the connections; a sender that finds every queue full waits for its own worker.
\<close>

section \<open>Task queues\<close>

datatype task_chan = NilChan | Open "Request list" | Closed "Request list"

fun chan_items :: "task_chan \<Rightarrow> Request list" where
  "chan_items NilChan = []"
| "chan_items (Open rs) = rs"
| "chan_items (Closed rs) = rs"

text \<open>The state of a \<open>MsgHandle\<close> without its routes.\<close>

record MsgHandle =
  WorkerPoolSize :: "32 word"
  TaskQueue :: "task_chan list"

definition NewMsgHandle :: "32 word \<Rightarrow> MsgHandle" where
  "NewMsgHandle n = \<lparr>WorkerPoolSize = n, TaskQueue = replicate (unat n) NilChan\<rparr>"

definition StartWorkerPool :: "MsgHandle \<Rightarrow> MsgHandle" where
  "StartWorkerPool h = h\<lparr>TaskQueue := map (\<lambda>_. Open []) [0..<unat (WorkerPoolSize h)]\<rparr>"

text \<open>
  A select with a single send and a default: whether the value can be sent, \<open>None\<close> when the channel is closed, which is
  a panic.
\<close>

definition try_send :: "nat \<Rightarrow> task_chan \<Rightarrow> bool option" where
  "try_send cap ch = (case ch of NilChan \<Rightarrow> Some False | Open rs \<Rightarrow> Some (length rs < cap) | Closed _ \<Rightarrow> None)"

text \<open>Where a request goes: into a queue, or the sender waits for one, or it panics.\<close>

datatype dest = Queued nat | Blocks nat | Panics

text \<open>The stealing loop from turn \<open>i\<close> on, \<open>fuel\<close> turns, and then the blocking send to the own worker.\<close>

fun steal :: "nat \<Rightarrow> task_chan list \<Rightarrow> 32 word \<Rightarrow> 32 word \<Rightarrow> 32 word \<Rightarrow> nat \<Rightarrow> dest" where
  "steal cap qs workerID n i 0 = Blocks (unat workerID)"
| "steal cap qs workerID n i (Suc fuel) =
     (let tryID = unat ((workerID + i) mod n)
      in case try_send cap (qs ! tryID) of
           None \<Rightarrow> Panics
         | Some True \<Rightarrow> Queued tryID
         | Some False \<Rightarrow> steal cap qs workerID n (i + 1) fuel)"

definition SendMsgToTaskQueue :: "nat \<Rightarrow> Request \<Rightarrow> MsgHandle \<Rightarrow> dest" where
  "SendMsgToTaskQueue cap req h =
     (let n = WorkerPoolSize h
      in if n = 0 then Panics
         else let workerID = rq_conn req mod n
           in case try_send cap (TaskQueue h ! unat workerID) of
                None \<Rightarrow> Panics
              | Some True \<Rightarrow> Queued (unat workerID)
              | Some False \<Rightarrow> steal cap (TaskQueue h) workerID n 1 (unat n - 1))"

definition chan_put :: "nat \<Rightarrow> Request \<Rightarrow> MsgHandle \<Rightarrow> MsgHandle" where
  "chan_put i req h = h\<lparr>TaskQueue := (TaskQueue h)[i := Open (chan_items (TaskQueue h ! i) @ [req])]\<rparr>"

text \<open>A receive in \<open>StartOneWorker\<close>: a request, the end of a closed queue, or nothing yet.\<close>

datatype received = Got Request "task_chan" | ChanClosed | Empty

fun chan_recv :: "task_chan \<Rightarrow> received" where
  "chan_recv (Open (r # rs)) = Got r (Open rs)"
| "chan_recv (Closed (r # rs)) = Got r (Closed rs)"
| "chan_recv (Closed []) = ChanClosed"
| "chan_recv _ = Empty"

text \<open>\<open>MsgHandle.Stop\<close>: closes every queue; closing a closed channel panics.\<close>

fun chan_close :: "task_chan \<Rightarrow> task_chan option" where
  "chan_close NilChan = Some NilChan"
| "chan_close (Open rs) = Some (Closed rs)"
| "chan_close (Closed rs) = None"

fun close_all :: "task_chan list \<Rightarrow> task_chan list option" where
  "close_all [] = Some []"
| "close_all (q # qs) = (case chan_close q of None \<Rightarrow> None | Some q' \<Rightarrow> map_option (Cons q') (close_all qs))"

definition mh_Stop :: "MsgHandle \<Rightarrow> MsgHandle option" where
  "mh_Stop h = map_option (\<lambda>qs. h\<lparr>TaskQueue := qs\<rparr>) (close_all (TaskQueue h))"

section \<open>The pool\<close>

text \<open>The workers with what each is handling, and the senders that wait for their own worker.\<close>

datatype worker_state = Free | Busy Request | Gone

record WorkerPool =
  mh :: MsgHandle
  wk :: "worker_state list"
  senders :: "Request list"

definition pool_init :: "32 word \<Rightarrow> WorkerPool" where
  "pool_init n = \<lparr>mh = StartWorkerPool (NewMsgHandle n), wk = replicate (unat n) Free, senders = []\<rparr>"

datatype pool_event = Accept nat Request | Finish nat Request | Silent

definition own_queue :: "Request \<Rightarrow> WorkerPool \<Rightarrow> nat" where
  "own_queue req p = unat (rq_conn req mod WorkerPoolSize (mh p))"

inductive pstep :: "nat \<Rightarrow> pool_event \<Rightarrow> WorkerPool \<Rightarrow> WorkerPool \<Rightarrow> bool" for cap where
  send: "SendMsgToTaskQueue cap req (mh p) = Queued i \<Longrightarrow> pstep cap (Accept i req) p (p\<lparr>mh := chan_put i req (mh p)\<rparr>)"
| send_waits: "SendMsgToTaskQueue cap req (mh p) = Blocks i \<Longrightarrow> pstep cap Silent p (p\<lparr>senders := senders p @ [req]\<rparr>)"
| send_wakes: "\<lbrakk>senders p = us @ req # vs; try_send cap (TaskQueue (mh p) ! own_queue req p) = Some True\<rbrakk> \<Longrightarrow>
     pstep cap (Accept (own_queue req p) req) p (p\<lparr>mh := chan_put (own_queue req p) req (mh p), senders := us @ vs\<rparr>)"
| recv: "\<lbrakk>i < length (wk p); wk p ! i = Free; chan_recv (TaskQueue (mh p) ! i) = Got req q\<rbrakk> \<Longrightarrow>
     pstep cap Silent p (p\<lparr>mh := (mh p)\<lparr>TaskQueue := (TaskQueue (mh p))[i := q]\<rparr>, wk := (wk p)[i := Busy req]\<rparr>)"
| handled: "\<lbrakk>i < length (wk p); wk p ! i = Busy req\<rbrakk> \<Longrightarrow> pstep cap (Finish i req) p (p\<lparr>wk := (wk p)[i := Free]\<rparr>)"
| worker_ends: "\<lbrakk>i < length (wk p); wk p ! i = Free; chan_recv (TaskQueue (mh p) ! i) = ChanClosed\<rbrakk> \<Longrightarrow>
     pstep cap Silent p (p\<lparr>wk := (wk p)[i := Gone]\<rparr>)"
| stop: "mh_Stop (mh p) = Some h \<Longrightarrow> pstep cap Silent p (p\<lparr>mh := h\<rparr>)"

inductive prun :: "nat \<Rightarrow> 32 word \<Rightarrow> pool_event list \<Rightarrow> WorkerPool \<Rightarrow> bool" for cap n where
  prun_init: "prun cap n [] (pool_init n)"
| prun_step: "\<lbrakk>prun cap n es p; pstep cap e p p'\<rbrakk> \<Longrightarrow> prun cap n (es @ [e]) p'"

text \<open>What worker \<open>i\<close> was given and what it has finished, in order.\<close>

fun accepted_by :: "nat \<Rightarrow> pool_event \<Rightarrow> Request list" where
  "accepted_by i (Accept j r) = (if j = i then [r] else [])"
| "accepted_by i _ = []"

fun finished_by :: "nat \<Rightarrow> pool_event \<Rightarrow> Request list" where
  "finished_by i (Finish j r) = (if j = i then [r] else [])"
| "finished_by i _ = []"

fun in_hand :: "worker_state \<Rightarrow> Request list" where
  "in_hand (Busy r) = [r]"
| "in_hand _ = []"

text \<open>
  The invariant: each worker finishes what it was given in that order, the rest is in its hands and in its queue; the
  queues keep their capacity, and the queues of workers that are gone are empty.
\<close>

definition pool_inv :: "nat \<Rightarrow> 32 word \<Rightarrow> pool_event list \<Rightarrow> WorkerPool \<Rightarrow> bool" where
  "pool_inv cap n es p \<longleftrightarrow> WorkerPoolSize (mh p) = n \<and> length (TaskQueue (mh p)) = unat n \<and> length (wk p) = unat n \<and>
     (n = 0 \<longrightarrow> senders p = []) \<and>
     (\<forall>i < unat n. concat (map (accepted_by i) es) =
          concat (map (finished_by i) es) @ in_hand (wk p ! i) @ chan_items (TaskQueue (mh p) ! i) \<and>
        length (chan_items (TaskQueue (mh p) ! i)) \<le> cap \<and> (wk p ! i = Gone \<longrightarrow> TaskQueue (mh p) ! i = Closed []) \<and>
        TaskQueue (mh p) ! i \<noteq> NilChan)"

lemma pool_init_inv: "pool_inv cap n [] (pool_init n)"
  by (simp add: pool_inv_def pool_init_def StartWorkerPool_def NewMsgHandle_def)

lemma try_send_True: "try_send cap ch = Some True \<longleftrightarrow> (\<exists>rs. ch = Open rs \<and> length rs < cap)"
  by (cases ch) (auto simp: try_send_def)

lemma steal_Queued: "steal cap qs w n i fuel = Queued k \<Longrightarrow> try_send cap (qs ! k) = Some True \<and> (\<exists>v. k = unat ((v :: 32 word) mod n))"
  by (induction fuel arbitrary: i) (auto simp: Let_def split: option.splits bool.splits)

lemma SendMsgToTaskQueue_Queued:
  assumes "SendMsgToTaskQueue cap req h = Queued i"
  shows "try_send cap (TaskQueue h ! i) = Some True" and "i < unat (WorkerPoolSize h)"
proof -
  have n: "WorkerPoolSize h \<noteq> 0" using assms by (auto simp: SendMsgToTaskQueue_def Let_def)
  have "try_send cap (TaskQueue h ! i) = Some True \<and> (\<exists>v. i = unat ((v :: 32 word) mod WorkerPoolSize h))"
    using assms steal_Queued by (auto simp: SendMsgToTaskQueue_def Let_def split: if_splits option.splits bool.splits)
  then show "try_send cap (TaskQueue h ! i) = Some True" "i < unat (WorkerPoolSize h)"
    using n by (auto simp: unat_mod unat_gt_0)
qed

text \<open>A request enters a queue.\<close>

lemma put_inv:
  assumes "pool_inv cap n es p" and "i < unat n" and "try_send cap (TaskQueue (mh p) ! i) = Some True"
  shows "pool_inv cap n (es @ [Accept i req]) (p\<lparr>mh := chan_put i req (mh p), senders := us\<rparr>)"
  using assms by (auto simp: pool_inv_def chan_put_def try_send_True nth_list_update)

lemma close_all_nth:
  "close_all qs = Some qs' \<Longrightarrow> length qs' = length qs \<and> (\<forall>i < length qs. chan_close (qs ! i) = Some (qs' ! i))"
proof (induction qs arbitrary: qs')
  case (Cons q qs)
  then show ?case by (auto simp: nth_Cons split: option.splits nat.splits)
qed simp

lemma chan_close_Some: "chan_close ch = Some ch' \<Longrightarrow> ch \<noteq> NilChan \<Longrightarrow> \<exists>rs. ch = Open rs \<and> ch' = Closed rs"
  by (cases ch) auto

lemma stop_inv:
  assumes "pool_inv cap n es p" and "mh_Stop (mh p) = Some h"
  shows "pool_inv cap n (es @ [Silent]) (p\<lparr>mh := h\<rparr>)"
proof -
  obtain qs where h: "h = (mh p)\<lparr>TaskQueue := qs\<rparr>" and c: "close_all (TaskQueue (mh p)) = Some qs"
    using assms(2) by (auto simp: mh_Stop_def)
  have "chan_items (qs ! i) = chan_items (TaskQueue (mh p) ! i) \<and> qs ! i \<noteq> NilChan \<and> (TaskQueue (mh p) ! i = Closed [] \<longrightarrow> qs ! i = Closed [])"
    if "i < unat n" for i
  proof -
    have "chan_close (TaskQueue (mh p) ! i) = Some (qs ! i)" "TaskQueue (mh p) ! i \<noteq> NilChan"
      using close_all_nth [OF c] assms(1) that by (simp_all add: pool_inv_def)
    from chan_close_Some [OF this] show ?thesis by auto
  qed
  then show ?thesis using assms(1) close_all_nth [OF c] by (auto simp: pool_inv_def h)
qed

lemma recv_items: "chan_recv ch = Got r q \<Longrightarrow> chan_items ch = r # chan_items q \<and> q \<noteq> NilChan"
  by (induction ch rule: chan_recv.induct) auto

lemma recv_closed: "chan_recv ch = ChanClosed \<longleftrightarrow> ch = Closed []"
  by (induction ch rule: chan_recv.induct) auto

lemma pstep_inv:
  assumes "pstep cap e p p'" and "pool_inv cap n es p"
  shows "pool_inv cap n (es @ [e]) p'"
  using assms(1)
proof cases
  case (send req i)
  note q = SendMsgToTaskQueue_Queued [OF send(3)]
  show ?thesis using put_inv [OF assms(2), of i req "senders p"] q assms(2) send by (simp add: pool_inv_def)
next
  case (send_waits req i)
  then have "n \<noteq> 0" using assms(2) by (auto simp: pool_inv_def SendMsgToTaskQueue_def Let_def)
  then show ?thesis using assms(2) send_waits by (simp add: pool_inv_def)
next
  case (send_wakes us req vs)
  then have "n \<noteq> 0" using assms(2) by (auto simp: pool_inv_def)
  then have "own_queue req p < unat n" using assms(2) by (simp add: own_queue_def pool_inv_def unat_mod unat_gt_0)
  then show ?thesis using put_inv [OF assms(2) _ send_wakes(4)] send_wakes by simp
next
  case (recv i req q)
  then show ?thesis using assms(2) recv_items [OF recv(5)] by (auto simp: pool_inv_def nth_list_update)
next
  case (handled i req)
  then show ?thesis using assms(2) by (auto simp: pool_inv_def nth_list_update)
next
  case (worker_ends i)
  then show ?thesis using assms(2) by (auto simp: pool_inv_def nth_list_update recv_closed)
next
  case (stop h)
  then show ?thesis using stop_inv [OF assms(2)] by simp
qed

lemma prun_inv: "prun cap n es p \<Longrightarrow> pool_inv cap n es p"
  by (induction rule: prun.induct) (simp_all add: pool_init_inv pstep_inv)

section \<open>Every request finds a queue while there is room\<close>

lemma unat_cyclic:
  assumes "w < n" and "j < unat n" and "unat n \<le> 2 ^ 31"
  shows "unat ((w + word_of_nat j) mod n :: 32 word) = (unat w + j) mod unat n"
proof -
  have "unat (word_of_nat j :: 32 word) = j" using assms by (simp add: unat_of_nat)
  moreover have "unat w < unat n" using assms(1) by (simp add: word_less_nat_alt)
  ultimately have "unat (w + word_of_nat j) = unat w + j" using assms(2,3) by (simp add: unat_word_ariths)
  then show ?thesis by (simp add: unat_mod)
qed

abbreviation full :: "nat \<Rightarrow> task_chan list \<Rightarrow> nat \<Rightarrow> bool" where
  "full cap qs i \<equiv> try_send cap (qs ! i) = Some False"

lemma steal_Blocks:
  assumes "w < n" and "unat n \<le> 2 ^ 31" and "j + fuel \<le> unat n" and "steal cap qs w n (word_of_nat j) fuel = Blocks i"
  shows "\<forall>k \<in> {j ..< j + fuel}. full cap qs ((unat w + k) mod unat n)"
  using assms(3,4)
proof (induction fuel arbitrary: j)
  case (Suc fuel)
  have "unat ((w + word_of_nat j) mod n) = (unat w + j) mod unat n" using unat_cyclic [OF assms(1) _ assms(2)] Suc.prems by simp
  moreover have "(word_of_nat j + 1 :: 32 word) = word_of_nat (Suc j)" by simp
  moreover have "{j ..< j + Suc fuel} = insert j {Suc j ..< Suc j + fuel}" by auto
  ultimately show ?case using Suc.IH [of "Suc j"] Suc.prems by (simp add: Let_def del: of_nat_Suc split: option.splits bool.splits)
qed simp

lemma cyclic_all:
  assumes "(w :: nat) < n" and "k < n"
  obtains j where "j < n" and "(w + j) mod n = k"
proof (cases "w \<le> k")
  case True
  then show thesis using that [of "k - w"] assms by simp
next
  case False
  then have "(w + (n - w + k)) mod n = k" using assms by simp
  then show thesis using that [of "n - w + k"] assms False by simp
qed

text \<open>A sender waits only when every queue is full.\<close>

lemma SendMsgToTaskQueue_Blocks:
  assumes "SendMsgToTaskQueue cap req h = Blocks i" and "unat (WorkerPoolSize h) \<le> 2 ^ 31" and "k < unat (WorkerPoolSize h)"
  shows "full cap (TaskQueue h) k"
proof -
  let ?n = "WorkerPoolSize h" and ?w = "rq_conn req mod WorkerPoolSize h"
  have n: "?n \<noteq> 0" and own: "full cap (TaskQueue h) (unat ?w)" and st: "steal cap (TaskQueue h) ?w ?n 1 (unat ?n - 1) = Blocks i"
    using assms(1) by (auto simp: SendMsgToTaskQueue_def Let_def split: if_splits option.splits bool.splits)
  have w: "?w < ?n" using n by (simp add: word_less_nat_alt unat_mod unat_gt_0)
  then have wn: "unat ?w < unat ?n" by (simp add: word_less_nat_alt)
  have n1: "1 + (unat ?n - 1) = unat ?n" using n by (simp add: unat_gt_0 Suc_le_eq)
  have "\<forall>k \<in> {1 ..< unat ?n}. full cap (TaskQueue h) ((unat ?w + k) mod unat ?n)"
    using steal_Blocks [OF w assms(2), of 1 "unat ?n - 1" cap "TaskQueue h" i] st n1 by simp
  then have all: "full cap (TaskQueue h) ((unat ?w + k) mod unat ?n)" if "k < unat ?n" for k
    using that own wn by (cases "k = 0") auto
  show ?thesis by (rule cyclic_all [OF wn assms(3)]) (use all in blast)
qed

text \<open>A request sent after the queues were closed brings the program down.\<close>

lemma SendMsgToTaskQueue_closed:
  assumes "\<forall>q \<in> set (TaskQueue h). \<exists>rs. q = Closed rs" and "length (TaskQueue h) = unat (WorkerPoolSize h)"
  shows "SendMsgToTaskQueue cap req h = Panics"
proof (cases "WorkerPoolSize h = 0")
  case False
  then have "unat (rq_conn req mod WorkerPoolSize h) < length (TaskQueue h)" using assms(2) by (simp add: unat_mod unat_gt_0)
  then have "\<exists>rs. TaskQueue h ! unat (rq_conn req mod WorkerPoolSize h) = Closed rs" using assms(1) by simp
  then show ?thesis using False by (auto simp: SendMsgToTaskQueue_def Let_def try_send_def)
qed (simp add: SendMsgToTaskQueue_def)

section \<open>The server\<close>

text \<open>
  \<open>Server\<close>: the connection manager with the next connection identifier, the message handler, and whether the listener
  is open. One turn of the loop of \<open>Start\<close> sees the exit signal, an error of \<open>AcceptTCP\<close> or a new socket.
\<close>

record Server =
  ConnMgr :: ConnManager
  next_cid :: "32 word"
  sv_handle :: MsgHandle
  listening :: bool

definition NewServer :: "32 word \<Rightarrow> Server" where
  "NewServer n = \<lparr>ConnMgr = NewConnManager, next_cid = 0, sv_handle = NewMsgHandle n, listening = False\<rparr>"

datatype accept_event = ExitSignal | AcceptErr | NewSocket

text \<open>\<open>Server.Stop\<close>: the connections, then the queues, then the listener.\<close>

definition server_Stop :: "Server \<Rightarrow> Server option" where
  "server_Stop s =
     (case ClearConn (ConnMgr s) of
        None \<Rightarrow> None
      | Some cm \<Rightarrow>
         (case mh_Stop (sv_handle s) of
            None \<Rightarrow> None
          | Some h \<Rightarrow> Some (s\<lparr>ConnMgr := cm, sv_handle := h, listening := False\<rparr>)))"

fun accept_loop :: "int \<Rightarrow> accept_event list \<Rightarrow> Server \<Rightarrow> Server option" where
  "accept_loop maxConn [] s = Some s"
| "accept_loop maxConn (ExitSignal # es) s = server_Stop s"
| "accept_loop maxConn (AcceptErr # es) s = accept_loop maxConn es s"
| "accept_loop maxConn (NewSocket # es) s =
     (case accept_conn maxConn (next_cid s, ConnMgr s) of
        None \<Rightarrow> None
      | Some (cid, cm) \<Rightarrow> accept_loop maxConn es (s\<lparr>next_cid := cid, ConnMgr := cm\<rparr>))"

definition server_Start :: "int \<Rightarrow> bool \<Rightarrow> accept_event list \<Rightarrow> Server \<Rightarrow> Server option" where
  "server_Start maxConn listen_ok es s =
     (let s1 = s\<lparr>sv_handle := StartWorkerPool (sv_handle s)\<rparr>
      in if listen_ok then accept_loop maxConn es (s1\<lparr>listening := True\<rparr>) else Some s1)"

text \<open>
  The identifiers of the connections are the first ones, in order; the loop accepts sockets up to the limit and closes the
  others.
\<close>

definition first_ids :: "nat \<Rightarrow> Server \<Rightarrow> bool" where
  "first_ids k s \<longleftrightarrow> map fst (connections (ConnMgr s)) = map word_of_nat [0..<k] \<and> next_cid s = word_of_nat k \<and>
     \<not> cm_locked (ConnMgr s) \<and> (\<forall>(i, c) \<in> set (connections (ConnMgr s)). \<not> stopped c)"

lemma update_fresh: "k \<notin> fst ` set xs \<Longrightarrow> AList.update k v xs = xs @ [(k, v)]"
  by (induction xs) auto

lemma accept_step:
  assumes "first_ids k s" and "k < 2 ^ 32" and "0 \<le> maxConn" and "k \<le> nat maxConn"
  shows "\<exists>cid cm. accept_conn maxConn (next_cid s, ConnMgr s) = Some (cid, cm) \<and>
     first_ids (min (Suc k) (nat maxConn)) (s\<lparr>next_cid := cid, ConnMgr := cm\<rparr>)"
proof (cases "k = nat maxConn")
  case True
  have "length (connections (ConnMgr s)) = k" using assms(1) by (metis first_ids_def length_map length_upt minus_nat.diff_0)
  then show ?thesis using True assms(1,3) by (simp add: accept_conn_def cm_Len_def)
next
  case False
  have len: "length (connections (ConnMgr s)) = k" using assms(1) by (metis first_ids_def length_map length_upt minus_nat.diff_0)
  have "(word_of_nat k :: 32 word) \<noteq> word_of_nat j" if "j < k" for j
  proof
    assume "(word_of_nat k :: 32 word) = word_of_nat j"
    then have "unat (word_of_nat k :: 32 word) = unat (word_of_nat j :: 32 word)" by (rule arg_cong)
    then show False using that assms(2) by (simp add: unat_of_nat)
  qed
  then have "(word_of_nat k :: 32 word) \<notin> set (map word_of_nat [0..<k])"
    by (metis (no_types, lifting) atLeastLessThan_iff imageE list.set_map set_upt)
  then have "next_cid s \<notin> fst ` set (connections (ConnMgr s))" using assms(1) unfolding first_ids_def by (metis image_set)
  then show ?thesis using False assms len
    by (auto simp: accept_conn_def cm_Len_def cm_Add_def cm_lock_def update_fresh first_ids_def NewConnection_def min_def)
qed

lemma accept_loop_ids:
  assumes "ExitSignal \<notin> set es" and "first_ids k s" and "k + length es < 2 ^ 32" and "0 \<le> maxConn" and "k \<le> nat maxConn"
  shows "\<exists>s'. accept_loop maxConn es s = Some s' \<and> first_ids (min (k + count_list es NewSocket) (nat maxConn)) s' \<and>
     listening s' = listening s \<and> sv_handle s' = sv_handle s"
  using assms
proof (induction es arbitrary: k s)
  case Nil
  then show ?case by (simp add: min_def)
next
  case (Cons e es)
  show ?case
  proof (cases e)
    case NewSocket
    obtain cid cm where a: "accept_conn maxConn (next_cid s, ConnMgr s) = Some (cid, cm)"
        "first_ids (min (Suc k) (nat maxConn)) (s\<lparr>next_cid := cid, ConnMgr := cm\<rparr>)"
      using accept_step [OF Cons.prems(2) _ Cons.prems(4,5)] Cons.prems(3) by auto
    let ?j = "min (Suc k) (nat maxConn)"
    have m: "min (?j + count_list es NewSocket) (nat maxConn) = min (k + count_list (e # es) NewSocket) (nat maxConn)"
      using NewSocket by (simp add: min_def)
    have "?j + length es < 2 ^ 32" "?j \<le> nat maxConn" using Cons.prems(3) by simp_all
    from Cons.IH [OF _ a(2) this(1) Cons.prems(4) this(2)] show ?thesis
      unfolding m using Cons.prems(1) NewSocket a(1) by simp
  qed (use Cons in auto)
qed

lemma accept_loop_append:
  "ExitSignal \<notin> set es \<Longrightarrow> accept_loop maxConn (es @ fs) s = Option.bind (accept_loop maxConn es s) (accept_loop maxConn fs)"
  by (induction maxConn es s rule: accept_loop.induct) (auto split: option.splits)

lemma server_Stop_blocks:
  assumes "first_ids k s" and "0 < k"
  shows "server_Stop s = None"
proof -
  have "connections (ConnMgr s) \<noteq> []" using assms by (auto simp: first_ids_def)
  then have "\<exists>(i, c) \<in> set (connections (ConnMgr s)). \<not> stopped c"
    using assms(1) by (cases "connections (ConnMgr s)") (auto simp: first_ids_def)
  from ClearConn_blocks [OF this] show ?thesis by (simp add: server_Stop_def)
qed

end
