(* ===== verification/Config.thy ===== *)
theory Config
  imports Prelude
begin

text \<open>
  \<open>config/global.go\<close>: the defaults, the configuration file, the command line and the environment, and the mode the
  server runs in. The working directory, the files and the environment are arguments; \<open>json.Unmarshal\<close> over the
  configuration and the base-0 integers of \<open>flag\<close> are arguments too. A panic is \<open>None\<close>. The fields \<open>TcpServer\<close>,
  never set, and \<open>MaxMemTableP\<close>, the bias of the skip list coins, are left out.
\<close>

section \<open>Defaults\<close>

definition ModeStandalone :: bytes where "ModeStandalone = ascii ''standalone''"
definition ModeRaft :: bytes where "ModeRaft = ascii ''raft''"

record GlobalConfig =
  g_Name :: bytes
  g_Port :: int
  g_Host :: bytes
  g_Version :: bytes
  g_WALPath :: bytes
  g_SSTablePath :: bytes
  g_MaxMemTableSize :: int
  g_MaxCompactionSize :: int
  g_MemTableMaxInflightBytes :: int
  g_MaxConn :: int
  g_MaxPackageSize :: "32 word"
  g_WorkerPoolSize :: "32 word"
  g_MaxWorkerTaskLen :: "32 word"
  g_MaxMsgChanLen :: "32 word"
  g_MaxMemTableLevel :: int
  g_Mode :: bytes
  g_Peers :: "bytes list"
  g_Me :: int
  g_RaftSnapshotThreshold :: int
  g_RaftSnapshotKeepEntries :: int

text \<open>A directory is the list of its components, outermost first; \<open>filepath.Dir\<close> drops the last one.\<close>

type_synonym path = "bytes list"

fun log_dir_from :: "(path \<Rightarrow> bool) \<Rightarrow> path \<Rightarrow> path option" where
  "log_dir_from has_mod [] = (if has_mod [] then Some [ascii ''log''] else None)"
| "log_dir_from has_mod (d # ds) =
     (case log_dir_from (\<lambda>p. has_mod (d # p)) ds of
        Some p \<Rightarrow> Some (d # p)
      | None \<Rightarrow> if has_mod [] then Some [ascii ''log''] else None)"

text \<open>\<open>defaultLogDir\<close>: the log directory beside the nearest \<open>go.mod\<close> at or above the working directory.\<close>

definition defaultLogDir :: "path option \<Rightarrow> (path \<Rightarrow> bool) \<Rightarrow> path option" where
  "defaultLogDir wd has_mod = (case wd of None \<Rightarrow> None | Some d \<Rightarrow> log_dir_from has_mod d)"

definition path_string :: "path option \<Rightarrow> bytes" where
  "path_string p = (case p of None \<Rightarrow> ascii ''log'' | Some ds \<Rightarrow> concat (map (\<lambda>d. ascii ''/'' @ d) ds))"

definition defaultGlobalConfig :: "path option \<Rightarrow> GlobalConfig" where
  "defaultGlobalConfig logDir =
     \<lparr>g_Name = ascii ''Raft'', g_Port = 8080, g_Host = ascii ''localhost'', g_Version = ascii ''1.0.0'',
      g_WALPath = path_string logDir @ ascii ''/wal.log'', g_SSTablePath = path_string logDir,
      g_MaxMemTableSize = 1024, g_MaxCompactionSize = 0, g_MemTableMaxInflightBytes = 64 * 2 ^ 20,
      g_MaxConn = 1000, g_MaxPackageSize = 16 * 2 ^ 20, g_WorkerPoolSize = 10, g_MaxWorkerTaskLen = 10000, g_MaxMsgChanLen = 100,
      g_MaxMemTableLevel = 32, g_Mode = [], g_Peers = [ascii ''localhost:8080''], g_Me = 0,
      g_RaftSnapshotThreshold = 1000, g_RaftSnapshotKeepEntries = 100\<rparr>"

section \<open>The configuration file\<close>

definition config_paths :: "bytes list" where
  "config_paths = [ascii ''config/config.json'', ascii ''../config/config.json'', ascii ''../../config/config.json'', ascii ''config.json'']"

fun read_first :: "(bytes \<Rightarrow> bytes option) \<Rightarrow> bytes list \<Rightarrow> bytes option" where
  "read_first files [] = None"
| "read_first files (p # ps) = (case files p of Some d \<Rightarrow> Some d | None \<Rightarrow> read_first files ps)"

text \<open>\<open>overlay\<close> is \<open>json.Unmarshal\<close> into the configuration: its second result is whether it succeeded.\<close>

definition config_Init :: "(bytes \<Rightarrow> bytes option) \<Rightarrow> (bytes \<Rightarrow> GlobalConfig \<Rightarrow> GlobalConfig \<times> bool) \<Rightarrow> GlobalConfig \<Rightarrow> GlobalConfig" where
  "config_Init files overlay g = (case read_first files config_paths of None \<Rightarrow> g | Some d \<Rightarrow> fst (overlay d g))"

section \<open>The command line\<close>

definition me_flag :: bytes where "me_flag = ascii ''-me''"
definition me_flag_eq :: bytes where "me_flag_eq = ascii ''-me=''"

fun meFlagArgs :: "bytes list \<Rightarrow> bytes list" where
  "meFlagArgs [] = []"
| "meFlagArgs [arg] = (if arg = me_flag \<or> take 4 arg = me_flag_eq then [arg] else [])"
| "meFlagArgs (arg # nxt # args) =
     (if arg = me_flag then arg # nxt # meFlagArgs args
      else if take 4 arg = me_flag_eq then arg # meFlagArgs (nxt # args)
      else meFlagArgs (nxt # args))"

text \<open>\<open>fs.Parse\<close> on such arguments: the value of \<open>-me\<close> so far; an error ends the parse and keeps it.\<close>

fun parse_me :: "(bytes \<Rightarrow> int option) \<Rightarrow> bytes list \<Rightarrow> int \<Rightarrow> int" where
  "parse_me parse0 [] v = v"
| "parse_me parse0 [arg] v =
     (if arg = me_flag then v
      else case parse0 (drop 4 arg) of None \<Rightarrow> v | Some i \<Rightarrow> i)"
| "parse_me parse0 (arg # nxt # args) v =
     (if arg = me_flag then (case parse0 nxt of None \<Rightarrow> v | Some i \<Rightarrow> parse_me parse0 args i)
      else case parse0 (drop 4 arg) of None \<Rightarrow> v | Some i \<Rightarrow> parse_me parse0 (nxt # args) i)"

definition resolveMode :: "GlobalConfig \<Rightarrow> GlobalConfig option" where
  "resolveMode g =
     (if g_Mode g = ModeStandalone \<or> g_Mode g = ModeRaft then Some g
      else if g_Mode g = [] then Some (g\<lparr>g_Mode := if 1 < length (g_Peers g) then ModeRaft else ModeStandalone\<rparr>)
      else None)"

text \<open>\<open>env_me\<close> is the environment variable \<open>RAFT_ME\<close>, \<open>atoi\<close> is \<open>strconv.Atoi\<close>.\<close>

definition ParseFlags ::
    "(bytes \<Rightarrow> int option) \<Rightarrow> (bytes \<Rightarrow> int option) \<Rightarrow> bytes list \<Rightarrow> bytes \<Rightarrow> GlobalConfig \<Rightarrow> GlobalConfig option" where
  "ParseFlags parse0 atoi args env_me g =
     (let v = parse_me parse0 (meFlagArgs args) (-1);
          g1 = (if 0 \<le> v then g\<lparr>g_Me := v\<rparr> else g);
          g2 = (if g_Me g1 < 0 \<and> env_me \<noteq> [] then (case atoi env_me of Some i \<Rightarrow> g1\<lparr>g_Me := i\<rparr> | None \<Rightarrow> g1) else g1)
      in case resolveMode g2 of
           None \<Rightarrow> None
         | Some g3 \<Rightarrow>
            (if g_Mode g3 = ModeStandalone then Some g3
             else if g_Me g3 < 0 \<or> int (length (g_Peers g3)) \<le> g_Me g3 then None
             else Some g3))"

definition NewGlobalConfig ::
    "path option \<Rightarrow> (path \<Rightarrow> bool) \<Rightarrow> (bytes \<Rightarrow> bytes option) \<Rightarrow> (bytes \<Rightarrow> GlobalConfig \<Rightarrow> GlobalConfig \<times> bool) \<Rightarrow>
     (bytes \<Rightarrow> int option) \<Rightarrow> (bytes \<Rightarrow> int option) \<Rightarrow> bytes list \<Rightarrow> bytes \<Rightarrow> GlobalConfig option" where
  "NewGlobalConfig wd has_mod files overlay parse0 atoi args env_me =
     ParseFlags parse0 atoi args env_me (config_Init files overlay (defaultGlobalConfig (defaultLogDir wd has_mod)))"

section \<open>What a finished configuration satisfies\<close>

definition config_valid :: "GlobalConfig \<Rightarrow> bool" where
  "config_valid g \<longleftrightarrow> g_Mode g = ModeStandalone \<or>
     g_Mode g = ModeRaft \<and> 0 \<le> g_Me g \<and> g_Me g < int (length (g_Peers g))"

lemma modes_distinct [simp]: "ModeRaft \<noteq> ModeStandalone" "ModeStandalone \<noteq> ModeRaft" "ModeRaft \<noteq> []" "ModeStandalone \<noteq> []"
  "[] \<noteq> ModeRaft" "[] \<noteq> ModeStandalone"
  by (simp_all add: ModeRaft_def ModeStandalone_def ascii_def)

lemma resolveMode_mode: "resolveMode g = Some g' \<Longrightarrow> g_Mode g' = ModeStandalone \<or> g_Mode g' = ModeRaft"
  by (auto simp: resolveMode_def split: if_splits)

lemma ParseFlags_valid: "ParseFlags parse0 atoi args env_me g = Some g' \<Longrightarrow> config_valid g'"
  by (auto simp: ParseFlags_def Let_def config_valid_def dest: resolveMode_mode split: option.splits if_splits)

text \<open>With a node index that is not negative, as the defaults have it, the environment does not matter.\<close>

lemma ParseFlags_env:
  assumes "0 \<le> g_Me g"
  shows "ParseFlags parse0 atoi args env1 g = ParseFlags parse0 atoi args env2 g"
  using assms by (simp add: ParseFlags_def Let_def)

end
