(* ===== verification/NetClaims.thy ===== *)
theory NetClaims
  imports ServerClaims Workers Config
begin

text \<open>
  The properties of the protocol, of the connection layer and of the configuration.
\<close>

section \<open>The protocol\<close>

text \<open>
  C20. A stream of frames, the last one perhaps cut off, is read as exactly the messages that were packed, in order;
  the reader always stops, at the end or at the cut.
\<close>

theorem frames_delivered:
  assumes "\<forall>m \<in> set ms. frame_fits mx m" and "frame_prefix mx t"
  shows "\<exists>e. StartReader mx (concat (map frame ms) @ t) 0 = (map received ms, ReadErr e) \<and>
    (\<forall>m \<in> set ms. Pack (NewMessage (fst m) (snd m)) = Inr (frame m))"
  using StartReader_frames [of _ "[]" ms t mx] assms Pack_frame [of mx] by auto

theorem frames_delivered_witness:
  "\<exists>e. StartReader 1024 (concat (map frame [(MsgGet, [1]), (MsgPut, [])]) @ take 5 (frame (MsgGet, [2]))) 0 =
     ([received (MsgGet, [1]), received (MsgPut, [])], ReadErr e)"
proof -
  have "frame_prefix 1024 (take 5 (frame (MsgGet, [2])))" unfolding frame_prefix_def
    by (intro exI [of _ "(MsgGet, [2])"] exI [of _ 5]) (simp add: frame_fits_def frame_def)
  moreover have "\<forall>m \<in> set [(MsgGet, [1]), (MsgPut, [])]. frame_fits 1024 m" by (simp add: frame_fits_def)
  ultimately show ?thesis using frames_delivered [of "[(MsgGet, [1]), (MsgPut, [])]" 1024] by auto
qed

text \<open>C21. Scan requests and scan responses are decoded as they were encoded.\<close>

theorem scan_codec:
  assumes "request_fits r" and "length status < 256" and "length es < 2 ^ 32" and "\<forall>e \<in> set es. entry_codable e"
  shows "DecodeScanRequest (EncodeScanRequest r) = Some r \<and> DecodeScanResponse (EncodeScanResponse status es) = Inr (status, es)"
  using DecodeScanRequest_Encode [OF assms(1)] DecodeScanResponse_Encode [OF assms(2-4)] by blast

definition scan0 :: ScanRequest where
  "scan0 = \<lparr>sr_Start = ka, sr_End = [], sr_Pred = \<lparr>pr_Field = ascii ''az'', pr_Op = OpGT, pr_Operand = ascii ''9''\<rparr>\<rparr>"

theorem scan_codec_witness:
  "DecodeScanRequest (EncodeScanRequest scan0) = Some scan0 \<and>
   DecodeScanResponse (EncodeScanResponse StatusOK [(ka, [1]), (kb, [])]) = Inr (StatusOK, [(ka, [1]), (kb, [])])"
  by (rule scan_codec) (simp_all add: request_fits_def scan0_def ascii_def entry_codable_def)

section \<open>The ingest filter\<close>


lemma json_ok_jv0: "json_ok jv0"
proof -
  have "masked flds [ascii ''gps'' \<mapsto> x] = [ascii ''gps'' \<mapsto> y]"
    if "y = (if ascii ''gps'' \<in> set flds then redactedValue else x)" for flds x y
    using that by (auto simp: masked_def fun_eq_iff)
  then have pr: "print_object jv0 (masked flds [ascii ''gps'' \<mapsto> x]) \<noteq> None" for flds x
    by (simp add: jv0_def)
  have "print_object jv0 m = Some out \<Longrightarrow> parse_object jv0 out = Some m" for m out
    by (auto simp: jv0_def split: option.splits if_splits)
  moreover have "print_object jv0 (masked flds obj) \<noteq> None" if "parse_object jv0 v = Some obj" for v obj flds
  proof -
    have "\<exists>x. obj = [ascii ''gps'' \<mapsto> x]" using that by (auto simp: jv0_def split: list.splits if_splits)
    then show ?thesis using pr by blast
  qed
  moreover have "json_compact jv0 = id" by (simp add: jv0_def)
  ultimately show ?thesis unfolding json_ok_def by (simp add: option.map_id)
qed

definition gps_put :: "bytes \<Rightarrow> Request" where
  "gps_put key = \<lparr>rq_msg = received (MsgPut, encodePut key [123, 9]), rq_conn = 1\<rparr>"


section \<open>Connections\<close>





text \<open>
  C39. The server accepts exactly the sockets up to the limit and keeps listening; but once there is a connection the
  exit signal never ends it: \<open>ClearConn\<close> holds the manager's lock while it stops the connections, and the first call of
  \<open>Stop\<close> on one takes the same lock to remove it (\<open>ConnManager.go\<close>, lines 47 to 55).
\<close>

theorem clear_conn_deadlock:
  assumes "ExitSignal \<notin> set es" and "length es < 2 ^ 32" and "0 \<le> mx"
  shows "\<exists>s. server_Start mx True es (NewServer n) = Some s \<and> listening s \<and>
      cm_Len (ConnMgr s) = min (int (count_list es NewSocket)) mx \<and>
      (0 < count_list es NewSocket \<and> 0 < mx \<longrightarrow> server_Start mx True (es @ [ExitSignal]) (NewServer n) = None)"
proof -
  let ?s = "(NewServer n)\<lparr>sv_handle := StartWorkerPool (sv_handle (NewServer n)), listening := True\<rparr>"
  have "first_ids 0 ?s" by (simp add: first_ids_def NewServer_def NewConnManager_def)
  from accept_loop_ids [OF assms(1) this, of mx] assms(2,3) obtain s where
    s: "accept_loop mx es ?s = Some s" "first_ids (min (count_list es NewSocket) (nat mx)) s" "listening s" by auto
  have "length (connections (ConnMgr s)) = min (count_list es NewSocket) (nat mx)"
    using s(2) by (metis first_ids_def length_map length_upt minus_nat.diff_0)
  then have "cm_Len (ConnMgr s) = min (int (count_list es NewSocket)) mx" using assms(3) by (simp add: cm_Len_def)
  moreover have "accept_loop mx (es @ [ExitSignal]) ?s = None" if "0 < count_list es NewSocket" "0 < mx"
    using s(1) accept_loop_append [OF assms(1)] server_Stop_blocks [OF s(2)] that by simp
  ultimately show ?thesis using s by (simp add: server_Start_def Let_def)
qed

theorem clear_conn_deadlock_witness:
  "\<exists>s. server_Start 1 True [AcceptErr, NewSocket, NewSocket] (NewServer 10) = Some s \<and> cm_Len (ConnMgr s) = 1 \<and>
     server_Start 1 True [AcceptErr, NewSocket, NewSocket, ExitSignal] (NewServer 10) = None"
  using clear_conn_deadlock [of "[AcceptErr, NewSocket, NewSocket]" 1 10] by auto

section \<open>The worker pool\<close>

text \<open>
  C28. Whatever the interleaving of senders, workers and shutdown, each worker finishes the requests it was given in
  that order, none twice and none lost: the others are the one in its hands and those in its queue, which stays within
  its capacity. A worker that has ended has finished all of them.
\<close>

theorem pool_order:
  assumes "prun cap n es p" and "i < unat n"
  shows "concat (map (accepted_by i) es) =
      concat (map (finished_by i) es) @ in_hand (wk p ! i) @ chan_items (TaskQueue (mh p) ! i) \<and>
    length (chan_items (TaskQueue (mh p) ! i)) \<le> cap \<and>
    (wk p ! i = Gone \<longrightarrow> concat (map (accepted_by i) es) = concat (map (finished_by i) es))"
  using prun_inv [OF assms(1)] assms(2) by (auto simp: pool_inv_def)

definition req0 :: "32 word \<Rightarrow> Request" where
  "req0 i = \<lparr>rq_msg = received (MsgGet, []), rq_conn = i\<rparr>"

text \<open>Two workers with queues of one: the third request of connection 4 is stolen by the other worker.\<close>

lemma demo_pool:
  "\<exists>p. prun 1 2 [Accept 0 (req0 4), Silent, Accept 0 (req0 4), Accept 1 (req0 4)] p"
proof -
  let ?p0 = "pool_init 2"
  let ?p1 = "?p0\<lparr>mh := chan_put 0 (req0 4) (mh ?p0)\<rparr>"
  let ?p2 = "?p1\<lparr>mh := (mh ?p1)\<lparr>TaskQueue := (TaskQueue (mh ?p1))[0 := Open []]\<rparr>, wk := (wk ?p1)[0 := Busy (req0 4)]\<rparr>"
  let ?p3 = "?p2\<lparr>mh := chan_put 0 (req0 4) (mh ?p2)\<rparr>"
  have "SendMsgToTaskQueue 1 (req0 4) (mh ?p0) = Queued 0" by code_simp
  then have r1: "prun 1 2 [Accept 0 (req0 4)] ?p1" using prun_step [OF prun_init] pstep.send by fastforce
  have "pstep 1 Silent ?p1 ?p2" by (rule pstep.recv) code_simp+
  then have r2: "prun 1 2 [Accept 0 (req0 4), Silent] ?p2" using prun_step [OF r1] by simp
  have "SendMsgToTaskQueue 1 (req0 4) (mh ?p2) = Queued 0" by code_simp
  then have r3: "prun 1 2 [Accept 0 (req0 4), Silent, Accept 0 (req0 4)] ?p3" using prun_step [OF r2] pstep.send by fastforce
  have "SendMsgToTaskQueue 1 (req0 4) (mh ?p3) = Queued 1" by code_simp
  then show ?thesis using prun_step [OF r3] pstep.send by fastforce
qed

theorem pool_order_witness:
  "\<exists>p. prun 1 2 [Accept 0 (req0 4), Silent, Accept 0 (req0 4), Accept 1 (req0 4)] p \<and>
     [req0 4, req0 4] = in_hand (wk p ! 0) @ chan_items (TaskQueue (mh p) ! 0) \<and> length (chan_items (TaskQueue (mh p) ! 0)) \<le> 1"
proof -
  obtain p where p: "prun 1 2 [Accept 0 (req0 4), Silent, Accept 0 (req0 4), Accept 1 (req0 4)] p" using demo_pool by blast
  from pool_order [OF p, of 0] p show ?thesis by auto
qed

section \<open>Configuration\<close>

text \<open>
  C25. A configuration that is finished without a panic has one of the two modes, and in Raft mode a node index that
  names one of the peers; and as long as the file does not set a negative index, the environment variable
  \<open>RAFT_ME\<close> has no effect (\<open>global.go\<close>, lines 172 to 179, with the default of line 117).
\<close>

theorem config_checked:
  assumes "NewGlobalConfig wd has_mod files overlay parse0 atoi args env_me = Some g"
  shows "config_valid g \<and>
    (0 \<le> g_Me (config_Init files overlay (defaultGlobalConfig (defaultLogDir wd has_mod))) \<longrightarrow>
       NewGlobalConfig wd has_mod files overlay parse0 atoi args env_me' = Some g)"
  using assms ParseFlags_valid ParseFlags_env [of _ parse0 atoi args env_me' env_me] unfolding NewGlobalConfig_def by metis

theorem config_checked_witness:
  "\<exists>g. NewGlobalConfig None (\<lambda>_. False) (\<lambda>_. None) (\<lambda>_ g. (g, True)) ParseInt ParseInt [] (ascii ''2'') = Some g \<and>
     config_valid g \<and> g_Me g = 0"
proof -
  let ?g = "(defaultGlobalConfig None)\<lparr>g_Mode := ModeStandalone\<rparr>"
  have g: "NewGlobalConfig None (\<lambda>_. False) (\<lambda>_. None) (\<lambda>_ g. (g, True)) ParseInt ParseInt [] (ascii ''2'') = Some ?g"
    by (simp add: NewGlobalConfig_def ParseFlags_def config_Init_def config_paths_def defaultLogDir_def resolveMode_def defaultGlobalConfig_def Let_def)
  from config_checked [OF g] g show ?thesis by (simp add: defaultGlobalConfig_def)
qed

end
