(* ===== verification/Bench.thy ===== *)
theory Bench
  imports Replicated "HOL-Library.Signed_Division"
begin

text \<open>
  The load generator of \<open>grpc_benchmark\<close> (\<open>stats.go\<close>, \<open>runner.go\<close>) in front of the gRPC client: what it measures, and the keys and
  operations it sends. The clock, the random numbers and the products of floating-point numbers are arguments; the rates
  (\<open>QPS\<close>, \<open>SuccessRate\<close>) are floating-point quotients of the counters below and are left out.
\<close>

section \<open>Statistics\<close>

record Stats =
  latencies :: "int list"
  totalOps :: int
  totalErrs :: int
  startTime :: int
  endTime :: int

definition NewStats :: Stats where
  "NewStats = \<lparr>latencies = [], totalOps = 0, totalErrs = 0, startTime = 0, endTime = 0\<rparr>"

definition stats_Start :: "int \<Rightarrow> Stats \<Rightarrow> Stats" where
  "stats_Start now s = s\<lparr>startTime := now\<rparr>"

definition stats_Stop :: "int \<Rightarrow> Stats \<Rightarrow> Stats" where
  "stats_Stop now s = s\<lparr>endTime := now\<rparr>"

definition Record :: "int \<Rightarrow> bool \<Rightarrow> Stats \<Rightarrow> Stats" where
  "Record duration failed s = s\<lparr>totalOps := totalOps s + 1, totalErrs := totalErrs s + (if failed then 1 else 0),
     latencies := latencies s @ [duration]\<rparr>"

text \<open>The sum of the durations wraps at 64 bits, and the quotient is truncated.\<close>

definition wrap64 :: "int \<Rightarrow> int" where
  "wrap64 i = (i + 2 ^ 63) mod 2 ^ 64 - 2 ^ 63"

definition AvgLatency :: "Stats \<Rightarrow> int" where
  "AvgLatency s =
     (if latencies s = [] then 0
      else foldl (\<lambda>sum l. wrap64 (sum + l)) 0 (latencies s) sdiv int (length (latencies s)))"

definition MaxLatency :: "Stats \<Rightarrow> int" where
  "MaxLatency s = foldl (\<lambda>mx l. if mx < l then l else mx) 0 (latencies s)"

text \<open>\<open>fidx n\<close> is \<open>int(float64(n) * p)\<close>. A negative index panics.\<close>

definition percentile :: "(nat \<Rightarrow> int) \<Rightarrow> Stats \<Rightarrow> int option" where
  "percentile fidx s =
     (let sorted = sort (latencies s); n = length sorted
      in if sorted = [] then Some 0
         else let idx = (if int n \<le> fidx n then int n - 1 else fidx n)
           in if idx < 0 then None else Some (sorted ! nat idx))"

section \<open>Keys and operations\<close>

definition hex_digit :: "nat \<Rightarrow> 8 word" where
  "hex_digit n = of_nat (if n < 10 then 48 + n else 87 + n)"

fun hex_digits :: "nat \<Rightarrow> bytes" where
  "hex_digits n = (if n < 16 then [hex_digit n] else hex_digits (n div 16) @ [hex_digit (n mod 16)])"

declare hex_digits.simps [simp del]

definition makeKey :: "nat \<Rightarrow> nat \<Rightarrow> bytes" where
  "makeKey idx keySize = (let s = hex_digits idx in replicate (keySize - length s) 48 @ s)"

text \<open>\<open>r\<close> is the random number below 100, \<open>pct\<close> is \<open>int64(ReadRatio*100)\<close>.\<close>

definition chooseOp :: "string \<Rightarrow> int \<Rightarrow> int \<Rightarrow> string" where
  "chooseOp mode pct r =
     (if mode = ''put'' then ''put''
      else if mode = ''get'' then ''get''
      else if mode = ''delete'' then ''delete''
      else if mode = ''mixed'' then if r < pct then ''get'' else ''put''
      else ''put'')"

section \<open>The phases\<close>

record BenchConfig =
  KeySize :: nat
  ValueSize :: nat
  KeyCount :: nat
  ReadPct :: int
  BenchMode :: string
  Warmup :: int

text \<open>What one turn of a worker draws and meets: the key, the random number, the state of the link, the time it takes.\<close>

record Draw =
  d_key :: nat
  d_rnd :: int
  d_link :: link
  d_time :: int

text \<open>The server the calls go to.\<close>

record Target =
  t_wire :: "bytes \<Rightarrow> bytes option"
  t_rcfg :: RaftConfig
  t_js :: Json
  t_io :: file_io

definition send_op :: "Target \<Rightarrow> string \<Rightarrow> link \<Rightarrow> bytes \<Rightarrow> bytes \<Rightarrow> KVServer \<Rightarrow> (bool \<times> KVServer) option" where
  "send_op t op lk key v s =
     (if op = ''put'' then map_option (\<lambda>(r, s'). (isl r, s')) (gc_Put lk (t_wire t) (t_rcfg t) (t_js t) (t_io t) key v s)
      else if op = ''get'' then map_option (\<lambda>(r, s'). (isl r, s')) (gc_Get lk key s)
      else if op = ''delete'' then map_option (\<lambda>(r, s'). (isl r, s')) (gc_Delete lk (t_rcfg t) (t_js t) (t_io t) key s)
      else Some (False, s))"

text \<open>The turns of all workers of a phase, in the order in which they end; without statistics in the warm-up.\<close>

fun workerLoop :: "Target \<Rightarrow> BenchConfig \<Rightarrow> Draw list \<Rightarrow> Stats option \<times> KVServer \<Rightarrow> (Stats option \<times> KVServer) option" where
  "workerLoop t cfg [] st = Some st"
| "workerLoop t cfg (d # ds) (stats, s) =
     (case send_op t (chooseOp (BenchMode cfg) (ReadPct cfg) (d_rnd d)) (d_link d) (makeKey (d_key d) (KeySize cfg))
             (replicate (ValueSize cfg) 0) s of
        None \<Rightarrow> None
      | Some (failed, s') \<Rightarrow> workerLoop t cfg ds (map_option (Record (d_time d) failed) stats, s'))"

text \<open>
  \<open>prePopulate\<close>: the workers with a connection share the keys; the puts end in the order \<open>ds\<close>. Without such a worker no key is
  taken from the channel. The times of its own statistics are only printed.
\<close>

fun populate :: "Target \<Rightarrow> BenchConfig \<Rightarrow> Draw list \<Rightarrow> Stats \<times> KVServer \<Rightarrow> (Stats \<times> KVServer) option" where
  "populate t cfg [] st = Some st"
| "populate t cfg (d # ds) (stats, s) =
     (case send_op t ''put'' (d_link d) (makeKey (d_key d) (KeySize cfg)) (replicate (ValueSize cfg) 0) s of
        None \<Rightarrow> None
      | Some (failed, s') \<Rightarrow> populate t cfg ds (Record (d_time d) failed stats, s'))"

definition prePopulate :: "Target \<Rightarrow> BenchConfig \<Rightarrow> bool list \<Rightarrow> Draw list \<Rightarrow> KVServer \<Rightarrow> ((int + Stats) \<times> KVServer) option" where
  "prePopulate t cfg conns ds s =
     map_option (\<lambda>(stats, s'). (if 0 < totalErrs stats then Inl (totalErrs stats) else Inr stats, s'))
       (if \<exists>c \<in> set conns. c then populate t cfg ds (NewStats, s) else Some (NewStats, s))"

definition bench_Run ::
    "Target \<Rightarrow> BenchConfig \<Rightarrow> bool list \<Rightarrow> Draw list \<Rightarrow> Draw list \<Rightarrow> Draw list \<Rightarrow> int \<Rightarrow> int \<Rightarrow> KVServer \<Rightarrow> ((int + Stats) \<times> KVServer) option" where
  "bench_Run t cfg conns pre warm main t0 t1 s =
     (case (if BenchMode cfg \<in> {''get'', ''mixed'', ''delete''} then prePopulate t cfg conns pre s else Some (Inr NewStats, s)) of
        None \<Rightarrow> None
      | Some (Inl e, s1) \<Rightarrow> Some (Inl e, s1)
      | Some (Inr _, s1) \<Rightarrow>
         (case (if 0 < Warmup cfg then workerLoop t cfg warm (None, s1) else Some (None, s1)) of
            None \<Rightarrow> None
          | Some (_, s2) \<Rightarrow>
             (case workerLoop t cfg main (Some (stats_Start t0 NewStats), s2) of
                None \<Rightarrow> None
              | Some (None, s3) \<Rightarrow> None
              | Some (Some stats, s3) \<Rightarrow> Some (Inr (stats_Stop t1 stats), s3))))"

section \<open>Properties\<close>

text \<open>A key determines its index, so that the keys of a run are distinct.\<close>

definition hex_val :: "8 word \<Rightarrow> nat" where
  "hex_val c = (if c < 58 then unat c - 48 else unat c - 87)"

definition key_index :: "bytes \<Rightarrow> nat" where
  "key_index ks = foldl (\<lambda>a c. 16 * a + hex_val c) 0 ks"

lemma hex_val_digit: "n < 16 \<Longrightarrow> hex_val (hex_digit n) = n"
  by (simp add: hex_val_def hex_digit_def word_less_nat_alt unat_of_nat)

lemma key_index_digits: "key_index (hex_digits n) = n"
proof (induction n rule: hex_digits.induct)
  case (1 n)
  then show ?case
    by (subst hex_digits.simps) (auto simp: key_index_def hex_val_digit)
qed

lemma key_index_zeros: "foldl (\<lambda>a c. 16 * a + hex_val c) 0 (replicate k 48) = 0"
  by (induction k) (simp_all add: hex_val_def)

lemma key_index_makeKey: "key_index (makeKey idx keySize) = idx"
  using key_index_digits [of idx] by (simp add: makeKey_def Let_def key_index_def key_index_zeros)

lemma makeKey_inj: "makeKey i k = makeKey j k' \<Longrightarrow> i = j"
  by (metis key_index_makeKey)

text \<open>The percentile is an element of the list with \<open>idx\<close> elements at most below it and more than \<open>idx\<close> up to it.\<close>

lemma percentile_rank:
  assumes "latencies s \<noteq> []" and "0 \<le> fidx (length (latencies s))"
  defines "k \<equiv> min (nat (fidx (length (latencies s)))) (length (latencies s) - 1)"
  shows "\<exists>x. percentile fidx s = Some x \<and> x \<in> set (latencies s) \<and>
     length (filter (\<lambda>l. l < x) (latencies s)) \<le> k \<and> k < length (filter (\<lambda>l. l \<le> x) (latencies s))"
proof -
  let ?xs = "latencies s" and ?ys = "sort (latencies s)"
  have "0 < length ?xs" using assms(1) by simp
  then have k: "k < length ?ys" unfolding k_def length_sort by linarith
  have p: "percentile fidx s = Some (?ys ! k)"
  proof -
    have "sort ?xs \<noteq> []" using assms(1) by (metis length_0_conv length_sort)
    moreover have "nat (int m - 1) = m - Suc 0" for m by simp
    ultimately show ?thesis using assms(1,2) by (auto simp: percentile_def k_def Let_def min_def)
  qed
  have f: "length (filter P ?xs) = length (filter P ?ys)" for P by (metis mset_filter mset_sort size_mset)
  have "filter (\<lambda>l. l < ?ys ! k) ?ys = filter (\<lambda>l. l < ?ys ! k) (take k ?ys)"
  proof -
    have "?ys ! k \<le> ?ys ! (k + i)" if "i < length ?xs - k" for i
      using that by (intro sorted_nth_mono [OF sorted_sort]) simp_all
    then have "filter (\<lambda>l. l < ?ys ! k) (drop k ?ys) = []" by (auto simp: filter_empty_conv in_set_conv_nth not_less)
    then show ?thesis by (metis append_Nil2 append_take_drop_id filter_append)
  qed
  then have below: "length (filter (\<lambda>l. l < ?ys ! k) ?ys) \<le> k" using length_filter_le [of _ "take k ?ys"] k by fastforce
  have "filter (\<lambda>l. l \<le> ?ys ! k) (take (Suc k) ?ys) = take (Suc k) ?ys"
    using k sorted_nth_mono [OF sorted_sort, of _ k] by (auto simp: filter_id_conv in_set_conv_nth less_Suc_eq_le)
  then have "Suc k \<le> length (filter (\<lambda>l. l \<le> ?ys ! k) ?ys)"
    using k by (metis append_take_drop_id filter_append le_add1 length_append length_take min.absorb2 Suc_leI)
  then show ?thesis using p below k f by (metis Suc_le_eq nth_mem set_sort)
qed

text \<open>Without overflow the average lies between the smallest and the largest duration.\<close>

lemma wrap64_id: "- (2 ^ 63) \<le> i \<Longrightarrow> i < 2 ^ 63 \<Longrightarrow> wrap64 i = i"
  by (simp add: wrap64_def)

lemma wrapped_sum:
  assumes "\<forall>l \<in> set xs. 0 \<le> l" and "0 \<le> a" and "a + sum_list xs < 2 ^ 63"
  shows "foldl (\<lambda>sum l. wrap64 (sum + l)) a xs = a + sum_list xs"
  using assms
proof (induction xs arbitrary: a)
  case (Cons x xs)
  then have "0 \<le> sum_list xs" by (simp add: sum_list_nonneg)
  then have "wrap64 (a + x) = a + x" using Cons.prems by (intro wrap64_id) auto
  then show ?case using Cons by simp
qed simp

lemma AvgLatency_bounds:
  assumes "latencies s \<noteq> []" and "\<forall>l \<in> set (latencies s). lo \<le> l \<and> l \<le> hi" and "0 \<le> lo" and "sum_list (latencies s) < 2 ^ 63"
  shows "lo \<le> AvgLatency s \<and> AvgLatency s \<le> hi"
proof -
  let ?xs = "latencies s"
  have n: "0 < int (length ?xs)" using assms(1) by simp
  have b: "lo * int (length xs) \<le> sum_list xs \<and> sum_list xs \<le> hi * int (length xs)" if "\<forall>l \<in> set xs. lo \<le> l \<and> l \<le> hi" for xs
    using that by (induction xs) (auto simp: algebra_simps)
  have s0: "0 \<le> sum_list ?xs" using assms(2,3) by (intro sum_list_nonneg) auto
  have "foldl (\<lambda>sum l. wrap64 (sum + l)) 0 ?xs = sum_list ?xs"
    using wrapped_sum [of ?xs 0] assms(2,3,4) by fastforce
  then have "AvgLatency s = sum_list ?xs div int (length ?xs)"
    using assms(1) n s0 by (simp add: AvgLatency_def signed_divide_int_def sgn_if)
  moreover have "lo \<le> sum_list ?xs div int (length ?xs)"
    using zdiv_mono1 [of "lo * int (length ?xs)" "sum_list ?xs" "int (length ?xs)"] b [OF assms(2)] n by simp
  moreover have "sum_list ?xs div int (length ?xs) \<le> hi"
    using zdiv_mono1 [of "sum_list ?xs" "hi * int (length ?xs)" "int (length ?xs)"] b [OF assms(2)] n by simp
  ultimately show ?thesis by simp
qed

text \<open>Every operation of the measured phase is counted once, with its latency.\<close>

definition counted :: "nat \<Rightarrow> Stats \<Rightarrow> bool" where
  "counted n st \<longleftrightarrow> totalOps st = int n \<and> length (latencies st) = n \<and> 0 \<le> totalErrs st \<and> totalErrs st \<le> totalOps st"

lemma counted_Record: "counted n st \<Longrightarrow> counted (Suc n) (Record d failed st)"
  by (auto simp: counted_def Record_def)

lemma workerLoop_counts:
  "workerLoop t cfg ds (Some st, s) = Some (st', s') \<Longrightarrow> counted n st \<Longrightarrow> \<exists>st1. st' = Some st1 \<and> counted (n + length ds) st1"
proof (induction ds arbitrary: n st s)
  case (Cons d ds)
  from Cons.prems(1) obtain f s1 where "workerLoop t cfg ds (Some (Record (d_time d) f st), s1) = Some (st', s')"
    by (auto split: option.splits)
  from Cons.IH [OF this counted_Record [OF Cons.prems(2)]] show ?case by simp
qed auto

theorem bench_counts:
  assumes "bench_Run t cfg conns pre warm main t0 t1 s = Some (Inr st, s')"
  shows "totalOps st = int (length main) \<and> length (latencies st) = length main \<and> 0 \<le> totalErrs st \<and> totalErrs st \<le> totalOps st"
proof -
  obtain st1 s2 s3 where w: "workerLoop t cfg main (Some (stats_Start t0 NewStats), s2) = Some (Some st1, s3)" "st = stats_Stop t1 st1"
    using assms by (auto simp: bench_Run_def split: option.splits sum.splits prod.splits if_splits)
  have "counted 0 (stats_Start t0 NewStats)" by (simp add: counted_def stats_Start_def NewStats_def)
  from workerLoop_counts [OF w(1) this] show ?thesis by (simp add: w(2) counted_def stats_Stop_def)
qed

text \<open>A population that succeeds has sent one put for each key, none of which failed.\<close>

lemma populate_counts: "populate t cfg ds (st, s) = Some (st', s') \<Longrightarrow> counted n st \<Longrightarrow> counted (n + length ds) st'"
proof (induction ds arbitrary: n st s)
  case (Cons d ds)
  from Cons.prems(1) obtain f s1 where "populate t cfg ds (Record (d_time d) f st, s1) = Some (st', s')"
    by (auto split: option.splits)
  from Cons.IH [OF this counted_Record [OF Cons.prems(2)]] show ?case by simp
qed auto

theorem populate_all:
  assumes "prePopulate t cfg conns ds s = Some (Inr st, s')" and "True \<in> set conns" and "mset (map d_key ds) = mset [0..<KeyCount cfg]"
  shows "totalOps st = int (KeyCount cfg) \<and> totalErrs st = 0 \<and> distinct (map (\<lambda>d. makeKey (d_key d) (KeySize cfg)) ds)"
proof -
  have p: "populate t cfg ds (NewStats, s) = Some (st, s')" "\<not> 0 < totalErrs st"
    using assms(1,2) by (auto simp: prePopulate_def split: if_splits)
  have "counted 0 NewStats" by (simp add: counted_def NewStats_def)
  from populate_counts [OF p(1) this] p(2) have "totalOps st = int (length ds)" "totalErrs st = 0" by (auto simp: counted_def)
  moreover have "length ds = KeyCount cfg" using arg_cong [OF assms(3), of size] by simp
  moreover have "distinct (map d_key ds)" using assms(3) by (metis distinct_upt mset_eq_imp_distinct_iff)
  then have "distinct (map (\<lambda>i. makeKey i (KeySize cfg)) (map d_key ds))"
    by (simp only: distinct_map) (auto simp: inj_on_def dest: makeKey_inj)
  ultimately show ?thesis by (simp add: comp_def)
qed

text \<open>When no worker can connect, the population reports success without having written a key (\<open>runner.go\<close>, lines 77 to 98).\<close>

theorem populate_nothing:
  "\<forall>c \<in> set conns. \<not> c \<Longrightarrow> prePopulate t cfg conns ds s = Some (Inr NewStats, s)"
  by (auto simp: prePopulate_def NewStats_def)

end
