(* ===== verification/Spec2Isabelle.thy ===== *)
theory Spec2Isabelle
  imports CompactClaims ClusterClaims ServiceClaims NetClaims Bench
begin

text \<open>
  BanDB, a key-value store in Go: an LSM storage engine behind a write-ahead log (standalone mode) or behind Raft
  (cluster mode), a TCP protocol with an ingest filter in front of it, and a client. This development models the program
  component by component and proves what each promises to the next.

  \<^bold>\<open>The program.\<close> A client (\<open>client/\<close>) packs a request into a frame (\<open>network/banNet/DataPack.go\<close>). The server's reader
  (\<open>connection.go\<close>) turns the byte stream into messages, \<open>msgHandle.go\<close> queues and dispatches them to the router
  (\<open>service/router.go\<close>), whose pre-handler is the ingest filter (\<open>service/ingesthook/filter.go\<close>). Writes go to the key-value
  server (\<open>service/fsm.go\<close>): to the write-ahead log (\<open>storage/wal.go\<close>) and the memtable, or through a Raft node (\<open>Raft/\<close>)
  whose committed entries an apply loop feeds to the memtable. The memtable (\<open>storage/zstorage/memtable.go\<close>) is an active
  and a dirty skip list with byte credits (\<open>pkg/credit\<close>) as back-pressure; a flush worker writes table files (\<open>SSTable.go\<close>)
  with block index and partitioned bloom filter, and a compaction merges them level by level.

  \<^bold>\<open>The theories.\<close>
  \<^item> \<open>Prelude\<close>: bytes, integer codecs, reading a file image, sorted association lists, decimal numbers; the collections
    \<open>codec_simps\<close>, \<open>read_simps\<close>, \<open>sorted_alist_simps\<close>.
  \<^item> \<open>SkipList\<close> (\<open>memtable.go\<close>): the linked skip list on a heap of nodes; the locale \<open>ordered_table\<close> is its contract, interpreted
    on the code's insert, search, collect. \<open>Credit\<close> (\<open>credit.go\<close>). \<open>Bloom\<close> (\<open>bloom.go\<close>, \<open>partitioned_bloom.go\<close>): hashing in
    64-bit words, no false negatives, encoding.
  \<^item> \<open>SSTable\<close>, \<open>TableStore\<close> (\<open>SSTable.go\<close>, \<open>istorage/Entry.go\<close>): byte-exact files, readers, caches, the list of tables.
    \<open>MergeIter\<close>, \<open>MergeCorrect\<close> (\<open>iterator.go\<close>, \<open>merge_iterator.go\<close>, \<open>MergeSSTable\<close>): the k-way merge; the locale
    \<open>priority_queue\<close> is the contract of \<open>container/heap\<close>, interpreted on the array heap.
  \<^item> \<open>MemTable\<close>, \<open>MemCorrect\<close>, \<open>MemScan\<close>, \<open>MemSystem\<close>, \<open>Compaction\<close>, \<open>Restart\<close>: the memtable, its invariant \<open>mem_ok\<close> and view \<open>raw_view\<close>;
    \<open>MemSystem\<close> has writers, readers and the flush worker as a step relation \<open>mstep\<close> whose steps are the code's lock
    sections. The locale \<open>table_store\<close> is what the memtable relies on of the tables. \<open>Compactor\<close> adds the compaction goroutine and
    snapshot replays to these interleavings, with the steps \<open>lstep\<close>.
  \<^item> \<open>WAL\<close> (\<open>wal.go\<close>) and \<open>RaftWAL\<close> (\<open>raft_wal.go\<close>): byte-exact logs with writes that stop after any number of bytes.
  \<^item> \<open>Raft\<close> (\<open>raft.go\<close>, \<open>rpc.go\<close>): every handler of a node; \<open>RaftCorrect\<close>, \<open>RaftVotes\<close>, \<open>RaftLog\<close>: log merging, votes over runs with
    crashes, files. \<open>Cluster\<close> has the calls between nodes, whole elections and rounds of replication; \<open>ClusterCorrect\<close> follows a
    cluster of which some peers are reached, with the invariant \<open>in_step\<close>.
  \<^item> \<open>Server\<close> (\<open>fsm.go\<close>, \<open>engine.go\<close>), \<open>Standalone\<close>: the server in both modes; the locale \<open>write_store\<close> is what it relies on of
    the memtable; \<open>sstep\<close> interleaves the two halves of standalone writes. \<open>Replicated\<close>: the apply loop on delivered commands, the gRPC client
    (\<open>grpc_client.go\<close>) and the health monitor (\<open>ha.go\<close>). \<open>Bench\<close>: the gRPC load generator (\<open>grpc_benchmark/\<close>).
  \<^item> \<open>Proto\<close> (\<open>pkg/proto\<close>, \<open>DataPack.go\<close>, \<open>message.go\<close>, \<open>pkg/utils\<close>), \<open>Ingest\<close> (\<open>filter.go\<close>, \<open>predicate.go\<close>, \<open>metrics.go\<close>, \<open>request.go\<close>),
    \<open>Router\<close> (\<open>router.go\<close>, dispatch, \<open>grpc_server.go\<close>), \<open>Network\<close> (\<open>connection.go\<close>, \<open>ConnManager.go\<close>), \<open>Workers\<close> (\<open>msgHandle.go\<close>, \<open>server.go\<close>: the worker pool as steps \<open>pstep\<close>, the accept
    loop, shutdown),
    \<open>Client\<close> (\<open>client/\<close>), \<open>Config\<close> (\<open>config/global.go\<close>), and \<open>EndToEnd\<close>, the path of a request through all of them.
  \<^item> \<open>Examples\<close> has concrete parameters; \<open>StorageClaims\<close>, \<open>CompactClaims\<close>, \<open>RaftClaims\<close>, \<open>ClusterClaims\<close>, \<open>ServerClaims\<close>,
    \<open>ServiceClaims\<close>, \<open>NetClaims\<close> state the properties, each with
    an instance at concrete inputs where it has hypotheses.

  \<^bold>\<open>What is shown.\<close> Storage: reads see the last write in every interleaving, credit is accounted for exactly and
  bounds the memory, flush and compaction keep the view, reads stay right beside a running compaction, files, filters and lookups are correct. Server: every
  acknowledged standalone write survives a crash with a torn log, a restart answers as before, the apply loop performs
  the committed commands, a scan returns the matching entries, a put and a get through the whole stack agree with a map.
  Raft: one vote for each term as long as no election times out, the log merge of \<open>AppendEntries\<close>, commits need a recorded
  majority, snapshots and restarts; a candidate that reaches a majority of equal nodes wins, replicates every command, and is
  succeeded without loss; the stores behind the nodes follow. Network: the worker pool loses and repeats nothing, frames, scan payloads, order of the responses, the filter's guarantees, the
  mode of a configuration. Properties that say what goes wrong name the lines they come from.

  \<^bold>\<open>Conventions.\<close> A panic is \<open>None\<close>; an error is a value of a sum; a nil slice that the code tells from an empty one is
  \<open>None\<close> of a \<open>bytes option\<close>. I/O failures, the clock, the coins of the skip list and the order of a map iteration are
  arguments. Floating-point sizing of filters (\<open>FloatMath\<close>), \<open>encoding/json\<close> (\<open>Json\<close>, \<open>JsonValues\<close>), \<open>strings.Fields\<close>, \<open>strings.ToLower\<close>
  and the flag integers are arguments with their documented behaviour as hypotheses. Loops are total functions with
  measures on the bytes or entries left; the only fuel is the number of turns of the stealing loop, which its source
  bounds by the number of workers.

  \<^bold>\<open>Not modelled.\<close> The scheduling of goroutines beyond the step relations above; sockets, listeners, connection callbacks,
  logging and printing; the interface declarations of \<open>network/banIface\<close>; floating-point rates; generated protobuf code; the
  benchmarks of the TCP protocol (\<open>benchmark/\<close>).
\<close>

end
